(* ===== verification/Gateway_Prelude.thy ===== *)
theory Gateway_Prelude
  imports Main "HOL-Library.Word"
begin

text \<open>
  Shared vocabulary of the development: the machine integers, durations and instants of the
  Rust sources, the saturating and checked operations of the standard library on them, the
  result type, and the generic lemmas on lists, options and association lists that the
  component theories use.  The locale of inductive invariants at the end is interpreted by
  every component that is a state machine.
\<close>

section \<open>Collections of facts\<close>

named_theorems gw_ops \<open>operations of the components, unfolded by simp\<close>
named_theorems gw_split \<open>case splits on the model's option and result values\<close>

section \<open>Machine integers and time\<close>

type_synonym u8 = "8 word"
type_synonym u16 = "16 word"
type_synonym u32 = "32 word"
type_synonym u64 = "64 word"
type_synonym u128 = "128 word"

text \<open>
  A \<open>Duration\<close> is a number of nanoseconds and an \<open>Instant\<close> or \<open>SystemTime\<close> the
  nanoseconds since a fixed origin.  \<open>duration_max\<close> is \<open>Duration::MAX\<close>:
  \<open>u64::MAX\<close> seconds and 999999999 nanoseconds.
\<close>

type_synonym duration = nat
type_synonym instant = nat

definition duration_max :: duration where
  "duration_max = 2 ^ 64 * 10 ^ 9 - 1"

definition from_millis :: "nat \<Rightarrow> duration" where
  "from_millis ms = ms * 10 ^ 6"

definition from_secs :: "nat \<Rightarrow> duration" where
  "from_secs s = s * 10 ^ 9"

text \<open>\<open>Instant::saturating_duration_since\<close> is zero when the argument is later.\<close>

definition saturating_duration_since :: "instant \<Rightarrow> instant \<Rightarrow> duration" where
  "saturating_duration_since now earlier = now - earlier"

text \<open>Results: \<open>Inl\<close> is \<open>Err\<close>, \<open>Inr\<close> is \<open>Ok\<close>.\<close>

type_synonym ('e, 'a) result = "'e + 'a"

fun is_ok :: "('e, 'a) result \<Rightarrow> bool" where
  "is_ok (Inr _) = True"
| "is_ok (Inl _) = False"

section \<open>Saturating and checked arithmetic on words\<close>

definition word_max :: "'a::len word" where
  "word_max = - 1"

definition saturating_add :: "'a::len word \<Rightarrow> 'a word \<Rightarrow> 'a word" where
  "saturating_add a b = (if unat a + unat b < 2 ^ LENGTH('a) then a + b else word_max)"

definition saturating_sub :: "'a::len word \<Rightarrow> 'a word \<Rightarrow> 'a word" where
  "saturating_sub a b = (if b \<le> a then a - b else 0)"

definition saturating_mul :: "'a::len word \<Rightarrow> 'a word \<Rightarrow> 'a word" where
  "saturating_mul a b = (if unat a * unat b < 2 ^ LENGTH('a) then a * b else word_max)"

definition checked_add :: "'a::len word \<Rightarrow> 'a word \<Rightarrow> 'a word option" where
  "checked_add a b = (if unat a + unat b < 2 ^ LENGTH('a) then Some (a + b) else None)"

definition checked_sub :: "'a::len word \<Rightarrow> 'a word \<Rightarrow> 'a word option" where
  "checked_sub a b = (if b \<le> a then Some (a - b) else None)"

lemma unat_word_max [simp]: "unat (word_max :: 'a::len word) = 2 ^ LENGTH('a) - 1"
    by (simp add: word_max_def unsigned_minus_1_eq_mask mask_eq_exp_minus_1)

lemma unat_saturating_add [simp]:
  "unat (saturating_add a b) = min (unat a + unat b) (2 ^ LENGTH('a) - 1)"
  for a b :: "'a::len word"
  by (auto simp: saturating_add_def unat_word_ariths min_def)

lemma unat_saturating_sub [simp]: "unat (saturating_sub a b) = unat a - unat b"
  by (auto simp: saturating_sub_def unat_sub word_le_nat_alt)

lemma unat_saturating_mul [simp]:
  "unat (saturating_mul a b) = min (unat a * unat b) (2 ^ LENGTH('a) - 1)"
  for a b :: "'a::len word"
proof (cases "unat a * unat b < 2 ^ LENGTH('a)")
  case True
  then have "min (unat a * unat b) (2 ^ LENGTH('a) - 1) = unat a * unat b" by linarith
  with True show ?thesis by (simp add: saturating_mul_def unat_word_ariths)
next
  case False
  then have "min (unat a * unat b) (2 ^ LENGTH('a) - 1) = 2 ^ LENGTH('a) - 1" by linarith
  with False show ?thesis by (simp add: saturating_mul_def)
qed

lemma unat_u64_less: "unat (x :: u64) < 2 ^ 64"
proof -
  have "unat x < 2 ^ LENGTH(64)" by (rule unsigned_less)
  then show ?thesis by simp
qed

lemma unat_ucast_u128 [simp]: "unat (ucast (x :: u64) :: u128) = unat x"
proof -
  have "unat x < 2 ^ 128" using unat_u64_less [of x] by simp
  then show ?thesis by (simp add: unsigned_ucast_eq take_bit_nat_eq_self)
qed

lemma unat_ucast_u64: "unat (ucast (x :: u128) :: u64) = unat x mod 2 ^ 64"
  by (simp add: unsigned_ucast_eq take_bit_eq_mod)

lemma checked_add_Some: "checked_add a b = Some c \<Longrightarrow> unat c = unat a + unat b"
  by (auto simp: checked_add_def unat_word_ariths split: if_splits)

lemma checked_sub_Some: "checked_sub a b = Some c \<Longrightarrow> unat c + unat b = unat a"
  by (auto simp: checked_sub_def unat_sub word_le_nat_alt split: if_splits)

lemma checked_sub_None: "checked_sub a b = None \<longleftrightarrow> unat a < unat b"
  by (auto simp: checked_sub_def word_le_nat_alt)

section \<open>Lists\<close>

lemma find_by_key:
  "inj_on key (set xs) \<Longrightarrow> x \<in> set xs \<Longrightarrow> find (\<lambda>y. key y = key x) xs = Some x"
  by (induction xs) (auto simp: inj_on_def)

lemma list_all2_left: "list_all2 R xs ys \<Longrightarrow> x \<in> set xs \<Longrightarrow> \<exists>y\<in>set ys. R x y"
  by (induction rule: list_all2_induct) auto

lemma list_all2_right: "list_all2 R xs ys \<Longrightarrow> y \<in> set ys \<Longrightarrow> \<exists>x\<in>set xs. R x y"
  by (induction rule: list_all2_induct) auto

section \<open>Inductive invariants\<close>

text \<open>
  The states a step relation reaches from an initial state, and the contract of an invariant
  on them: it holds initially and every step keeps it.
\<close>

inductive reaches :: "('s \<Rightarrow> 's \<Rightarrow> bool) \<Rightarrow> 's \<Rightarrow> 's \<Rightarrow> bool" for step s0 where
  reaches_refl: "reaches step s0 s0"
| reaches_step: "reaches step s0 s \<Longrightarrow> step s t \<Longrightarrow> reaches step s0 t"

locale inductive_invariant =
  fixes step :: "'s \<Rightarrow> 's \<Rightarrow> bool"
    and good :: "'s \<Rightarrow> bool"
  assumes step_good: "good s \<Longrightarrow> step s t \<Longrightarrow> good t"
begin

lemma reachable_good: "reaches step s0 s \<Longrightarrow> good s0 \<Longrightarrow> good s"
  by (induction rule: reaches.induct) (auto intro: step_good)

end

end
