(* ===== verification/Probe_Gate.thy ===== *)
theory Probe_Gate
  imports Gateway_Prelude
begin

text \<open>
  The contract two components share: the per-target circuit breaker
  (\<open>gateway-core/src/circuit.rs\<close>) and the per-credential health table
  (\<open>gateway/src/credentials.rs\<close>) both park a failing key, and hand out a single half-open
  probe per cooldown window, re-arming the window as they do.  The locale states what an
  operation may do to the instant the window is measured from; its lemma is the property
  both components promise: two probes of one key are at least one window apart.
\<close>

fun probe_times ::
  "('s \<Rightarrow> 'op \<Rightarrow> instant \<Rightarrow> 's \<times> bool) \<Rightarrow> 's \<Rightarrow> ('op \<times> instant) list \<Rightarrow> instant list" where
  "probe_times step s [] = []"
| "probe_times step s ((e, now) # es) =
     (if snd (step s e now) then now # probe_times step (fst (step s e now)) es
      else probe_times step (fst (step s e now)) es)"

locale probe_gate =
  fixes step :: "'s \<Rightarrow> 'op \<Rightarrow> instant \<Rightarrow> 's \<times> bool"
    and since :: "'s \<Rightarrow> instant option"
    and good :: "'s \<Rightarrow> bool"
    and window :: duration
  assumes good_step: "good s \<Longrightarrow> good (fst (step s e now))"
    and probe_due:
      "good s \<Longrightarrow> snd (step s e now) \<Longrightarrow> \<exists>t. since s = Some t \<and> window \<le> now - t"
    and probe_rearms: "good s \<Longrightarrow> snd (step s e now) \<Longrightarrow> since (fst (step s e now)) = Some now"
    and since_moves:
      "good s \<Longrightarrow> \<not> snd (step s e now) \<Longrightarrow>
         since (fst (step s e now)) = since s \<or> since (fst (step s e now)) = Some now
         \<or> since (fst (step s e now)) = None"
begin

lemma since_not_before:
  assumes "good s" and "p \<le> now" and "\<And>t. since s = Some t \<Longrightarrow> p \<le> t"
    and "since (fst (step s e now)) = Some t"
  shows "p \<le> t"
proof (cases "snd (step s e now)")
  case True
  with assms show ?thesis using probe_rearms by force
next
  case False
  with assms show ?thesis using since_moves [OF assms(1) False] by auto
qed

lemma probe_not_before_window:
  assumes "good s" and "p \<le> now" and "\<And>t. since s = Some t \<Longrightarrow> p \<le> t"
    and "snd (step s e now)"
  shows "p + window \<le> now"
proof -
  from probe_due [OF assms(1,4)] obtain t where "since s = Some t" "window \<le> now - t" by blast
  with assms(2,3) show ?thesis by (cases "window = 0") (auto dest: assms(3))
qed

lemma later_probes_wait:
  assumes "good s" and "\<forall>now\<in>set (map snd es). p \<le> now" and "\<And>t. since s = Some t \<Longrightarrow> p \<le> t"
  shows "\<forall>x\<in>set (probe_times step s es). p + window \<le> x"
  using assms
proof (induction es arbitrary: s)
  case Nil
  then show ?case by simp
next
  case (Cons event es)
  obtain e now where event: "event = (e, now)" by fastforce
  let ?s = "fst (step s e now)"
  have "p \<le> now" and later: "\<forall>now\<in>set (map snd es). p \<le> now"
    using Cons.prems(2) event by simp_all
  have since: "p \<le> t" if "since ?s = Some t" for t
    by (rule since_not_before [OF Cons.prems(1) \<open>p \<le> now\<close> Cons.prems(3) that])
  have "\<forall>x\<in>set (probe_times step ?s es). p + window \<le> x"
    by (rule Cons.IH [OF good_step [OF Cons.prems(1)] later since])
  moreover have "snd (step s e now) \<Longrightarrow> p + window \<le> now"
    by (rule probe_not_before_window [OF Cons.prems(1) \<open>p \<le> now\<close> Cons.prems(3)])
  ultimately show ?case using event by auto
qed

lemma probes_are_spaced:
  assumes "good s" and "sorted (map snd es)"
  shows "sorted_wrt (\<lambda>a b. a + window \<le> b) (probe_times step s es)"
  using assms
proof (induction es arbitrary: s)
  case Nil
  then show ?case by simp
next
  case (Cons event es)
  obtain e now where event: "event = (e, now)" by fastforce
  let ?s = "fst (step s e now)"
  have good: "good ?s" using Cons.prems(1) by (rule good_step)
  have rest: "sorted_wrt (\<lambda>a b. a + window \<le> b) (probe_times step ?s es)"
    using Cons.prems(2) event by (intro Cons.IH good) simp
  have "\<forall>x\<in>set (probe_times step ?s es). now + window \<le> x" if "snd (step s e now)"
    using Cons.prems event good probe_rearms [OF Cons.prems(1) that]
    by (intro later_probes_wait) auto
  with rest event show ?case by auto
qed

end

end
