(* ===== verification/Circuit.thy ===== *)
theory Circuit
  imports Probe_Gate
begin

text \<open>
  The per-target circuit breaker, \<open>crates/gateway-core/src/circuit.rs\<close>.  The
  \<open>Mutex<HashMap<String, Circuit>>\<close> is a map; each method holds the lock for its whole
  body, so a method is one function from breaker to breaker.  \<open>Instant::now()\<close> is an
  argument, as in the \<open>_at\<close> methods.
\<close>

section \<open>State and operations\<close>

datatype circuit_state = Closed | Open | HalfOpen

datatype circuit_decision = Allow bool | Skip

record circuit =
  state :: circuit_state
  failures :: u32
  phase_started :: "instant option"

definition circuit_default :: circuit where
  "circuit_default = \<lparr>state = Closed, failures = 0, phase_started = None\<rparr>"

record circuit_breaker =
  threshold :: u32
  cooldown :: duration
  circuits :: "string \<rightharpoonup> circuit"

definition circuit_breaker_new :: "u32 \<Rightarrow> duration \<Rightarrow> circuit_breaker" where
  "circuit_breaker_new n d = \<lparr>threshold = max n 1, cooldown = d, circuits = Map.empty\<rparr>"

text \<open>\<open>entry(provider).or_default()\<close> and the write back through the entry.\<close>

definition circuit_entry :: "circuit_breaker \<Rightarrow> string \<Rightarrow> circuit" where
  "circuit_entry b p = (case circuits b p of None \<Rightarrow> circuit_default | Some c \<Rightarrow> c)"

definition put_circuit :: "circuit_breaker \<Rightarrow> string \<Rightarrow> circuit \<Rightarrow> circuit_breaker" where
  "put_circuit b p c = b\<lparr>circuits := (circuits b)(p \<mapsto> c)\<rparr>"

definition elapsed :: "instant option \<Rightarrow> instant \<Rightarrow> duration" where
  "elapsed started now =
     (case started of None \<Rightarrow> duration_max | Some t \<Rightarrow> saturating_duration_since now t)"

definition allow_at :: "circuit_breaker \<Rightarrow> string \<Rightarrow> instant \<Rightarrow> circuit_breaker \<times> circuit_decision" where
  "allow_at b p now =
     (let c = circuit_entry b p in
      case state c of
        Closed \<Rightarrow> (put_circuit b p c, Allow False)
      | Open \<Rightarrow>
          (if cooldown b \<le> elapsed (phase_started c) now
           then (put_circuit b p (c\<lparr>state := HalfOpen, phase_started := Some now\<rparr>), Allow True)
           else (put_circuit b p c, Skip))
      | HalfOpen \<Rightarrow>
          (if cooldown b \<le> elapsed (phase_started c) now
           then (put_circuit b p (c\<lparr>phase_started := Some now\<rparr>), Allow True)
           else (put_circuit b p c, Skip)))"

definition record_success :: "circuit_breaker \<Rightarrow> string \<Rightarrow> circuit_breaker" where
  "record_success b p =
     put_circuit b p ((circuit_entry b p)\<lparr>state := Closed, failures := 0, phase_started := None\<rparr>)"

definition record_failure_at :: "circuit_breaker \<Rightarrow> string \<Rightarrow> instant \<Rightarrow> circuit_breaker" where
  "record_failure_at b p now =
     (let c = circuit_entry b p in
      case state c of
        Closed \<Rightarrow>
          (let n = saturating_add (failures c) 1;
               c' = c\<lparr>failures := n\<rparr>
           in if threshold b \<le> n
              then put_circuit b p (c'\<lparr>state := Open, phase_started := Some now\<rparr>)
              else put_circuit b p c')
      | HalfOpen \<Rightarrow>
          put_circuit b p (c\<lparr>state := Open, failures := threshold b, phase_started := Some now\<rparr>)
      | Open \<Rightarrow> put_circuit b p c)"

definition breaker_state :: "circuit_breaker \<Rightarrow> string \<Rightarrow> circuit_state" where
  "breaker_state b p = (case circuits b p of None \<Rightarrow> Closed | Some c \<Rightarrow> state c)"

text \<open>
  \<open>snapshot\<close> and \<open>observed_at\<close> iterate over the hash map, whose order is unspecified; the
  model returns the map from provider to phase.
\<close>

definition snapshot :: "circuit_breaker \<Rightarrow> (string \<rightharpoonup> circuit_state)" where
  "snapshot b p = map_option state (circuits b p)"

definition observed_phase :: "circuit_breaker \<Rightarrow> circuit \<Rightarrow> instant \<Rightarrow> circuit_state" where
  "observed_phase b c now =
     (if state c \<noteq> Closed \<and> cooldown b \<le> elapsed (phase_started c) now then HalfOpen
      else state c)"

definition observed_at :: "circuit_breaker \<Rightarrow> instant \<Rightarrow> (string \<rightharpoonup> circuit_state)" where
  "observed_at b now p = map_option (\<lambda>c. observed_phase b c now) (circuits b p)"

section \<open>Shared lemmas\<close>

lemma put_circuit_sel [simp]:
  "threshold (put_circuit b p c) = threshold b"
  "cooldown (put_circuit b p c) = cooldown b"
  "circuits (put_circuit b p c) = (circuits b)(p \<mapsto> c)"
  by (simp_all add: put_circuit_def)

lemma circuit_entry_put [simp]:
  "circuit_entry (put_circuit b p c) q = (if q = p then c else circuit_entry b q)"
  by (simp add: circuit_entry_def)

lemmas circuit_splits = circuit_state.splits option.splits if_splits

text \<open>One operation of the breaker at an instant, and whether it handed \<open>p\<close> a probe.\<close>

datatype breaker_op = AllowOp string | SuccessOp string | FailureOp string

fun breaker_step :: "string \<Rightarrow> circuit_breaker \<Rightarrow> breaker_op \<Rightarrow> instant \<Rightarrow> circuit_breaker \<times> bool" where
  "breaker_step p b (AllowOp q) now =
     (fst (allow_at b q now), q = p \<and> snd (allow_at b q now) = Allow True)"
| "breaker_step p b (SuccessOp q) now = (record_success b q, False)"
| "breaker_step p b (FailureOp q) now = (record_failure_at b q now, False)"

text \<open>A circuit that is not closed knows when its phase started.\<close>

definition breaker_ok :: "circuit_breaker \<Rightarrow> bool" where
  "breaker_ok b \<longleftrightarrow> (\<forall>p. state (circuit_entry b p) \<noteq> Closed \<longrightarrow> phase_started (circuit_entry b p) \<noteq> None)"

lemma breaker_ok_put:
  "breaker_ok b \<Longrightarrow> (state c \<noteq> Closed \<Longrightarrow> phase_started c \<noteq> None) \<Longrightarrow> breaker_ok (put_circuit b p c)"
  by (auto simp: breaker_ok_def)

lemma breaker_ok_new: "breaker_ok (circuit_breaker_new n d)"
  by (simp add: breaker_ok_def circuit_breaker_new_def circuit_entry_def circuit_default_def)

lemma breaker_okD: "breaker_ok b \<Longrightarrow> state (circuit_entry b p) \<noteq> Closed \<Longrightarrow> \<exists>t. phase_started (circuit_entry b p) = Some t"
  by (auto simp: breaker_ok_def)

lemma breaker_step_ok: "breaker_ok b \<Longrightarrow> breaker_ok (fst (breaker_step p b e now))"
  by (cases e)
    (auto simp: allow_at_def record_success_def record_failure_at_def Let_def
          intro!: breaker_ok_put dest: breaker_okD split: circuit_splits)

lemma breaker_step_cooldown: "cooldown (fst (breaker_step p b e now)) = cooldown b"
  by (cases e)
    (auto simp: allow_at_def record_success_def record_failure_at_def Let_def split: circuit_splits)

interpretation breaker: probe_gate "breaker_step p" "\<lambda>b. phase_started (circuit_entry b p)"
  "\<lambda>b. breaker_ok b \<and> cooldown b = d" d
  for p d
proof (unfold_locales, goal_cases)
  case (1 s e now)
  then show ?case by (simp add: breaker_step_ok breaker_step_cooldown)
next
  case (2 s e now)
  then show ?case
    by (cases e)
      (auto simp: allow_at_def Let_def elapsed_def saturating_duration_since_def
            dest!: breaker_okD [where p = p] split: circuit_splits)
next
  case (3 s e now)
  then show ?case by (cases e) (auto simp: allow_at_def Let_def split: circuit_splits)
next
  case (4 s e now)
  then show ?case
    by (cases e)
      (auto simp: allow_at_def record_success_def record_failure_at_def Let_def split: circuit_splits)
qed

section \<open>Properties\<close>

lemma breaker_state_entry: "breaker_state b p = state (circuit_entry b p)"
  by (simp add: breaker_state_def circuit_entry_def circuit_default_def split: option.splits)

lemma other_provider_untouched:
  "q \<noteq> p \<Longrightarrow> circuits (fst (allow_at b q now)) p = circuits b p"
  "q \<noteq> p \<Longrightarrow> circuits (record_success b q) p = circuits b p"
  "q \<noteq> p \<Longrightarrow> circuits (record_failure_at b q now) p = circuits b p"
  by (auto simp: allow_at_def record_success_def record_failure_at_def Let_def split: circuit_splits)

text \<open>
  C17. In every run of the breaker with a clock that does not go back, whatever successes and
  failures are recorded in between and on whichever providers, two probes handed out for one
  provider are at least one cooldown apart.
\<close>

theorem breaker_probes_spaced:
  "sorted (map snd es) \<Longrightarrow>
     sorted_wrt (\<lambda>a b. a + d \<le> b) (probe_times (breaker_step p) (circuit_breaker_new n d) es)"
  by (rule breaker.probes_are_spaced) (simp_all add: breaker_ok_new, simp add: circuit_breaker_new_def)

theorem breaker_probes_spaced_witness:
  "let es = [(FailureOp ''a'', 0), (AllowOp ''a'', 4), (AllowOp ''a'', 10), (AllowOp ''a'', 12),
             (FailureOp ''a'', 13), (AllowOp ''a'', 22), (AllowOp ''a'', 23)] in
   sorted (map snd es)
   \<and> probe_times (breaker_step ''a'') (circuit_breaker_new 1 10) es = [10, 23]
   \<and> sorted_wrt (\<lambda>a b. a + 10 \<le> b) (probe_times (breaker_step ''a'') (circuit_breaker_new 1 10) es)"
  using breaker_probes_spaced
    [of "[(FailureOp ''a'', 0), (AllowOp ''a'', 4), (AllowOp ''a'', 10), (AllowOp ''a'', 12),
          (FailureOp ''a'', 13), (AllowOp ''a'', 22), (AllowOp ''a'', 23)]" 10 "''a''" 1]
  by (simp add: allow_at_def record_failure_at_def circuit_breaker_new_def circuit_entry_def
      circuit_default_def put_circuit_def elapsed_def saturating_duration_since_def
      saturating_add_def duration_max_def)

lemma failures_while_closed:
  assumes "state (circuit_entry b p) = Closed"
    and "unat (failures (circuit_entry b p)) < unat (threshold b)"
  shows "state (circuit_entry (record_failure_at b p now) p) =
           (if Suc (unat (failures (circuit_entry b p))) < unat (threshold b) then Closed else Open)"
    and "Suc (unat (failures (circuit_entry b p))) < unat (threshold b) \<Longrightarrow>
           unat (failures (circuit_entry (record_failure_at b p now) p))
             = Suc (unat (failures (circuit_entry b p)))"
    and "threshold (record_failure_at b p now) = threshold b"
proof -
  let ?n = "failures (circuit_entry b p)"
  have bound: "unat (threshold b) < 2 ^ 32" using unsigned_less [of "threshold b"] by simp
  then have sat: "unat (saturating_add ?n 1) = Suc (unat ?n)" using assms(2) by simp
  then show "state (circuit_entry (record_failure_at b p now) p) =
           (if Suc (unat ?n) < unat (threshold b) then Closed else Open)"
    and "Suc (unat ?n) < unat (threshold b) \<Longrightarrow>
           unat (failures (circuit_entry (record_failure_at b p now) p)) = Suc (unat ?n)"
    and "threshold (record_failure_at b p now) = threshold b"
    using assms(1) by (auto simp: record_failure_at_def Let_def word_le_nat_alt)
qed

lemma open_ignores_failures:
  "state (circuit_entry b p) = Open \<Longrightarrow>
     state (circuit_entry (fold (\<lambda>t b. record_failure_at b p t) ts b) p) = Open"
  by (induction ts arbitrary: b) (simp_all add: record_failure_at_def Let_def)

lemma failures_open_at_threshold:
  assumes "state (circuit_entry b p) = Closed"
    and "unat (failures (circuit_entry b p)) < unat (threshold b)"
  shows "state (circuit_entry (fold (\<lambda>t b. record_failure_at b p t) ts b) p) =
           (if unat (failures (circuit_entry b p)) + length ts < unat (threshold b)
            then Closed else Open)"
  using assms
proof (induction ts arbitrary: b)
  case Nil
  then show ?case by simp
next
  case (Cons t ts)
  let ?b = "record_failure_at b p t"
  note step = failures_while_closed [OF Cons.prems, of t]
  show ?case
  proof (cases "Suc (unat (failures (circuit_entry b p))) < unat (threshold b)")
    case True
    with step have "state (circuit_entry ?b p) = Closed"
      and "unat (failures (circuit_entry ?b p)) < unat (threshold ?b)"
      by simp_all
    from Cons.IH [OF this] step True show ?thesis by simp
  next
    case False
    with step(1) have "state (circuit_entry ?b p) = Open" by simp
    with False show ?thesis by (simp add: open_ignores_failures)
  qed
qed

text \<open>
  C23. A provider that only fails is open exactly from its \<open>threshold\<close>-th consecutive failure
  on (a configured threshold of 0 counts as 1), however many failures follow: the saturating
  32-bit counter never re-closes it.
\<close>

theorem breaker_opens_at_threshold:
  "breaker_state (fold (\<lambda>t b. record_failure_at b p t) ts (circuit_breaker_new n d)) p =
     (if length ts < unat (max n 1) then Closed else Open)"
proof -
  let ?b = "circuit_breaker_new n d"
  have entry: "circuit_entry ?b p = circuit_default" "threshold ?b = max n 1"
    by (simp_all add: circuit_breaker_new_def circuit_entry_def)
  have "0 < unat (max n 1)" by (auto simp: max_def word_le_nat_alt unat_gt_0)
  with failures_open_at_threshold [of ?b p ts] entry show ?thesis
    by (simp add: breaker_state_entry circuit_default_def)
qed

text \<open>
  \<open>observed_at\<close> reports for every provider the phase the next request would find: the
  phase stored after an \<open>allow_at\<close> at the same instant.  It also predicts the decision: a
  closed phase is admitted without a probe, an open one is skipped, and a probe is only ever
  handed out in the half-open phase.
\<close>

theorem observed_is_what_allow_finds:
  "breaker_state (fst (allow_at b p now)) p =
     (case observed_at b now p of None \<Rightarrow> Closed | Some phase \<Rightarrow> phase)
   \<and> (snd (allow_at b p now) = Allow False \<longleftrightarrow> observed_at b now p \<in> {None, Some Closed})
   \<and> (observed_at b now p = Some Open \<longrightarrow> snd (allow_at b p now) = Skip)
   \<and> (snd (allow_at b p now) = Allow True \<longrightarrow> observed_at b now p = Some HalfOpen)"
proof (cases "circuits b p")
  case None
  then show ?thesis
    by (simp add: breaker_state_entry observed_at_def allow_at_def circuit_entry_def circuit_default_def)
next
  case (Some c)
  then have entry: "circuit_entry b p = c" by (simp add: circuit_entry_def)
  with Some show ?thesis
    by (cases "state c") (simp_all add: breaker_state_entry observed_at_def observed_phase_def allow_at_def)
qed

theorem observed_is_what_allow_finds_witness:
  "let b = put_circuit (circuit_breaker_new 2 10) ''a''
             \<lparr>state = Open, failures = 2, phase_started = Some 2\<rparr> in
   observed_at b 5 ''a'' = Some Open \<and> snd (allow_at b ''a'' 5) = Skip
   \<and> snd (allow_at b ''a'' 12) = Allow True \<and> observed_at b 12 ''a'' = Some HalfOpen"
  using observed_is_what_allow_finds
    [of "put_circuit (circuit_breaker_new 2 10) ''a''
           \<lparr>state = Open, failures = 2, phase_started = Some 2\<rparr>" "''a''" 5]
    observed_is_what_allow_finds
    [of "put_circuit (circuit_breaker_new 2 10) ''a''
           \<lparr>state = Open, failures = 2, phase_started = Some 2\<rparr>" "''a''" 12]
  by (simp add: allow_at_def circuit_breaker_new_def Let_def elapsed_def
      saturating_duration_since_def observed_at_def observed_phase_def)

end
