(* ===== verification/Rust_String.thy ===== *)
theory Rust_String
  imports Gateway_Prelude
begin

text \<open>
  The string operations of the Rust standard library that the sources use.  A \<open>String\<close> or
  \<open>&str\<close> is its UTF-8 bytes, one \<open>char\<close> of HOL per byte, so \<open>len()\<close> is \<open>length\<close>.
  \<open>utf8_valid\<close> is the invariant every Rust string has.
\<close>

section \<open>Prefixes, suffixes and search\<close>

definition starts_with :: "string \<Rightarrow> string \<Rightarrow> bool" where
  "starts_with s p \<longleftrightarrow> take (length p) s = p"

definition ends_with :: "string \<Rightarrow> string \<Rightarrow> bool" where
  "ends_with s p \<longleftrightarrow> length p \<le> length s \<and> drop (length s - length p) s = p"

definition strip_prefix :: "string \<Rightarrow> string \<Rightarrow> string option" where
  "strip_prefix s p = (if starts_with s p then Some (drop (length p) s) else None)"

fun str_contains :: "string \<Rightarrow> string \<Rightarrow> bool" where
  "str_contains [] p = (p = [])"
| "str_contains (c # s) p = (starts_with (c # s) p \<or> str_contains s p)"

text \<open>\<open>split_once\<close>: the text before and after the first occurrence of a one-byte pattern.\<close>

fun split_once :: "string \<Rightarrow> char \<Rightarrow> (string \<times> string) option" where
  "split_once [] d = None"
| "split_once (c # s) d =
     (if c = d then Some ([], s) else map_option (\<lambda>(a, b). (c # a, b)) (split_once s d))"

lemma starts_with_append [simp]: "starts_with (p @ s) p"
  by (simp add: starts_with_def)

lemma starts_with_iff: "starts_with s p \<longleftrightarrow> (\<exists>r. s = p @ r)"
  by (metis append_eq_conv_conj append_take_drop_id starts_with_def)

lemma ends_with_iff: "ends_with s p \<longleftrightarrow> (\<exists>r. s = r @ p)"
proof
  assume "ends_with s p"
  then show "\<exists>r. s = r @ p"
    by (metis append_take_drop_id ends_with_def)
qed (auto simp: ends_with_def)

lemma strip_prefix_Some: "strip_prefix s p = Some r \<longleftrightarrow> s = p @ r"
  by (auto simp: strip_prefix_def starts_with_iff)

lemma split_once_Some: "split_once s d = Some (a, b) \<Longrightarrow> s = a @ d # b \<and> d \<notin> set a"
  by (induction s arbitrary: a) (auto split: if_splits)

section \<open>ASCII classes\<close>

definition byte :: "char \<Rightarrow> nat" where
  "byte c = of_char c"

definition is_ascii_digit :: "char \<Rightarrow> bool" where
  "is_ascii_digit c \<longleftrightarrow> 48 \<le> byte c \<and> byte c \<le> 57"

definition is_ascii_lowercase :: "char \<Rightarrow> bool" where
  "is_ascii_lowercase c \<longleftrightarrow> 97 \<le> byte c \<and> byte c \<le> 122"

definition is_ascii_uppercase :: "char \<Rightarrow> bool" where
  "is_ascii_uppercase c \<longleftrightarrow> 65 \<le> byte c \<and> byte c \<le> 90"

definition is_ascii_alphanumeric :: "char \<Rightarrow> bool" where
  "is_ascii_alphanumeric c \<longleftrightarrow> is_ascii_digit c \<or> is_ascii_lowercase c \<or> is_ascii_uppercase c"

definition to_ascii_lowercase :: "string \<Rightarrow> string" where
  "to_ascii_lowercase = map (\<lambda>c. if is_ascii_uppercase c then char_of (byte c + 32) else c)"

section \<open>Lines\<close>

fun split_inclusive :: "string \<Rightarrow> string \<Rightarrow> string list" where
  "split_inclusive acc [] = (if acc = [] then [] else [rev acc])"
| "split_inclusive acc (c # s) =
     (if c = CHR 0x0A then rev (c # acc) # split_inclusive [] s else split_inclusive (c # acc) s)"

text \<open>A line without its \<open>\n\<close> or \<open>\r\n\<close>; an unterminated last line is left as it is.\<close>

definition strip_line_ending :: "string \<Rightarrow> string" where
  "strip_line_ending l =
     (if l \<noteq> [] \<and> last l = CHR 0x0A
      then (let k = butlast l in if k \<noteq> [] \<and> last k = CHR 0x0D then butlast k else k)
      else l)"

definition str_lines :: "string \<Rightarrow> string list" where
  "str_lines s = map strip_line_ending (split_inclusive [] s)"

fun join_with :: "string \<Rightarrow> string list \<Rightarrow> string" where
  "join_with sep [] = []"
| "join_with sep [x] = x"
| "join_with sep (x # y # xs) = x @ sep @ join_with sep (y # xs)"

section \<open>UTF-8\<close>

definition is_continuation :: "char \<Rightarrow> bool" where
  "is_continuation c \<longleftrightarrow> 128 \<le> byte c \<and> byte c < 192"

definition is_char_boundary :: "string \<Rightarrow> nat \<Rightarrow> bool" where
  "is_char_boundary s i \<longleftrightarrow> i = 0 \<or> i = length s \<or> (i < length s \<and> \<not> is_continuation (s ! i))"

definition in_range :: "char \<Rightarrow> nat \<Rightarrow> nat \<Rightarrow> bool" where
  "in_range c lo hi \<longleftrightarrow> lo \<le> byte c \<and> byte c \<le> hi"

text \<open>Well-formed UTF-8 byte sequences (Unicode, table 3-7), as \<open>str::from_utf8\<close> accepts them.\<close>

definition utf8_pair :: "char \<Rightarrow> char \<Rightarrow> bool" where
  "utf8_pair a b \<longleftrightarrow>
     (in_range a 0xC2 0xDF \<or> in_range a 0xE1 0xEC \<or> in_range a 0xEE 0xEF \<or> in_range a 0xF1 0xF3)
       \<and> in_range b 0x80 0xBF
     \<or> byte a = 0xE0 \<and> in_range b 0xA0 0xBF
     \<or> byte a = 0xED \<and> in_range b 0x80 0x9F
     \<or> byte a = 0xF0 \<and> in_range b 0x90 0xBF
     \<or> byte a = 0xF4 \<and> in_range b 0x80 0x8F"

fun utf8_valid :: "string \<Rightarrow> bool" where
  "utf8_valid [] = True"
| "utf8_valid (a # s) =
     (if byte a < 0x80 then utf8_valid s
      else if byte a < 0xE0
      then (case s of b # s' \<Rightarrow> utf8_pair a b \<and> utf8_valid s' | _ \<Rightarrow> False)
      else if byte a < 0xF0
      then (case s of b # c # s' \<Rightarrow> utf8_pair a b \<and> is_continuation c \<and> utf8_valid s' | _ \<Rightarrow> False)
      else (case s of
              b # c # d # s' \<Rightarrow>
                utf8_pair a b \<and> is_continuation c \<and> is_continuation d \<and> utf8_valid s'
            | _ \<Rightarrow> False))"

lemma utf8_pair_continuation: "utf8_pair a b \<Longrightarrow> is_continuation b"
  by (auto simp: utf8_pair_def in_range_def is_continuation_def)

lemma utf8_pair_lead: "utf8_pair a b \<Longrightarrow> 192 \<le> byte a"
  by (auto simp: utf8_pair_def in_range_def)

lemma utf8_valid_head: "utf8_valid (a # s) \<Longrightarrow> \<not> is_continuation a"
  by (auto simp: is_continuation_def dest: utf8_pair_lead split: if_splits list.splits)

lemma is_char_boundary_0 [simp]: "is_char_boundary s 0"
  by (simp add: is_char_boundary_def)

lemma is_char_boundary_length [simp]: "is_char_boundary s (length s)"
  by (simp add: is_char_boundary_def)

lemma is_char_boundary_le: "is_char_boundary s i \<Longrightarrow> i \<le> length s"
  by (auto simp: is_char_boundary_def)

lemma is_char_boundary_drop:
  "is_char_boundary s (n + i) \<Longrightarrow> n \<le> length s \<Longrightarrow> is_char_boundary (drop n s) i"
  by (auto simp: is_char_boundary_def)

text \<open>
  A valid string is empty or starts with one whole character of one to four bytes; a boundary
  inside the string is not inside that character.
\<close>

lemma utf8_first_char:
  assumes "utf8_valid s" and "s \<noteq> []"
  obtains k where "1 \<le> k" "k \<le> 4" "k \<le> length s" "utf8_valid (drop k s)"
    "\<And>r. utf8_valid (take k s @ r) = utf8_valid r"
    "\<And>i. 0 < i \<Longrightarrow> i < k \<Longrightarrow> is_continuation (s ! i)"
proof -
  obtain a t where s: "s = a # t" using assms(2) by (cases s) auto
  note valid = assms(1)[unfolded s]
  consider (one) "byte a < 0x80"
    | (two) b t' where "\<not> byte a < 0x80" "byte a < 0xE0" "t = b # t'"
    | (three) b c t' where "\<not> byte a < 0xE0" "byte a < 0xF0" "t = b # c # t'"
    | (four) b c d t' where "\<not> byte a < 0xF0" "t = b # c # d # t'"
    using valid by (auto split: if_splits list.splits)
  then show thesis
  proof cases
    case one
    with valid show thesis by (intro that [of 1]) (simp_all add: s)
  next
    case two
    with valid show thesis
      by (intro that [of 2])
        (auto simp: s nth_Cons less_Suc_eq numeral_2_eq_2 dest: utf8_pair_continuation split: nat.splits)
  next
    case three
    then have "is_continuation b" "is_continuation c"
      using valid by (auto dest: utf8_pair_continuation)
    then have cont: "is_continuation (s ! i)" if "0 < i" "i < 3" for i
      using that three(3) by (cases "i = 1") (auto simp: s nth_Cons')
    from three valid show thesis by (intro that [of 3] cont) (simp_all add: s)
  next
    case four
    then have "is_continuation b" "is_continuation c" "is_continuation d"
      using valid by (auto dest: utf8_pair_continuation)
    then have cont: "is_continuation (s ! i)" if "0 < i" "i < 4" for i
      using that four(2) by (cases "i = 1"; cases "i = 2") (auto simp: s nth_Cons')
    from four valid show thesis by (intro that [of 4] cont) (simp_all add: s)
  qed
qed

lemma utf8_valid_split:
  "utf8_valid s \<Longrightarrow> is_char_boundary s i \<Longrightarrow> utf8_valid (take i s) \<and> utf8_valid (drop i s)"
proof (induction "length s" arbitrary: s i rule: less_induct)
  case less
  show ?case
  proof (cases "s = [] \<or> i = 0")
    case True
    then show ?thesis using less.prems(1) by auto
  next
    case False
    then obtain k where k: "1 \<le> k" "k \<le> length s" "utf8_valid (drop k s)"
      and pre: "\<And>r. utf8_valid (take k s @ r) = utf8_valid r"
      and cont: "\<And>j. 0 < j \<Longrightarrow> j < k \<Longrightarrow> is_continuation (s ! j)"
      using utf8_first_char [OF less.prems(1)] by (metis (no_types, lifting))
    have "k \<le> i"
      using False less.prems(2) cont [of i] k(2) by (auto simp: is_char_boundary_def intro: leI)
    then obtain j where i: "i = k + j" using le_Suc_ex by blast
    have "is_char_boundary (drop k s) j"
      using less.prems(2) k(2) by (auto simp: i intro: is_char_boundary_drop)
    with k have "utf8_valid (take j (drop k s)) \<and> utf8_valid (drop j (drop k s))"
      by (intro less.hyps) auto
    moreover have "take i s = take k s @ take j (drop k s)" by (simp add: i take_add)
    ultimately show ?thesis by (simp add: pre i add.commute)
  qed
qed

lemma utf8_valid_append: "utf8_valid s \<Longrightarrow> utf8_valid (s @ r) = utf8_valid r"
proof (induction "length s" arbitrary: s rule: less_induct)
  case less
  show ?case
  proof (cases "s = []")
    case False
    then obtain k where k: "1 \<le> k" "k \<le> length s" "utf8_valid (drop k s)"
      and pre: "\<And>r. utf8_valid (take k s @ r) = utf8_valid r"
      using utf8_first_char [OF less.prems] by (metis (no_types, lifting))
    have "s @ r = take k s @ (drop k s @ r)" by simp
    then have "utf8_valid (s @ r) = utf8_valid (drop k s @ r)" using pre by metis
    also have "\<dots> = utf8_valid r" using k by (intro less.hyps) auto
    finally show ?thesis .
  qed simp
qed

text \<open>
  The loop \<open>while !s.is_char_boundary(cut) { cut -= 1 }\<close>, which stops at 0 at the latest.
\<close>

fun floor_boundary :: "string \<Rightarrow> nat \<Rightarrow> nat" where
  "floor_boundary s 0 = 0"
| "floor_boundary s (Suc n) = (if is_char_boundary s (Suc n) then Suc n else floor_boundary s n)"

lemma floor_boundary_le: "floor_boundary s n \<le> n"
  by (induction n) auto

lemma floor_boundary_boundary: "is_char_boundary s (floor_boundary s n)"
  by (induction n) auto

lemma floor_boundary_skips:
  "floor_boundary s n < i \<Longrightarrow> i \<le> n \<Longrightarrow> \<not> is_char_boundary s i"
  by (induction n) (auto simp: le_Suc_eq split: if_splits)

text \<open>In a valid string the boundary below an index is less than one character away.\<close>

lemma floor_boundary_close:
  assumes "utf8_valid s" and "n < length s"
  shows "n < floor_boundary s n + 4"
proof -
  let ?cut = "floor_boundary s n"
  have le: "?cut \<le> n" by (rule floor_boundary_le)
  have tail: "utf8_valid (drop ?cut s)"
    using utf8_valid_split [OF assms(1) floor_boundary_boundary] by blast
  have "drop ?cut s \<noteq> []" using le assms(2) by simp
  then obtain k where k: "1 \<le> k" "k \<le> 4" "k \<le> length (drop ?cut s)" "utf8_valid (drop k (drop ?cut s))"
    using utf8_first_char [OF tail] by metis
  have "is_char_boundary s (?cut + k)"
  proof (cases "?cut + k < length s")
    case True
    then have "drop k (drop ?cut s) = s ! (?cut + k) # drop (Suc (?cut + k)) s"
      by (simp add: Cons_nth_drop_Suc add.commute)
    with k(4) have "\<not> is_continuation (s ! (?cut + k))" by (metis utf8_valid_head)
    with True show ?thesis by (simp add: is_char_boundary_def)
  next
    case False
    with k(3) le assms(2) show ?thesis by (simp add: is_char_boundary_def)
  qed
  then have "n < ?cut + k" using floor_boundary_skips [of s n "?cut + k"] k(1) by force
  with k(2) show ?thesis by simp
qed

lemma utf8_valid_ascii: "list_all (\<lambda>c. byte c < 0x80) s \<Longrightarrow> utf8_valid s"
  by (induction s) simp_all

section \<open>Trimming\<close>

text \<open>The characters with the Unicode property \<open>White_Space\<close>, in UTF-8.\<close>

definition white_space :: "string list" where
  "white_space =
     [[CHR 0x09], [CHR 0x0A], [CHR 0x0B], [CHR 0x0C], [CHR 0x0D], [CHR 0x20],
      [CHR 0xC2, CHR 0x85], [CHR 0xC2, CHR 0xA0], [CHR 0xE1, CHR 0x9A, CHR 0x80],
      [CHR 0xE2, CHR 0x80, CHR 0x80], [CHR 0xE2, CHR 0x80, CHR 0x81],
      [CHR 0xE2, CHR 0x80, CHR 0x82], [CHR 0xE2, CHR 0x80, CHR 0x83],
      [CHR 0xE2, CHR 0x80, CHR 0x84], [CHR 0xE2, CHR 0x80, CHR 0x85],
      [CHR 0xE2, CHR 0x80, CHR 0x86], [CHR 0xE2, CHR 0x80, CHR 0x87],
      [CHR 0xE2, CHR 0x80, CHR 0x88], [CHR 0xE2, CHR 0x80, CHR 0x89],
      [CHR 0xE2, CHR 0x80, CHR 0x8A], [CHR 0xE2, CHR 0x80, CHR 0xA8],
      [CHR 0xE2, CHR 0x80, CHR 0xA9], [CHR 0xE2, CHR 0x80, CHR 0xAF],
      [CHR 0xE2, CHR 0x81, CHR 0x9F], [CHR 0xE3, CHR 0x80, CHR 0x80]]"

lemma white_space_nonempty: "w \<in> set white_space \<Longrightarrow> 0 < length w"
  by (auto simp: white_space_def)

lemma find_white_space: "find P white_space = Some w \<Longrightarrow> P w \<and> 0 < length w"
  by (metis find_Some_iff nth_mem white_space_nonempty)

function trim_start :: "string \<Rightarrow> string" where
  "trim_start s =
     (case find (starts_with s) white_space of
        None \<Rightarrow> s
      | Some w \<Rightarrow> trim_start (drop (length w) s))"
  by pat_completeness auto
termination
  by (relation "measure length") (auto dest!: find_white_space simp: starts_with_iff)

function trim_end :: "string \<Rightarrow> string" where
  "trim_end s =
     (case find (ends_with s) white_space of
        None \<Rightarrow> s
      | Some w \<Rightarrow> trim_end (take (length s - length w) s))"
  by pat_completeness auto
termination
  by (relation "measure length") (auto dest!: find_white_space simp: ends_with_iff)

declare trim_start.simps [simp del] trim_end.simps [simp del]

definition trim :: "string \<Rightarrow> string" where
  "trim s = trim_end (trim_start s)"

text \<open>Printable ASCII text has no white space to trim.\<close>

definition graphic :: "char \<Rightarrow> bool" where
  "graphic c \<longleftrightarrow> 0x20 < byte c \<and> byte c < 0x80"

lemma white_space_not_graphic: "w \<in> set white_space \<Longrightarrow> \<not> list_all graphic w"
  by (auto simp: white_space_def graphic_def byte_def)

lemma white_space_no_hit:
  assumes "list_all graphic s" and "\<And>w. P w \<Longrightarrow> set w \<subseteq> set s"
  shows "find P white_space = None"
  using assms white_space_not_graphic unfolding find_None_iff list_all_iff by blast

lemma trim_graphic: "list_all graphic s \<Longrightarrow> trim s = s"
  unfolding trim_def
  by (subst trim_start.simps, subst white_space_no_hit [of s], simp, auto simp: starts_with_iff)
    (subst trim_end.simps, subst white_space_no_hit [of s], auto simp: ends_with_iff)

text \<open>\<open>split(c)\<close>: the pieces between the occurrences of a one-byte pattern, at least one.\<close>

fun split_on :: "char \<Rightarrow> string \<Rightarrow> string list" where
  "split_on d [] = [[]]"
| "split_on d (c # s) =
     (if c = d then [] # split_on d s
      else (case split_on d s of [] \<Rightarrow> [[c]] | piece # pieces \<Rightarrow> (c # piece) # pieces))"

lemma split_on_nonempty: "split_on d s \<noteq> []"
  by (cases s) (auto split: list.splits)

lemma set_split_on: "set s \<subseteq> insert d (\<Union> (set ` set (split_on d s)))"
proof (induction s)
  case (Cons c s)
  obtain piece pieces where "split_on d s = piece # pieces" using split_on_nonempty [of d s] by (cases "split_on d s") auto
  with Cons show ?case by auto
qed simp

lemma length_split_on: "length (split_on d s) = Suc (length (filter (\<lambda>c. c = d) s))"
  by (induction s) (auto split: list.splits)

text \<open>\<open>split_once\<close> with a longer pattern.\<close>

fun split_once_str :: "string \<Rightarrow> string \<Rightarrow> (string \<times> string) option" where
  "split_once_str [] p = (if p = [] then Some ([], []) else None)"
| "split_once_str (c # s) p =
     (if starts_with (c # s) p then Some ([], drop (length p) (c # s))
      else map_option (\<lambda>(a, b). (c # a, b)) (split_once_str s p))"

end
