(* ===== verification/Json_Api.thy ===== *)
theory Json_Api
  imports Rust_String
begin

text \<open>
  \<open>serde_json\<close> is not part of the repository: the sources read a \<open>serde_json::Value\<close> only
  through the accessors below, so the definitions that read JSON take them as an argument.
  No property assumes anything about them beyond what its statement says.  \<open>value_api\<close> is one
  concrete instance, for evaluating definitions at concrete inputs.
\<close>

record 'v json_api =
  json_parse :: "string \<Rightarrow> 'v option" \<comment> \<open>\<open>from_str::<Value>(..).ok()\<close>\<close>
  json_get :: "'v \<Rightarrow> string \<Rightarrow> 'v option" \<comment> \<open>\<open>Value::get\<close> with a key\<close>
  json_pointer :: "'v \<Rightarrow> string \<Rightarrow> 'v option" \<comment> \<open>\<open>Value::pointer\<close>\<close>
  json_as_str :: "'v \<Rightarrow> string option"
  json_as_u64 :: "'v \<Rightarrow> u64 option"
  json_as_array :: "'v \<Rightarrow> 'v list option"

text \<open>\<open>a.or_else(|| b)\<close>, and \<open>a.and_then(f)\<close> is \<open>Option.bind\<close>.\<close>

definition or_else :: "'a option \<Rightarrow> 'a option \<Rightarrow> 'a option" where
  "or_else a b = (case a of Some x \<Rightarrow> Some x | None \<Rightarrow> b)"

definition unwrap_or :: "'a \<Rightarrow> 'a option \<Rightarrow> 'a" where
  "unwrap_or d a = (case a of Some x \<Rightarrow> x | None \<Rightarrow> d)"

lemma or_else_simps [simp]: "or_else None b = b" "or_else (Some x) b = Some x"
  by (simp_all add: or_else_def)

lemma unwrap_or_simps [simp]: "unwrap_or d None = d" "unwrap_or d (Some x) = x"
  by (simp_all add: unwrap_or_def)

section \<open>A concrete instance\<close>

datatype json =
    JNull
  | JBool bool
  | JNat u64
  | JStr string
  | JArr "json list"
  | JObj "(string \<times> json) list"

fun value_get :: "json \<Rightarrow> string \<Rightarrow> json option" where
  "value_get (JObj kvs) k = map_of kvs k"
| "value_get _ k = None"

fun value_str :: "json \<Rightarrow> string option" where
  "value_str (JStr s) = Some s"
| "value_str _ = None"

fun value_u64 :: "json \<Rightarrow> u64 option" where
  "value_u64 (JNat n) = Some n"
| "value_u64 _ = None"

fun value_array :: "json \<Rightarrow> json list option" where
  "value_array (JArr vs) = Some vs"
| "value_array _ = None"

text \<open>The segments of a pointer such as \<open>/error/message\<close>, followed through objects.\<close>

fun pointer_segments :: "string \<Rightarrow> string \<Rightarrow> string list" where
  "pointer_segments acc [] = [rev acc]"
| "pointer_segments acc (c # s) =
     (if c = CHR ''/'' then rev acc # pointer_segments [] s else pointer_segments (c # acc) s)"

fun value_walk :: "json \<Rightarrow> string list \<Rightarrow> json option" where
  "value_walk v [] = Some v"
| "value_walk v (k # ks) = (case value_get v k of None \<Rightarrow> None | Some w \<Rightarrow> value_walk w ks)"

definition value_api :: "(string \<Rightarrow> json option) \<Rightarrow> json json_api" where
  "value_api parse =
     \<lparr>json_parse = parse, json_get = value_get,
      json_pointer = (\<lambda>v p. value_walk v (tl (pointer_segments [] p))),
      json_as_str = value_str, json_as_u64 = value_u64, json_as_array = value_array\<rparr>"

end
