(* ===== verification/Provider_Error.thy ===== *)
theory Provider_Error
  imports Json_Api
begin

text \<open>
  Upstream failures and what the gateway does about them:
  \<open>crates/gateway-core/src/error.rs\<close> (\<open>ProviderError\<close>, the bounded diagnostic, the
  classification of an upstream status and body) and
  \<open>crates/gateway-core/src/failover.rs\<close> (the retry decision).
\<close>

section \<open>Errors\<close>

definition MAX_DIAGNOSTIC_BYTES :: nat where
  "MAX_DIAGNOSTIC_BYTES = 4 * 1024"

text \<open>The marker starts with the three UTF-8 bytes of the ellipsis.\<close>

definition DIAGNOSTIC_TRUNCATION_MARKER :: string where
  "DIAGNOSTIC_TRUNCATION_MARKER = [CHR 0xE2, CHR 0x80, CHR 0xA6] @ '' [truncated]''"

record dependency_failure =
  df_provider :: string
  df_status :: "u16 option"
  df_message :: string

datatype provider_error =
    InvalidRequest string
  | ContextWindowExceeded string
  | Unsupported string
  | ModelUnavailable "dependency_failure list"
  | Dependency "dependency_failure list"
  | InvalidStream string
  | RateLimitedStream string
  | AllCircuitsOpen "string list"

fun provider_error_code :: "provider_error \<Rightarrow> string" where
  "provider_error_code (InvalidRequest _) = ''invalid_request''"
| "provider_error_code (ContextWindowExceeded _) = ''context_window_exceeded''"
| "provider_error_code (Unsupported _) = ''unsupported''"
| "provider_error_code (ModelUnavailable _) = ''model_unavailable''"
| "provider_error_code (Dependency _) = ''provider_dependency_failed''"
| "provider_error_code (InvalidStream _) = ''invalid_stream''"
| "provider_error_code (RateLimitedStream _) = ''provider_rate_limited''"
| "provider_error_code (AllCircuitsOpen _) = ''all_provider_circuits_open''"

definition bounded :: "string \<Rightarrow> string" where
  "bounded message =
     (if length message \<le> MAX_DIAGNOSTIC_BYTES then message
      else take (floor_boundary message MAX_DIAGNOSTIC_BYTES) message @ DIAGNOSTIC_TRUNCATION_MARKER)"

definition extract_message :: "'v json_api \<Rightarrow> string \<Rightarrow> string" where
  "extract_message J body =
     unwrap_or body
       (Option.bind (json_parse J body)
         (\<lambda>value. Option.bind
            (or_else (json_pointer J value ''/error/message'') (json_get J value ''message''))
            (json_as_str J)))"

definition context_length_signals :: "string list" where
  "context_length_signals =
     [''context_length_exceeded'', ''context length'', ''context window'', ''prompt is too long'',
      ''prompt too long'', ''maximum number of tokens'', ''too many tokens'',
      ''maximum prompt length'']"

definition is_context_length_error :: "string \<Rightarrow> bool" where
  "is_context_length_error text =
     list_ex (str_contains (to_ascii_lowercase text)) context_length_signals"

definition from_upstream :: "'v json_api \<Rightarrow> string \<Rightarrow> u16 \<Rightarrow> string \<Rightarrow> provider_error" where
  "from_upstream J provider status body =
     (let message = bounded (extract_message J body) in
      if is_context_length_error body \<or> is_context_length_error message
      then ContextWindowExceeded message
      else let failure = \<lparr>df_provider = provider, df_status = Some status, df_message = message\<rparr> in
           if status = 404 then ModelUnavailable [failure]
           else if 400 \<le> status \<and> status < 500 \<and> status \<noteq> 429 then InvalidRequest (df_message failure)
           else Dependency [failure])"

definition invalid_stream :: "string \<Rightarrow> provider_error" where
  "invalid_stream message = InvalidStream (bounded message)"

definition rate_limited_stream :: "string \<Rightarrow> provider_error" where
  "rate_limited_stream message = RateLimitedStream (bounded message)"

definition transport :: "string \<Rightarrow> string \<Rightarrow> provider_error" where
  "transport provider message =
     Dependency [\<lparr>df_provider = provider, df_status = None, df_message = bounded message\<rparr>]"

fun is_retryable :: "provider_error \<Rightarrow> bool" where
  "is_retryable (Dependency failures) =
     (failures \<noteq> [] \<and>
      list_all (\<lambda>f. case df_status f of None \<Rightarrow> True | Some s \<Rightarrow> s = 429 \<or> 500 \<le> s) failures)"
| "is_retryable (ModelUnavailable _) = True"
| "is_retryable _ = False"

fun affects_provider_health :: "provider_error \<Rightarrow> bool" where
  "affects_provider_health (Dependency failures) = is_retryable (Dependency failures)"
| "affects_provider_health _ = False"

fun is_stream_rate_limited :: "provider_error \<Rightarrow> bool" where
  "is_stream_rate_limited (RateLimitedStream _) = True"
| "is_stream_rate_limited _ = False"

fun is_credential_rate_limited :: "provider_error \<Rightarrow> bool" where
  "is_credential_rate_limited (RateLimitedStream _) = True"
| "is_credential_rate_limited (Dependency failures) = list_ex (\<lambda>f. df_status f = Some 429) failures"
| "is_credential_rate_limited _ = False"

text \<open>
  \<open>is_rate_limit_payload\<close>: only an error-shaped payload counts, by its status, or by one of
  four type or code markers.
\<close>

definition status_is_429 :: "'v json_api \<Rightarrow> 'v \<Rightarrow> bool" where
  "status_is_429 J status \<longleftrightarrow>
     json_as_u64 J status = Some 429 \<or>
     (case json_as_str J status of None \<Rightarrow> False | Some s \<Rightarrow> s = ''429'')"

definition is_rate_limit_payload :: "'v json_api \<Rightarrow> 'v \<Rightarrow> bool" where
  "is_rate_limit_payload J value =
     (let error = json_get J value ''error'';
          error_shaped = error \<noteq> None \<or>
            Option.bind (json_get J value ''type'') (json_as_str J) = Some ''error''
      in if \<not> error_shaped then False
         else if list_ex (status_is_429 J)
                   (List.map_filter id [json_get J value ''status'', json_pointer J value ''/error/status''])
         then True
         else list_ex (\<lambda>signal. str_contains signal ''rate_limit'' \<or> signal = ''429'')
                (List.map_filter id
                  [Option.bind (json_pointer J value ''/error/type'') (json_as_str J),
                   Option.bind (json_pointer J value ''/error/code'')
                     (\<lambda>code. or_else (json_as_str J code)
                        (if json_as_u64 J code = Some 429 then Some ''429'' else None)),
                   Option.bind (json_pointer J value ''/type'') (json_as_str J),
                   Option.bind (json_pointer J value ''/code'') (json_as_str J)]))"

section \<open>Failover\<close>

record failover_target =
  ft_provider :: string
  ft_model :: string

definition qualified_model :: "failover_target \<Rightarrow> string" where
  "qualified_model t = ft_provider t @ ''/'' @ ft_model t"

datatype failover_decision = TryNext | Return

definition decide :: "provider_error \<Rightarrow> bool \<Rightarrow> failover_decision" where
  "decide error has_next = (if has_next \<and> is_retryable error then TryNext else Return)"

definition ordered_targets :: "failover_target list \<Rightarrow> (provider_error, failover_target list) result" where
  "ordered_targets targets =
     (if targets = [] then Inl (InvalidRequest ''at least one provider target is required'')
      else Inr targets)"

section \<open>Properties\<close>

text \<open>The body, or the message taken from it, says the context window was exceeded.\<close>

definition context_failure :: "'v json_api \<Rightarrow> string \<Rightarrow> bool" where
  "context_failure J body \<longleftrightarrow>
     is_context_length_error body \<or> is_context_length_error (bounded (extract_message J body))"

text \<open>
  C24. A diagnostic is never longer than 4096 bytes plus the marker, is unchanged when it fits,
  and a cut one is still well-formed UTF-8, loses less than one character before the limit,
  and ends in the marker.
\<close>

theorem bounded_diagnostic:
  assumes "utf8_valid s"
  shows "length (bounded s) \<le> MAX_DIAGNOSTIC_BYTES + length DIAGNOSTIC_TRUNCATION_MARKER
    \<and> utf8_valid (bounded s)
    \<and> (if length s \<le> MAX_DIAGNOSTIC_BYTES then bounded s = s
       else \<exists>cut. MAX_DIAGNOSTIC_BYTES - 3 \<le> cut \<and> cut \<le> MAX_DIAGNOSTIC_BYTES
              \<and> bounded s = take cut s @ DIAGNOSTIC_TRUNCATION_MARKER)"
proof (cases "length s \<le> MAX_DIAGNOSTIC_BYTES")
  case True
  with assms show ?thesis by (simp add: bounded_def)
next
  case False
  let ?cut = "floor_boundary s MAX_DIAGNOSTIC_BYTES"
  have le: "?cut \<le> MAX_DIAGNOSTIC_BYTES" by (rule floor_boundary_le)
  have "utf8_valid DIAGNOSTIC_TRUNCATION_MARKER"
    by (simp add: DIAGNOSTIC_TRUNCATION_MARKER_def byte_def utf8_pair_def in_range_def is_continuation_def)
  moreover have "utf8_valid (take ?cut s)"
    using utf8_valid_split [OF assms floor_boundary_boundary] by blast
  ultimately have valid: "utf8_valid (bounded s)"
    using False by (simp add: bounded_def utf8_valid_append)
  have "MAX_DIAGNOSTIC_BYTES - 3 \<le> ?cut"
    using floor_boundary_close [OF assms, of MAX_DIAGNOSTIC_BYTES] False by simp
  with le valid False show ?thesis by (auto simp: bounded_def)
qed

theorem bounded_diagnostic_witness:
  "let s = replicate 5000 CHR ''a'' in
   utf8_valid s \<and> utf8_valid (bounded s) \<and> length (bounded s) \<le> 4096 + 15"
proof -
  have valid: "utf8_valid (replicate 5000 CHR ''a'')"
    by (rule utf8_valid_ascii) (simp add: list_all_iff byte_def)
  from bounded_diagnostic [OF valid] valid show ?thesis
    by (simp add: Let_def MAX_DIAGNOSTIC_BYTES_def DIAGNOSTIC_TRUNCATION_MARKER_def)
qed

text \<open>
  C25. What an upstream failure becomes and what it is worth, for every status and body.  A body or
  message that says the context window was exceeded becomes that error; otherwise a 404 becomes an
  unavailable model, any other 4xx but 429 an invalid request, and every remaining status a failed
  dependency; each carries the bounded message, and the two that name a failure its provider and
  status.  A context-window failure is never retried and never held against the provider; of the
  others 404, 429 and 5xx are retried at the next target, 429 and
  5xx count against the provider's circuit, and exactly 429 counts against the credential.
\<close>

theorem upstream_status_classification:
  "(let message = bounded (extract_message J body);
        failure = \<lparr>df_provider = provider, df_status = Some status, df_message = message\<rparr>;
        result = from_upstream J provider status body
    in (result = ContextWindowExceeded message \<longleftrightarrow> context_failure J body)
       \<and> (result = ModelUnavailable [failure] \<longleftrightarrow> \<not> context_failure J body \<and> status = 404)
       \<and> (result = InvalidRequest message \<longleftrightarrow>
            \<not> context_failure J body \<and> 400 \<le> status \<and> status < 500 \<and> status \<noteq> 404 \<and> status \<noteq> 429)
       \<and> (result = Dependency [failure] \<longleftrightarrow>
            \<not> context_failure J body \<and> (status < 400 \<or> status = 429 \<or> 500 \<le> status)))
   \<and> (is_retryable (from_upstream J provider status body) \<longleftrightarrow>
      \<not> context_failure J body \<and> (status = 404 \<or> status = 429 \<or> 500 \<le> status))
   \<and> (affects_provider_health (from_upstream J provider status body) \<longleftrightarrow>
      \<not> context_failure J body \<and> (status = 429 \<or> 500 \<le> status))
   \<and> (is_credential_rate_limited (from_upstream J provider status body) \<longleftrightarrow>
      \<not> context_failure J body \<and> status = 429)
   \<and> \<not> is_stream_rate_limited (from_upstream J provider status body)"
proof -
  have "\<not> (500 :: u16) \<le> 404" "\<not> (500 :: u16) \<le> 429" "\<not> (404 :: u16) < 400" "(404 :: u16) < 500"
    "(429 :: u16) < 500" "(400 :: u16) \<le> 429" by simp_all
  moreover have "\<not> status < 400" if "500 \<le> status"
    using order_trans [of "400 :: u16" 500 status] that by (simp add: not_less)
  ultimately show ?thesis
    by (auto simp: context_failure_def from_upstream_def Let_def not_less)
qed

text \<open>
  A walk over targets moves on from an upstream failure exactly when another target
  remains, the failure is not a context-window one, and the status is 404, 429 or 5xx: every
  other client error ends the walk at the target that answered it.
\<close>

theorem failover_continues_iff:
  "decide (from_upstream J provider status body) has_next = TryNext \<longleftrightarrow>
     has_next \<and> \<not> context_failure J body \<and> (status = 404 \<or> status = 429 \<or> 500 \<le> status)"
  by (auto simp: decide_def context_failure_def from_upstream_def Let_def not_less)

end
