(* ===== verification/Price.thy ===== *)
theory Price
  imports Rust_String
begin

text \<open>
  What a request costs: \<open>crates/gateway-core/src/catalog.rs\<close> (rates, usage, the micro-dollar
  charge, the priced catalogue), \<open>crates/gateway/src/pricing.rs\<close> (the rates copied at
  admission) and \<open>crates/gateway/src/backends/catalog_price.rs\<close> (compiling an imported
  nano-dollar observation into billable rates).  Token counts and rates are 64-bit words and
  the sum is taken in 128 bits, as in the code.
\<close>

section \<open>Rates, usage and the charge\<close>

record usage =
  input_tokens :: u64
  output_tokens :: u64
  reasoning_tokens :: u64
  cache_read_tokens :: u64
  cache_write_tokens :: u64

record model_price =
  input_microdollars_per_million :: u64
  output_microdollars_per_million :: u64
  reasoning_microdollars_per_million :: "u64 option"
  cache_read_microdollars_per_million :: "u64 option"
  cache_write_microdollars_per_million :: "u64 option"

definition component :: "u64 \<Rightarrow> u64 \<Rightarrow> u128" where
  "component tokens rate = saturating_mul (ucast tokens) (ucast rate) div 1000000"

definition rate_or :: "u64 option \<Rightarrow> u64 \<Rightarrow> u64" where
  "rate_or r d = (case r of None \<Rightarrow> d | Some x \<Rightarrow> x)"

definition cost_microdollars :: "model_price \<Rightarrow> usage \<Rightarrow> u64" where
  "cost_microdollars p u =
     (let billed_output_tokens = saturating_sub (output_tokens u) (reasoning_tokens u);
          cost =
            saturating_add
              (saturating_add
                (saturating_add
                  (saturating_add
                    (component (input_tokens u) (input_microdollars_per_million p))
                    (component billed_output_tokens (output_microdollars_per_million p)))
                  (component (reasoning_tokens u)
                    (rate_or (reasoning_microdollars_per_million p) (output_microdollars_per_million p))))
                (component (cache_read_tokens u)
                  (rate_or (cache_read_microdollars_per_million p) (input_microdollars_per_million p))))
              (component (cache_write_tokens u)
                (rate_or (cache_write_microdollars_per_million p) (input_microdollars_per_million p)))
      in if unat cost < 2 ^ 64 then ucast cost else word_max)"

record catalog_model =
  cm_id :: string
  cm_price :: model_price

record model_catalog =
  version :: u64
  models :: "catalog_model list"

record usage_receipt =
  receipt_catalog_version :: u64
  receipt_model :: string
  receipt_price :: model_price
  receipt_usage :: usage
  receipt_cost_microdollars :: u64

definition normalized_cost_microdollars :: "usage_receipt \<Rightarrow> u64" where
  "normalized_cost_microdollars r = receipt_cost_microdollars r"

datatype catalog_error = DuplicateModel string | UnknownModel string | CostOverflow

fun validate_from :: "string list \<Rightarrow> catalog_model list \<Rightarrow> (catalog_error, unit) result" where
  "validate_from seen [] = Inr ()"
| "validate_from seen (m # ms) =
     (if List.member seen (cm_id m) then Inl (DuplicateModel (cm_id m))
      else validate_from (cm_id m # seen) ms)"

definition catalog_validate :: "model_catalog \<Rightarrow> (catalog_error, unit) result" where
  "catalog_validate c = validate_from [] (models c)"

definition receipt :: "model_catalog \<Rightarrow> string \<Rightarrow> usage \<Rightarrow> (catalog_error, usage_receipt) result" where
  "receipt c model u =
     (case map_option cm_price (find (\<lambda>entry. cm_id entry = model) (models c)) of
        None \<Rightarrow> Inl (UnknownModel model)
      | Some price \<Rightarrow>
          Inr \<lparr>receipt_catalog_version = version c, receipt_model = model, receipt_price = price,
               receipt_usage = u, receipt_cost_microdollars = cost_microdollars price u\<rparr>)"

text \<open>\<open>RequestPrice\<close>: the rates copied when a request is admitted; none means unpriced.\<close>

record request_price =
  rates :: "model_price option"

definition configured :: "model_price \<Rightarrow> request_price" where
  "configured r = \<lparr>rates = Some r\<rparr>"

definition unpriced :: request_price where
  "unpriced = \<lparr>rates = None\<rparr>"

definition request_cost_microdollars :: "request_price \<Rightarrow> usage \<Rightarrow> u64 option" where
  "request_cost_microdollars p u = map_option (\<lambda>r. cost_microdollars r u) (rates p)"

section \<open>Compiling an imported observation\<close>

text \<open>An observed rate is nano-dollars per million tokens.\<close>

type_synonym observed_rate = u64

record price_rates =
  rate_input :: observed_rate
  rate_output :: observed_rate
  rate_cache_read :: "observed_rate option"
  rate_cache_write :: "observed_rate option"
  rate_reasoning :: "observed_rate option"
  rate_input_audio :: "observed_rate option"
  rate_output_audio :: "observed_rate option"

datatype price_tier_threshold = ContextOver u64

record price_tier =
  tier_threshold :: price_tier_threshold
  tier_rates :: price_rates

record observed_price =
  base :: price_rates
  tiers :: "price_tier list"

definition NANOS_PER_MICRO :: u64 where
  "NANOS_PER_MICRO = 1000"

definition exact_micros :: "u64 \<Rightarrow> u64 option" where
  "exact_micros nanos =
     (if nanos mod NANOS_PER_MICRO = 0 then Some (nanos div NANOS_PER_MICRO) else None)"

definition optional_micros :: "observed_rate option \<Rightarrow> u64 option option" where
  "optional_micros rate =
     (case rate of None \<Rightarrow> Some None | Some r \<Rightarrow> map_option Some (exact_micros r))"

definition model_price_from_cost :: "observed_price \<Rightarrow> model_price option" where
  "model_price_from_cost price =
     (if tiers price \<noteq> [] then None
      else if rate_input_audio (base price) \<noteq> None \<or> rate_output_audio (base price) \<noteq> None then None
      else Option.bind (exact_micros (rate_input (base price))) (\<lambda>i.
           Option.bind (exact_micros (rate_output (base price))) (\<lambda>o'.
           Option.bind (optional_micros (rate_reasoning (base price))) (\<lambda>r.
           Option.bind (optional_micros (rate_cache_read (base price))) (\<lambda>cr.
           Option.bind (optional_micros (rate_cache_write (base price))) (\<lambda>cw.
             Some \<lparr>input_microdollars_per_million = i, output_microdollars_per_million = o',
                   reasoning_microdollars_per_million = r,
                   cache_read_microdollars_per_million = cr,
                   cache_write_microdollars_per_million = cw\<rparr>))))))"

text \<open>
  The offerings of a snapshot's models, in order; of an offering only the fields the price
  index reads are kept.
\<close>

record offering =
  offering_provider :: string
  published_model_id :: string
  offering_price :: "observed_price option"

type_synonym price_index = "string \<rightharpoonup> (string \<rightharpoonup> model_price)"

definition index_offering :: "offering \<Rightarrow> price_index \<Rightarrow> price_index" where
  "index_offering off idx =
     (case offering_price off of
        None \<Rightarrow> idx
      | Some observed \<Rightarrow>
          (case model_price_from_cost observed of
             None \<Rightarrow> idx
           | Some price \<Rightarrow>
               idx(offering_provider off \<mapsto>
                 ((case idx (offering_provider off) of None \<Rightarrow> Map.empty | Some m \<Rightarrow> m)
                   (published_model_id off \<mapsto> price)))))"

definition from_snapshot :: "offering list list \<Rightarrow> price_index" where
  "from_snapshot model_offerings = fold (fold index_offering) model_offerings Map.empty"

definition price_for :: "price_index \<Rightarrow> string \<Rightarrow> string \<Rightarrow> model_price option" where
  "price_for idx provider model = Option.bind (idx provider) (\<lambda>m. m model)"

section \<open>Properties\<close>

lemma unat_product_less: "unat (t :: u64) * unat (r :: u64) < 2 ^ 128"
proof -
  have "unat t * unat r \<le> (2 ^ 64 - 1) * (2 ^ 64 - 1)"
    using unat_u64_less [of t] unat_u64_less [of r] by (intro mult_le_mono) simp_all
  then show ?thesis by simp
qed

lemma unat_component: "unat (component t r) = unat t * unat r div 1000000"
  using unat_product_less [of t r] by (simp add: component_def unat_div)

lemma unat_component_less: "unat (component t r) < 2 ^ 109"
  using unat_product_less [of t r] by (simp add: unat_component less_mult_imp_div_less)

lemma saturating_add_small:
  "unat (a :: u128) + unat b < 2 ^ 128 \<Longrightarrow> unat (saturating_add a b) = unat a + unat b"
  by simp

text \<open>The price of a usage record over the natural numbers, each component rounded down.\<close>

definition exact_cost :: "model_price \<Rightarrow> usage \<Rightarrow> nat" where
  "exact_cost p u =
     unat (input_tokens u) * unat (input_microdollars_per_million p) div 1000000
     + (unat (output_tokens u) - unat (reasoning_tokens u))
         * unat (output_microdollars_per_million p) div 1000000
     + unat (reasoning_tokens u)
         * unat (rate_or (reasoning_microdollars_per_million p) (output_microdollars_per_million p))
         div 1000000
     + unat (cache_read_tokens u)
         * unat (rate_or (cache_read_microdollars_per_million p) (input_microdollars_per_million p))
         div 1000000
     + unat (cache_write_tokens u)
         * unat (rate_or (cache_write_microdollars_per_million p) (input_microdollars_per_million p))
         div 1000000"

text \<open>
  C15. The charge is the exact sum of the five components, each rounded down to a whole
  micro-dollar, capped at \<open>u64::MAX\<close>: the 128-bit products and sums never saturate, so the
  only cap ever reached is the final one.
\<close>

theorem cost_is_exact_up_to_u64:
  "unat (cost_microdollars p u) = min (exact_cost p u) (2 ^ 64 - 1)"
proof -
  let ?c = "\<lambda>t r. component t r"
  define c1 c2 c3 c4 c5 where
    "c1 = ?c (input_tokens u) (input_microdollars_per_million p)" and
    "c2 = ?c (saturating_sub (output_tokens u) (reasoning_tokens u)) (output_microdollars_per_million p)" and
    "c3 = ?c (reasoning_tokens u)
       (rate_or (reasoning_microdollars_per_million p) (output_microdollars_per_million p))" and
    "c4 = ?c (cache_read_tokens u)
       (rate_or (cache_read_microdollars_per_million p) (input_microdollars_per_million p))" and
    "c5 = ?c (cache_write_tokens u)
       (rate_or (cache_write_microdollars_per_million p) (input_microdollars_per_million p))"
  note cs = c1_def c2_def c3_def c4_def c5_def
  have small: "unat c1 < 2 ^ 109" "unat c2 < 2 ^ 109" "unat c3 < 2 ^ 109" "unat c4 < 2 ^ 109"
    "unat c5 < 2 ^ 109"
    by (simp_all only: cs unat_component_less)
  define total where
    "total = saturating_add (saturating_add (saturating_add (saturating_add c1 c2) c3) c4) c5"
  have "unat total = unat c1 + unat c2 + unat c3 + unat c4 + unat c5"
    using small by (simp add: total_def min_absorb1)
  also have "\<dots> = exact_cost p u"
    by (simp add: cs unat_component exact_cost_def)
  finally have exact: "unat total = exact_cost p u" .
  have cost: "cost_microdollars p u = (if unat total < 2 ^ 64 then ucast total else word_max)"
    unfolding cost_microdollars_def Let_def total_def cs by (rule refl)
  show ?thesis
  proof (cases "exact_cost p u < 2 ^ 64")
    case True
    then have "unat (cost_microdollars p u) = unat (ucast total :: u64)" by (simp add: cost exact)
    with True show ?thesis by (simp add: unat_ucast_u64 exact min_def)
  next
    case False
    then show ?thesis by (simp add: cost exact min_def)
  qed
qed

lemma validate_from_ok:
  "validate_from seen ms = Inr () \<longleftrightarrow> distinct (map cm_id ms) \<and> set (map cm_id ms) \<inter> set seen = {}"
  by (induction ms arbitrary: seen) auto

lemma validate_from_error:
  "validate_from seen ms = Inl e \<Longrightarrow>
     \<exists>pre m post. ms = pre @ m # post \<and> e = DuplicateModel (cm_id m)
       \<and> cm_id m \<in> set seen \<union> cm_id ` set pre"
proof (induction ms arbitrary: seen)
  case (Cons m ms)
  show ?case
  proof (cases "cm_id m \<in> set seen")
    case True
    with Cons.prems show ?thesis by (intro exI [of _ "[]"]) auto
  next
    case False
    with Cons.prems obtain pre m' post where "ms = pre @ m' # post" "e = DuplicateModel (cm_id m')"
      "cm_id m' \<in> set (cm_id m # seen) \<union> cm_id ` set pre"
      using Cons.IH [of "cm_id m # seen"] by auto
    then show ?thesis by (intro exI [of _ "m # pre"]) auto
  qed
qed simp

text \<open>
  A catalogue passes validation exactly when its model ids are distinct, and in a validated
  catalogue a receipt for each entry is issued at that entry's own price, with the catalogue's
  version; a model the catalogue does not name gets no receipt.
\<close>

theorem receipts_of_validated_catalog:
  "(catalog_validate c = Inr () \<longleftrightarrow> distinct (map cm_id (models c)))
   \<and> (catalog_validate c = Inr () \<longrightarrow> m \<in> set (models c) \<longrightarrow>
        receipt c (cm_id m) u =
          Inr \<lparr>receipt_catalog_version = version c, receipt_model = cm_id m,
               receipt_price = cm_price m, receipt_usage = u,
               receipt_cost_microdollars = cost_microdollars (cm_price m) u\<rparr>)
   \<and> (name \<notin> cm_id ` set (models c) \<longrightarrow> receipt c name u = Inl (UnknownModel name))"
proof (intro conjI impI)
  show valid: "catalog_validate c = Inr () \<longleftrightarrow> distinct (map cm_id (models c))"
    by (simp add: catalog_validate_def validate_from_ok)
  show "receipt c name u = Inl (UnknownModel name)" if "name \<notin> cm_id ` set (models c)"
  proof -
    from that have "find (\<lambda>entry. cm_id entry = name) (models c) = None"
      by (auto simp: find_None_iff)
    then show ?thesis by (simp add: receipt_def)
  qed
  assume "catalog_validate c = Inr ()" and m: "m \<in> set (models c)"
  then have "inj_on cm_id (set (models c))" using valid by (simp add: distinct_map)
  then have "find (\<lambda>entry. cm_id entry = cm_id m) (models c) = Some m"
    using m by (rule find_by_key)
  then show "receipt c (cm_id m) u =
          Inr \<lparr>receipt_catalog_version = version c, receipt_model = cm_id m,
               receipt_price = cm_price m, receipt_usage = u,
               receipt_cost_microdollars = cost_microdollars (cm_price m) u\<rparr>"
    by (simp add: receipt_def)
qed

theorem receipts_of_validated_catalog_witness:
  "let price = \<lparr>input_microdollars_per_million = 1000000, output_microdollars_per_million = 2000000,
                 reasoning_microdollars_per_million = None,
                 cache_read_microdollars_per_million = Some 100000,
                 cache_write_microdollars_per_million = Some 1250000\<rparr>;
       m = \<lparr>cm_id = ''openai/model'', cm_price = price\<rparr>;
       c = \<lparr>version = 7, models = [m]\<rparr>;
       u = \<lparr>input_tokens = 1000, output_tokens = 500, reasoning_tokens = 0,
            cache_read_tokens = 1000, cache_write_tokens = 200\<rparr>
   in catalog_validate c = Inr () \<and>
      receipt c ''openai/model'' u =
        Inr \<lparr>receipt_catalog_version = 7, receipt_model = ''openai/model'', receipt_price = price,
             receipt_usage = u, receipt_cost_microdollars = 2350\<rparr>
      \<and> receipt c ''other'' u = Inl (UnknownModel ''other'')"
proof -
  define price where "price = \<lparr>input_microdollars_per_million = 1000000, output_microdollars_per_million = 2000000,
                 reasoning_microdollars_per_million = None,
                 cache_read_microdollars_per_million = Some 100000,
                 cache_write_microdollars_per_million = Some 1250000\<rparr>"
  define u where "u = \<lparr>input_tokens = 1000, output_tokens = 500, reasoning_tokens = 0,
            cache_read_tokens = 1000, cache_write_tokens = 200\<rparr>"
  have cost: "cost_microdollars price u = 2350"
    by (simp add: price_def u_def cost_microdollars_def component_def rate_or_def
        saturating_add_def saturating_sub_def saturating_mul_def)
  show ?thesis
    using receipts_of_validated_catalog
      [of "\<lparr>version = 7, models = [\<lparr>cm_id = ''openai/model'', cm_price = price\<rparr>]\<rparr>"
          "\<lparr>cm_id = ''openai/model'', cm_price = price\<rparr>" u "''other''"] cost
    unfolding price_def u_def by (simp add: Let_def)
qed

lemma exact_micros_Some: "exact_micros n = Some m \<longleftrightarrow> unat n = 1000 * unat m"
proof
  assume "exact_micros n = Some m"
  then have "n mod 1000 = 0" and m: "m = n div 1000"
    by (auto simp: exact_micros_def NANOS_PER_MICRO_def split: if_splits)
  then have "unat (n mod 1000) = 0" by simp
  then have "unat n mod 1000 = 0" by (simp add: unat_mod)
  with m show "unat n = 1000 * unat m" by (auto simp: unat_div)
next
  assume n: "unat n = 1000 * unat m"
  then have "unat (n mod 1000) = unat (0 :: u64)" "unat (n div 1000) = unat m"
    by (simp_all add: unat_mod unat_div)
  then have "n mod 1000 = 0" "n div 1000 = m" by (simp_all only: word_unat_eq_iff)
  then show "exact_micros n = Some m"
    by (simp add: exact_micros_def NANOS_PER_MICRO_def)
qed

text \<open>The micro-dollar rate that is exactly an observed nano-dollar rate, for an optional rate.\<close>

definition same_rate :: "u64 option \<Rightarrow> observed_rate option \<Rightarrow> bool" where
  "same_rate micro nano = rel_option (\<lambda>m n. unat n = 1000 * unat m) micro nano"

lemma optional_micros_Some: "optional_micros r = Some m \<longleftrightarrow> same_rate m r"
  by (cases r; cases m) (auto simp: optional_micros_def same_rate_def exact_micros_Some)

text \<open>
  C26. An imported observation becomes a billable price exactly when it has no context tiers and
  no audio rates and every stated rate is a whole number of micro-dollars; the price then states
  the same rates, none rounded, none invented and none dropped.
\<close>

theorem compiled_rates_are_exact:
  "model_price_from_cost obs = Some p \<longleftrightarrow>
     tiers obs = [] \<and> rate_input_audio (base obs) = None \<and> rate_output_audio (base obs) = None
     \<and> unat (rate_input (base obs)) = 1000 * unat (input_microdollars_per_million p)
     \<and> unat (rate_output (base obs)) = 1000 * unat (output_microdollars_per_million p)
     \<and> same_rate (reasoning_microdollars_per_million p) (rate_reasoning (base obs))
     \<and> same_rate (cache_read_microdollars_per_million p) (rate_cache_read (base obs))
     \<and> same_rate (cache_write_microdollars_per_million p) (rate_cache_write (base obs))"
  by (cases p) (auto simp: model_price_from_cost_def bind_eq_Some_conv exact_micros_Some optional_micros_Some)

text \<open>The usable prices stated for a provider's published model id, in snapshot order.\<close>

definition stated_prices :: "offering list \<Rightarrow> string \<Rightarrow> string \<Rightarrow> model_price list" where
  "stated_prices offs provider model =
     List.map_filter
       (\<lambda>off. if offering_provider off = provider \<and> published_model_id off = model
              then Option.bind (offering_price off) model_price_from_cost else None) offs"

lemma price_for_index_offering:
  "price_for (index_offering off idx) provider model =
     (case stated_prices [off] provider model of [] \<Rightarrow> price_for idx provider model | p # _ \<Rightarrow> Some p)"
  by (auto simp: index_offering_def price_for_def stated_prices_def List.map_filter_def
      split: option.splits)

lemma price_for_fold_index:
  "price_for (fold index_offering offs idx) provider model =
     (if stated_prices offs provider model = [] then price_for idx provider model
      else Some (last (stated_prices offs provider model)))"
proof (induction offs arbitrary: idx)
  case Nil
  then show ?case by (simp add: stated_prices_def List.map_filter_def)
next
  case (Cons off offs)
  have "stated_prices (off # offs) provider model =
      stated_prices [off] provider model @ stated_prices offs provider model"
    by (simp add: stated_prices_def List.map_filter_def)
  moreover have "length (stated_prices [off] provider model) \<le> 1"
    by (simp add: stated_prices_def List.map_filter_def)
  ultimately show ?case
    by (auto simp: Cons.IH price_for_index_offering split: list.splits)
qed

lemma fold_fold_concat: "fold (fold f) xss s = fold f (concat xss) s"
  by (induction xss arbitrary: s) simp_all

text \<open>
  The index compiled from a snapshot answers a lookup with the last usable price the
  snapshot states for that provider and published id, and with nothing when there is none: no
  price of another provider or model ever answers.
\<close>

theorem index_answers_last_stated_price:
  "price_for (from_snapshot ms) provider model =
     (if stated_prices (concat ms) provider model = [] then None
      else Some (last (stated_prices (concat ms) provider model)))"
  by (simp add: from_snapshot_def fold_fold_concat price_for_fold_index) (simp add: price_for_def)

end
