(* ===== verification/Sse.thy ===== *)
theory Sse
  imports Rust_String
begin

text \<open>
  The incremental decoder of server-sent events, \<open>crates/gateway-core/src/stream.rs\<close>.
  \<open>push_inner\<close> returns the decoder as the method leaves it together with its result, because
  the chunk is appended before any check and stays in the buffer when an error is returned.
  The search for repeated object keys drives a \<open>serde_json\<close> deserializer with a visitor; it is
  the argument \<open>dup\<close> of the definitions that call it.
\<close>

section \<open>Events and errors\<close>

record sse_event =
  event :: "string option"
  data :: string

datatype stream_parse_error = BufferLimit nat | Incomplete

datatype strict_stream_parse_error =
    Parse stream_parse_error
  | UnvalidatedBlock
  | AmbiguousJson

section \<open>Blocks\<close>

definition NL :: char where "NL = CHR 0x0A"
definition CR :: char where "CR = CHR 0x0D"

definition DELIMITER_OVERLAP :: nat where "DELIMITER_OVERLAP = 3"

text \<open>
  \<open>event_end\<close>: one pass over the bytes; the loop runs to the byte before the last one.
\<close>

fun event_end :: "string \<Rightarrow> nat option" where
  "event_end [] = None"
| "event_end [c] = None"
| "event_end (c # d # s) =
     (if c = NL \<and> d = NL then Some 0
      else if c = CR \<and> starts_with (c # d # s) [CR, NL, CR, NL] then Some 0
      else map_option Suc (event_end (d # s)))"

definition strip_space :: "string \<Rightarrow> string" where
  "strip_space v = (case strip_prefix v '' '' of Some v' \<Rightarrow> v' | None \<Rightarrow> v)"

fun parse_lines :: "string list \<Rightarrow> string option \<Rightarrow> string list \<Rightarrow> string option \<times> string list" where
  "parse_lines [] ev ds = (ev, ds)"
| "parse_lines (line # ls) ev ds =
     (if starts_with line '':'' then parse_lines ls ev ds
      else case strip_prefix line ''event:'' of
        Some v \<Rightarrow> parse_lines ls (Some (strip_space v)) ds
      | None \<Rightarrow>
          (case strip_prefix line ''data:'' of
             Some v \<Rightarrow> parse_lines ls ev (ds @ [strip_space v])
           | None \<Rightarrow> parse_lines ls ev ds))"

definition parse_event :: "string \<Rightarrow> sse_event option" where
  "parse_event block =
     (let (ev, ds) = parse_lines (str_lines block) None [] in
      if ds \<noteq> [] then Some \<lparr>event = ev, data = join_with [NL] ds\<rparr> else None)"

fun strict_lines :: "string list \<Rightarrow> bool \<Rightarrow> bool \<Rightarrow> bool" where
  "strict_lines [] event_seen data_seen = data_seen"
| "strict_lines (line # ls) event_seen data_seen =
     (if starts_with line '':'' then False
      else case split_once line (CHR '':'') of
        None \<Rightarrow> False
      | Some (field, _) \<Rightarrow>
          (if field = ''data'' then strict_lines ls event_seen True
           else if field = ''event'' \<and> \<not> event_seen then strict_lines ls True data_seen
           else False))"

definition strict_block_is_valid :: "string \<Rightarrow> bool" where
  "strict_block_is_valid block = strict_lines (str_lines block) False False"

section \<open>The decoder\<close>

record sse_decoder =
  buffer :: string
  scanned :: nat
  max_buffer_bytes :: nat

definition sse_decoder_new :: "nat \<Rightarrow> sse_decoder" where
  "sse_decoder_new n = \<lparr>buffer = [], scanned = 0, max_buffer_bytes = n\<rparr>"

text \<open>
  The loop of \<open>push_inner\<close>: \<open>search\<close> and \<open>consumed\<close> are its cursors into the buffer and
  \<open>events\<close> what it has pushed.  It returns the final cursor and the events.
\<close>

definition delimiter_len :: "string \<Rightarrow> nat" where
  "delimiter_len s = (if starts_with s [CR, NL, CR, NL] then 4 else 2)"

lemma delimiter_len_pos [simp]: "0 < delimiter_len s"
  by (simp add: delimiter_len_def)

lemma event_end_bound: "event_end s = Some i \<Longrightarrow> i + delimiter_len (drop i s) \<le> length s"
proof (induction s arbitrary: i rule: event_end.induct)
  case (3 c d s)
  then show ?case
    by (auto simp: delimiter_len_def starts_with_iff split: if_splits)
qed simp_all

lemma next_event_shrinks:
  assumes "event_end (drop search buf) = Some offset"
  shows "length buf - (search + offset + delimiter_len (drop (search + offset) buf))
           < length buf - search"
proof -
  have "search < length buf" using assms by (cases "search < length buf") auto
  moreover have "0 < delimiter_len (drop (search + offset) buf)" by simp
  ultimately show ?thesis by linarith
qed

function push_loop ::
  "bool \<Rightarrow> (string \<Rightarrow> bool) \<Rightarrow> string \<Rightarrow> nat \<Rightarrow> nat \<Rightarrow> sse_event list
     \<Rightarrow> (strict_stream_parse_error, nat \<times> sse_event list) result" where
  "push_loop strict dup buf search consumed events =
     (case event_end (drop search buf) of
        None \<Rightarrow> Inr (consumed, events)
      | Some offset \<Rightarrow>
          (let end = search + offset;
               block = filter (\<lambda>c. c \<noteq> CR) (take (end - consumed) (drop consumed buf));
               next = end + delimiter_len (drop end buf)
           in if strict \<and> \<not> strict_block_is_valid block then Inl UnvalidatedBlock
              else case parse_event block of
                None \<Rightarrow> push_loop strict dup buf next next events
              | Some ev \<Rightarrow>
                  (if strict \<and> trim (data ev) \<noteq> ''[DONE]'' \<and> dup (data ev) then Inl AmbiguousJson
                   else push_loop strict dup buf next next (events @ [ev]))))"
  by pat_completeness auto
termination
  by (relation "measure (\<lambda>(strict, dup, buf, search, consumed, events). length buf - search)")
    (auto dest: next_event_shrinks)

declare push_loop.simps [simp del]

definition push_inner ::
  "(string \<Rightarrow> bool) \<Rightarrow> sse_decoder \<Rightarrow> string \<Rightarrow> bool
     \<Rightarrow> sse_decoder \<times> (strict_stream_parse_error, sse_event list) result" where
  "push_inner dup d chunk strict =
     (let buf = buffer d @ chunk; d' = d\<lparr>buffer := buf\<rparr> in
      if max_buffer_bytes d < length buf then (d', Inl (Parse (BufferLimit (max_buffer_bytes d))))
      else case push_loop strict dup buf (scanned d) 0 [] of
        Inl e \<Rightarrow> (d', Inl e)
      | Inr (consumed, events) \<Rightarrow>
          (let rest = drop consumed buf in
           (d'\<lparr>buffer := rest, scanned := floor_boundary rest (length rest - DELIMITER_OVERLAP)\<rparr>,
            Inr events)))"

text \<open>
  \<open>push\<close> has \<open>unreachable!\<close> for the two strict errors: \<open>None\<close> in the result is that panic.
\<close>

definition push ::
  "(string \<Rightarrow> bool) \<Rightarrow> sse_decoder \<Rightarrow> string
     \<Rightarrow> sse_decoder \<times> (stream_parse_error, sse_event list) result option" where
  "push dup d chunk =
     (case push_inner dup d chunk False of
        (d', Inr events) \<Rightarrow> (d', Some (Inr events))
      | (d', Inl (Parse e)) \<Rightarrow> (d', Some (Inl e))
      | (d', Inl _) \<Rightarrow> (d', None))"

definition push_strict ::
  "(string \<Rightarrow> bool) \<Rightarrow> sse_decoder \<Rightarrow> string
     \<Rightarrow> sse_decoder \<times> (strict_stream_parse_error, sse_event list) result" where
  "push_strict dup d chunk = push_inner dup d chunk True"

definition finish :: "sse_decoder \<Rightarrow> (stream_parse_error, unit) result" where
  "finish d = (if trim (buffer d) = [] then Inr () else Inl Incomplete)"

section \<open>The specification: the blocks of a body\<close>

text \<open>
  What a body means, with no cursor and no chunk: cut at the first delimiter, again and again;
  the blocks in order, and the unterminated rest.
\<close>

function split_blocks :: "string \<Rightarrow> string list \<times> string" where
  "split_blocks s =
     (case event_end s of
        None \<Rightarrow> ([], s)
      | Some i \<Rightarrow>
          (let (bs, r) = split_blocks (drop (i + delimiter_len (drop i s)) s)
           in (take i s # bs, r)))"
  by pat_completeness auto
termination
proof (relation "measure length", goal_cases)
  case (2 s i)
  with next_event_shrinks [of 0 s i] show ?case by simp
qed simp

declare split_blocks.simps [simp del]

text \<open>What one raw block yields: nothing, an event, or a strict refusal.\<close>

definition block_event ::
  "bool \<Rightarrow> (string \<Rightarrow> bool) \<Rightarrow> string \<Rightarrow> (strict_stream_parse_error, sse_event option) result" where
  "block_event strict dup raw =
     (let block = filter (\<lambda>c. c \<noteq> CR) raw in
      if strict \<and> \<not> strict_block_is_valid block then Inl UnvalidatedBlock
      else case parse_event block of
        None \<Rightarrow> Inr None
      | Some ev \<Rightarrow>
          (if strict \<and> trim (data ev) \<noteq> ''[DONE]'' \<and> dup (data ev) then Inl AmbiguousJson
           else Inr (Some ev)))"

fun decode_blocks ::
  "bool \<Rightarrow> (string \<Rightarrow> bool) \<Rightarrow> string list \<Rightarrow> (strict_stream_parse_error, sse_event list) result" where
  "decode_blocks strict dup [] = Inr []"
| "decode_blocks strict dup (b # bs) =
     (case block_event strict dup b of
        Inl e \<Rightarrow> Inl e
      | Inr ev \<Rightarrow>
          (case decode_blocks strict dup bs of
             Inl e \<Rightarrow> Inl e
           | Inr evs \<Rightarrow> Inr ((case ev of None \<Rightarrow> [] | Some x \<Rightarrow> [x]) @ evs)))"

text \<open>
  Between pushes the buffer holds no complete event and the cursor stays short of the bytes a
  straddling delimiter could use.
\<close>

definition decoder_ok :: "sse_decoder \<Rightarrow> bool" where
  "decoder_ok d \<longleftrightarrow>
     event_end (buffer d) = None
     \<and> scanned d \<le> length (buffer d) - DELIMITER_OVERLAP
     \<and> is_char_boundary (buffer d) (scanned d)
     \<and> length (buffer d) \<le> max_buffer_bytes d"

section \<open>Lemmas on delimiters\<close>

lemma NL_neq_CR [simp]: "NL \<noteq> CR" "CR \<noteq> NL"
  by (simp_all add: NL_def CR_def)

lemma map_option_plus_0 [simp]: "map_option ((+) (0 :: nat)) x = x"
  by (cases x) simp_all

lemma event_end_append_Some: "event_end s = Some i \<Longrightarrow> event_end (s @ t) = Some i"
proof (induction s arbitrary: i rule: event_end.induct)
  case (3 c d s)
  show ?case
  proof (cases s)
    case Nil
    with 3(2) show ?thesis by (auto simp: starts_with_def split: if_splits)
  next
    case (Cons e r)
    then have "starts_with (c # d # s @ t) [CR, NL, CR, NL] = starts_with (c # d # s) [CR, NL, CR, NL]"
      if "event_end (d # s) \<noteq> None"
      using that by (cases r) (auto simp: starts_with_def split: if_splits)
    with 3 show ?thesis by (fastforce simp: starts_with_iff split: if_splits)
  qed
qed simp_all

lemma event_end_delimiter:
  "event_end s = Some i \<Longrightarrow>
     starts_with (drop i s) [NL, NL] \<or> starts_with (drop i s) [CR, NL, CR, NL]"
proof (induction s arbitrary: i rule: event_end.induct)
  case (3 c d s)
  then show ?case by (auto simp: starts_with_iff split: if_splits)
qed simp_all

lemma delimiter_len_append:
  assumes "event_end s = Some i"
  shows "delimiter_len (drop i (s @ t)) = delimiter_len (drop i s)"
proof -
  have "i \<le> length s" using event_end_bound [OF assms] by simp
  then have "drop i (s @ t) = drop i s @ t" by simp
  with event_end_delimiter [OF assms] show ?thesis
    by (auto simp: delimiter_len_def starts_with_iff)
qed

lemma event_end_append_None:
  "event_end s = None \<Longrightarrow> n \<le> length s - DELIMITER_OVERLAP \<Longrightarrow>
     event_end (s @ t) = map_option ((+) n) (event_end (drop n (s @ t)))"
proof (induction s arbitrary: n rule: event_end.induct)
  case (3 c d s)
  show ?case
  proof (cases n)
    case 0
    then show ?thesis by (simp only: map_option_plus_0 drop0)
  next
    case (Suc m)
    from 3 have none: "event_end (d # s) = None" "\<not> (c = NL \<and> d = NL)"
      "\<not> (c = CR \<and> starts_with (c # d # s) [CR, NL, CR, NL])"
      by (auto split: if_splits)
    obtain e f r where s: "s = e # f # r"
      using 3(3) Suc by (cases s; cases "tl s") (auto simp: DELIMITER_OVERLAP_def)
    have "starts_with (c # d # s @ t) [CR, NL, CR, NL] = starts_with (c # d # s) [CR, NL, CR, NL]"
      by (simp add: s starts_with_def)
    moreover have "event_end ((d # s) @ t) = map_option ((+) m) (event_end (drop m ((d # s) @ t)))"
      using 3 none Suc by (auto simp: DELIMITER_OVERLAP_def)
    ultimately show ?thesis
      using none Suc by (auto simp: option.map_comp comp_def)
  qed
qed (simp_all add: DELIMITER_OVERLAP_def)

section \<open>The loop computes the specification\<close>

lemma split_blocks_append:
  "split_blocks s = (bs, r) \<Longrightarrow>
     split_blocks (s @ t) = (let (bs', r') = split_blocks (r @ t) in (bs @ bs', r'))"
proof (induction s arbitrary: bs r rule: split_blocks.induct)
  case (1 s)
  show ?case
  proof (cases "event_end s")
    case None
    with 1 show ?thesis by (simp add: split_blocks.simps [of s])
  next
    case (Some i)
    let ?k = "i + delimiter_len (drop i s)"
    obtain bs1 where bs: "bs = take i s # bs1" and rest: "split_blocks (drop ?k s) = (bs1, r)"
      using 1(2) Some by (auto simp: split_blocks.simps [of s] Let_def split: prod.splits)
    have "?k \<le> length s" by (rule event_end_bound [OF Some])
    then have "drop ?k (s @ t) = drop ?k s @ t" "take i (s @ t) = take i s" by simp_all
    then have "split_blocks (s @ t) = (let (bs, r) = split_blocks (drop ?k s @ t) in (take i s # bs, r))"
      by (subst split_blocks.simps)
        (simp only: event_end_append_Some [OF Some] delimiter_len_append [OF Some] option.case)
    with 1(1) [OF Some rest] show ?thesis by (simp add: bs split: prod.splits)
  qed
qed

lemma split_blocks_rest: "split_blocks s = (bs, r) \<Longrightarrow> event_end r = None \<and> length r \<le> length s"
proof (induction s arbitrary: bs r rule: split_blocks.induct)
  case (1 s)
  then show ?case
    by (cases "event_end s") (fastforce simp: split_blocks.simps [of s] Let_def split: prod.splits)+
qed

text \<open>The loop on whole blocks: the cursor only moves past complete events.\<close>

lemma push_loop_blocks:
  assumes "consumed \<le> length buf"
    and "event_end (drop consumed buf) = map_option ((+) (search - consumed)) (event_end (drop search buf))"
    and "consumed \<le> search"
    and "split_blocks (drop consumed buf) = (bs, r)"
  shows "push_loop strict dup buf search consumed events =
     (case decode_blocks strict dup bs of
        Inl e \<Rightarrow> Inl e
      | Inr evs \<Rightarrow> Inr (length buf - length r, events @ evs))
     \<and> r = drop (length buf - length r) buf"
  using assms
proof (induction bs arbitrary: search consumed events)
  case Nil
  then have "event_end (drop consumed buf) = None" "r = drop consumed buf"
    by (auto simp: split_blocks.simps [of "drop consumed buf"] Let_def split: option.splits prod.splits)
  with Nil show ?case by (simp add: push_loop.simps [of _ _ _ search])
next
  case (Cons b bs)
  let ?s = "drop consumed buf"
  obtain i where i: "event_end ?s = Some i" and b: "b = take i ?s"
    and rest: "split_blocks (drop (i + delimiter_len (drop i ?s)) ?s) = (bs, r)"
    using Cons.prems(4)
    by (auto simp: split_blocks.simps [of ?s] Let_def split: option.splits prod.splits)
  obtain offset where offset: "event_end (drop search buf) = Some offset"
    and end_eq: "search + offset = consumed + i"
    using Cons.prems(2,3) i by (cases "event_end (drop search buf)") auto
  define nxt where "nxt = consumed + i + delimiter_len (drop (consumed + i) buf)"
  have "nxt \<le> length buf"
    using event_end_bound [OF i] Cons.prems(1) by (simp add: nxt_def add.commute)
  moreover have "split_blocks (drop nxt buf) = (bs, r)"
    using rest by (simp add: nxt_def ac_simps)
  ultimately have IH: "push_loop strict dup buf nxt nxt evs =
     (case decode_blocks strict dup bs of
        Inl e \<Rightarrow> Inl e
      | Inr evs' \<Rightarrow> Inr (length buf - length r, evs @ evs'))
     \<and> r = drop (length buf - length r) buf" for evs
    by (intro Cons.IH) (simp_all add: option.map_ident)
  show ?case
    using IH
    by (simp add: push_loop.simps [of _ _ _ search] offset end_eq nxt_def [symmetric] block_event_def b
        Let_def split: option.splits sum.splits)
qed

lemma push_inner_spec:
  assumes "decoder_ok d" and "split_blocks (buffer d @ chunk) = (bs, r)"
  shows "push_inner dup d chunk strict =
     (if max_buffer_bytes d < length (buffer d @ chunk)
      then (d\<lparr>buffer := buffer d @ chunk\<rparr>, Inl (Parse (BufferLimit (max_buffer_bytes d))))
      else case decode_blocks strict dup bs of
        Inl e \<Rightarrow> (d\<lparr>buffer := buffer d @ chunk\<rparr>, Inl e)
      | Inr evs \<Rightarrow>
          (d\<lparr>buffer := r, scanned := floor_boundary r (length r - DELIMITER_OVERLAP)\<rparr>, Inr evs))"
proof -
  have scan: "event_end (drop 0 (buffer d @ chunk)) =
      map_option ((+) (scanned d - 0)) (event_end (drop (scanned d) (buffer d @ chunk)))"
    using assms(1) event_end_append_None [of "buffer d" "scanned d" chunk]
    unfolding decoder_ok_def by (simp only: drop0 diff_zero)
  have "split_blocks (drop 0 (buffer d @ chunk)) = (bs, r)" using assms(2) by simp
  from push_loop_blocks [OF _ scan _ this, of strict dup "[]"]
  have "push_loop strict dup (buffer d @ chunk) (scanned d) 0 [] =
     (case decode_blocks strict dup bs of
        Inl e \<Rightarrow> Inl e
      | Inr evs \<Rightarrow> Inr (length (buffer d @ chunk) - length r, evs))"
    and "drop (length (buffer d @ chunk) - length r) (buffer d @ chunk) = r"
    by (auto split: sum.splits)
  then show ?thesis
    by (simp only: push_inner_def Let_def sse_decoder.simps)
      (cases "decode_blocks strict dup bs"; simp only: sum.case prod.case sse_decoder.simps; simp)
qed

lemma decode_blocks_append:
  "decode_blocks strict dup (as @ bs) =
     (case decode_blocks strict dup as of
        Inl e \<Rightarrow> Inl e
      | Inr xs \<Rightarrow>
          (case decode_blocks strict dup bs of Inl e \<Rightarrow> Inl e | Inr ys \<Rightarrow> Inr (xs @ ys)))"
  by (induction as) (auto split: sum.splits)

lemma decode_blocks_lenient: "\<exists>evs. decode_blocks False dup bs = Inr evs"
  by (induction bs) (auto simp: block_event_def Let_def split: option.splits)

section \<open>Properties\<close>

text \<open>
  A push that succeeds leaves a decoder that holds no complete event, at most the buffer
  limit, and a search cursor on a character boundary that no delimiter completed by a later
  chunk can start before.
\<close>

theorem push_keeps_decoder_ok:
  "decoder_ok (sse_decoder_new n)
   \<and> (decoder_ok d \<and> push_inner dup d chunk strict = (d', Inr events) \<longrightarrow>
        decoder_ok d' \<and> max_buffer_bytes d' = max_buffer_bytes d)"
proof -
  obtain bs r where split: "split_blocks (buffer d @ chunk) = (bs, r)" by fastforce
  have rest: "event_end r = None" "length r \<le> length (buffer d @ chunk)"
    using split_blocks_rest [OF split] by auto
  have "decoder_ok d'" "max_buffer_bytes d' = max_buffer_bytes d"
    if "decoder_ok d" "push_inner dup d chunk strict = (d', Inr events)"
    using that(2) rest unfolding push_inner_spec [OF that(1) split]
    by (auto simp: decoder_ok_def floor_boundary_le floor_boundary_boundary split: if_splits sum.splits)
  then show ?thesis by (simp add: decoder_ok_def sse_decoder_new_def)
qed

theorem push_keeps_decoder_ok_witness:
  "decoder_ok \<lparr>buffer = ''data'', scanned = 1, max_buffer_bytes = 64\<rparr>
   \<and> push_inner (\<lambda>_. False) \<lparr>buffer = ''data'', scanned = 1, max_buffer_bytes = 64\<rparr>
       '': a'' False = (\<lparr>buffer = ''data: a'', scanned = 4, max_buffer_bytes = 64\<rparr>, Inr [])
   \<and> decoder_ok \<lparr>buffer = ''data: a'', scanned = 4, max_buffer_bytes = 64\<rparr>"
proof -
  let ?d = "\<lparr>buffer = ''data'', scanned = 1, max_buffer_bytes = 64\<rparr>"
  have push: "push_inner (\<lambda>_. False) ?d '': a'' False =
      (\<lparr>buffer = ''data: a'', scanned = 4, max_buffer_bytes = 64\<rparr>, Inr [])"
    by (simp add: push_inner_def push_loop.simps NL_def CR_def DELIMITER_OVERLAP_def
        is_char_boundary_def is_continuation_def byte_def numeral_eq_Suc)
  have ok: "decoder_ok ?d"
    by (simp add: decoder_ok_def NL_def CR_def DELIMITER_OVERLAP_def is_char_boundary_def
        is_continuation_def byte_def)
  from push_keeps_decoder_ok ok push show ?thesis by blast
qed

text \<open>
  C14. The ordinary push is the batch decoder applied to what is buffered: with room in the
  buffer it returns the events of every complete block of the held bytes followed by the chunk,
  in order, keeps exactly the unterminated rest, and reaches neither \<open>unreachable!\<close>; without
  room it refuses.
\<close>

theorem push_decodes_complete_blocks:
  "decoder_ok d \<Longrightarrow>
     (let (blocks, rest) = split_blocks (buffer d @ chunk) in
      if max_buffer_bytes d < length (buffer d @ chunk)
      then snd (push dup d chunk) = Some (Inl (BufferLimit (max_buffer_bytes d)))
      else buffer (fst (push dup d chunk)) = rest
        \<and> snd (push dup d chunk) =
            Some (Inr (List.map_filter (\<lambda>b. parse_event (filter (\<lambda>c. c \<noteq> CR) b)) blocks)))"
proof -
  assume ok: "decoder_ok d"
  obtain bs r where split: "split_blocks (buffer d @ chunk) = (bs, r)" by fastforce
  have "decode_blocks False dup bs =
      Inr (List.map_filter (\<lambda>b. parse_event (filter (\<lambda>c. c \<noteq> CR) b)) bs)"
    by (induction bs) (auto simp: block_event_def Let_def List.map_filter_simps split: option.splits)
  with push_inner_spec [OF ok split, of dup False] split show ?thesis by (simp add: push_def)
qed

theorem push_decodes_complete_blocks_witness:
  "decoder_ok (sse_decoder_new 64)
   \<and> snd (push (\<lambda>_. False) (sse_decoder_new 64) (''data: a'' @ [NL, NL] @ ''data: b'')) =
       Some (Inr [\<lparr>event = None, data = ''a''\<rparr>])
   \<and> buffer (fst (push (\<lambda>_. False) (sse_decoder_new 64) (''data: a'' @ [NL, NL] @ ''data: b''))) = ''data: b''"
proof -
  have ok: "decoder_ok (sse_decoder_new 64)" by (simp add: decoder_ok_def sse_decoder_new_def)
  have "split_blocks (''data: a'' @ [NL, NL] @ ''data: b'') = ([''data: a''], ''data: b'')"
    by (simp add: split_blocks.simps NL_def CR_def delimiter_len_def starts_with_def)
  moreover have "parse_event (filter (\<lambda>c. c \<noteq> CR) ''data: a'') = Some \<lparr>event = None, data = ''a''\<rparr>"
    by (simp add: parse_event_def CR_def str_lines_def strip_line_ending_def strip_prefix_def
        starts_with_def strip_space_def)
  ultimately show ?thesis
    using push_decodes_complete_blocks
      [OF ok, of "''data: a'' @ [NL, NL] @ ''data: b''" "\<lambda>_. False"] ok
    by (simp add: sse_decoder_new_def List.map_filter_simps)
qed

text \<open>
  C13. Where a chunk boundary falls cannot change what a stream decodes to, in either mode: a
  body that decodes in one push decodes in two, to the same events in the same order, and
  leaves the same decoder behind.
\<close>

theorem chunk_boundary_is_invisible:
  "decoder_ok d \<and> push_inner dup d (a @ b) strict = (d2, Inr events) \<longrightarrow>
     (\<exists>d1 xs ys. push_inner dup d a strict = (d1, Inr xs)
        \<and> push_inner dup d1 b strict = (d2, Inr ys) \<and> events = xs @ ys)"
proof (intro impI, elim conjE)
  assume ok: "decoder_ok d" and whole: "push_inner dup d (a @ b) strict = (d2, Inr events)"
  obtain as r where sa: "split_blocks (buffer d @ a) = (as, r)" by fastforce
  obtain bs r' where sb: "split_blocks (r @ b) = (bs, r')" by fastforce
  have sab: "split_blocks (buffer d @ a @ b) = (as @ bs, r')"
    using split_blocks_append [OF sa, of b] sb by simp
  let ?d1 = "d\<lparr>buffer := r, scanned := floor_boundary r (length r - DELIMITER_OVERLAP)\<rparr>"
  have room: "length (buffer d @ a @ b) \<le> max_buffer_bytes d"
    using whole unfolding push_inner_spec [OF ok sab] by (auto split: if_splits)
  then have blocks: "decode_blocks strict dup (as @ bs) = Inr events"
    and d2: "d2 = d\<lparr>buffer := r', scanned := floor_boundary r' (length r' - DELIMITER_OVERLAP)\<rparr>"
    using whole unfolding push_inner_spec [OF ok sab] by (auto split: sum.splits)
  obtain xs ys where dec: "decode_blocks strict dup as = Inr xs" "decode_blocks strict dup bs = Inr ys"
    and events: "events = xs @ ys"
    using blocks unfolding decode_blocks_append by (auto split: sum.splits)
  have first: "push_inner dup d a strict = (?d1, Inr xs)"
    using room dec unfolding push_inner_spec [OF ok sa] by simp
  have "length r \<le> length (buffer d @ a)" using split_blocks_rest [OF sa] by blast
  with room split_blocks_rest [OF sa] have ok1: "decoder_ok ?d1"
    and room1: "length (r @ b) \<le> max_buffer_bytes d"
    by (simp_all add: decoder_ok_def floor_boundary_le floor_boundary_boundary)
  have sb': "split_blocks (buffer ?d1 @ b) = (bs, r')" using sb by simp
  have "push_inner dup ?d1 b strict = (d2, Inr ys)"
    using room1 dec d2 unfolding push_inner_spec [OF ok1 sb'] by simp
  with first events show "\<exists>d1 xs ys. push_inner dup d a strict = (d1, Inr xs)
        \<and> push_inner dup d1 b strict = (d2, Inr ys) \<and> events = xs @ ys"
    by blast
qed

theorem chunk_boundary_is_invisible_witness:
  "\<exists>d1 d2 ys. push_inner (\<lambda>_. False) (sse_decoder_new 64) (''data: a'' @ [CR, NL, CR, NL]) True
       = (d2, Inr [\<lparr>event = None, data = ''a''\<rparr>])
     \<and> push_inner (\<lambda>_. False) (sse_decoder_new 64) (''data: a'' @ [CR, NL, CR]) True = (d1, Inr [])
     \<and> push_inner (\<lambda>_. False) d1 [NL] True = (d2, Inr ys)
     \<and> ys = [\<lparr>event = None, data = ''a''\<rparr>]"
proof -
  let ?push = "push_inner (\<lambda>_. False) (sse_decoder_new 64)"
  have ok: "decoder_ok (sse_decoder_new 64)" by (simp add: decoder_ok_def sse_decoder_new_def)
  have whole: "?push ((''data: a'' @ [CR, NL, CR]) @ [NL]) True
      = (sse_decoder_new 64, Inr [\<lparr>event = None, data = ''a''\<rparr>])"
    by (simp add: push_inner_def push_loop.simps sse_decoder_new_def NL_def CR_def
        delimiter_len_def starts_with_def strict_block_is_valid_def str_lines_def
        strip_line_ending_def parse_event_def strip_prefix_def strip_space_def)
  have first: "\<exists>d1. ?push (''data: a'' @ [CR, NL, CR]) True = (d1, Inr [])"
    by (simp add: push_inner_def push_loop.simps sse_decoder_new_def NL_def CR_def starts_with_def
        Let_def)
  from chunk_boundary_is_invisible ok whole
  obtain d1 xs ys where parts: "?push (''data: a'' @ [CR, NL, CR]) True = (d1, Inr xs)"
    "push_inner (\<lambda>_. False) d1 [NL] True = (sse_decoder_new 64, Inr ys)"
    "[\<lparr>event = None, data = ''a''\<rparr>] = xs @ ys"
    by blast
  moreover from first parts(1) have "xs = []" by auto
  ultimately show ?thesis using whole by auto
qed

text \<open>The values of a field's lines, in order.\<close>

definition field_values :: "string \<Rightarrow> string list \<Rightarrow> string list" where
  "field_values name ls = List.map_filter (\<lambda>l. strip_prefix l name) ls"

lemma field_values_simps [simp]:
  "field_values name [] = []"
  "field_values name (l # ls) =
     (case strip_prefix l name of None \<Rightarrow> field_values name ls | Some v \<Rightarrow> v # field_values name ls)"
  by (simp_all add: field_values_def List.map_filter_simps split: option.splits)

lemma split_once_prefix: "d \<notin> set p \<Longrightarrow> split_once (p @ d # s) d = Some (p, s)"
  by (induction p) auto

lemma split_once_field:
  "CHR '':'' \<notin> set f \<Longrightarrow>
     (\<exists>r. split_once l (CHR '':'') = Some (f, r)) \<longleftrightarrow> (\<exists>v. strip_prefix l (f @ '':'') = Some v)"
  by (auto simp: strip_prefix_Some split_once_prefix dest!: split_once_Some)

text \<open>A line carries one field name only.\<close>

lemma data_is_not_event: "\<not> (strip_prefix l ''data:'' = Some v \<and> strip_prefix l ''event:'' = Some w)"
  by (auto simp: strip_prefix_Some)

lemma strict_lines_iff:
  "strict_lines ls es ds \<longleftrightarrow>
     (\<forall>l\<in>set ls. starts_with l ''data:'' \<or> starts_with l ''event:'')
     \<and> length (field_values ''event:'' ls) + (if es then 1 else 0) \<le> 1
     \<and> (ds \<or> field_values ''data:'' ls \<noteq> [])"
proof (induction ls arbitrary: es ds)
  case (Cons l ls)
  consider (data) v where "l = ''data:'' @ v" | (ev) v where "l = ''event:'' @ v"
    | (other) "\<not> starts_with l ''data:''" "\<not> starts_with l ''event:''"
    by (auto simp: starts_with_iff)
  then show ?case
  proof cases
    case data
    then show ?thesis by (simp add: Cons.IH strip_prefix_def starts_with_def)
  next
    case ev
    then show ?thesis by (cases es) (simp_all add: Cons.IH strip_prefix_def starts_with_def)
  next
    case other
    then have "split_once l (CHR '':'') \<noteq> Some (''data'', r)"
      "split_once l (CHR '':'') \<noteq> Some (''event'', r)" for r
      using split_once_field [of "''data''" l] split_once_field [of "''event''" l]
      by (auto simp: strip_prefix_def)
    with other show ?thesis by (auto split: option.splits)
  qed
qed auto

lemma parse_lines_values:
  "parse_lines ls ev ds =
     ((case field_values ''event:'' ls of [] \<Rightarrow> ev | v # vs \<Rightarrow> Some (strip_space (last (v # vs)))),
      ds @ map strip_space (field_values ''data:'' ls))"
proof (induction ls arbitrary: ev ds)
  case (Cons l ls)
  have "strip_prefix l ''event:'' = None" "strip_prefix l ''data:'' = None" if "starts_with l '':''"
    using that by (auto simp: strip_prefix_def starts_with_iff)
  moreover have "strip_prefix l ''data:'' = None" if "strip_prefix l ''event:'' = Some v" for v
    using that data_is_not_event [of l _ v] by (cases "strip_prefix l ''data:''") auto
  ultimately show ?case by (auto simp: Cons.IH split: option.splits list.splits)
qed simp

text \<open>
  Strict decoding accepts a block exactly when every one of its lines is a \<open>data:\<close> line or
  its only \<open>event:\<close> line and it has data, and then the event carries every value of the block:
  nothing the block says is dropped before a policy has seen it.
\<close>

theorem strict_block_is_fully_exposed:
  "let ls = str_lines block; values = (\<lambda>name. map strip_space (field_values name ls)) in
   (strict_block_is_valid block \<longleftrightarrow>
      filter (\<lambda>l. \<not> starts_with l ''data:'' \<and> \<not> starts_with l ''event:'') ls = []
      \<and> length (values ''event:'') \<le> 1 \<and> values ''data:'' \<noteq> [])
   \<and> (strict_block_is_valid block \<longrightarrow>
      parse_event block =
        Some \<lparr>event = (case values ''event:'' of [] \<Rightarrow> None | v # _ \<Rightarrow> Some v),
              data = join_with [NL] (values ''data:'')\<rparr>)"
  by (auto simp: strict_block_is_valid_def strict_lines_iff parse_event_def parse_lines_values
      filter_empty_conv Let_def le_Suc_eq length_Suc_conv split: list.splits)

theorem strict_block_is_fully_exposed_witness:
  "strict_block_is_valid (''event: delta'' @ [NL] @ ''data: a'')
   \<and> parse_event (''event: delta'' @ [NL] @ ''data: a'') =
       Some \<lparr>event = Some ''delta'', data = ''a''\<rparr>"
  using strict_block_is_fully_exposed [of "''event: delta'' @ [NL] @ ''data: a''"]
  by (simp add: strict_block_is_valid_def str_lines_def strip_line_ending_def NL_def
      strip_prefix_def starts_with_def strip_space_def)

end
