(* ===== verification/Backoff.thy ===== *)
theory Backoff
  imports Gateway_Prelude
begin

text \<open>
  Retry pacing, \<open>crates/gateway/src/backoff.rs\<close>.  Durations are nanoseconds; the standard
  library's \<open>u64::checked_pow\<close> and \<open>Duration::checked_mul\<close> fail exactly when the exact result
  does not fit.
\<close>

section \<open>State and operations\<close>

record backoff_policy =
  policy_initial :: duration
  policy_max :: duration
  policy_multiplier :: u32

definition default_policy :: backoff_policy where
  "default_policy =
     \<lparr>policy_initial = from_millis 500, policy_max = from_secs 30, policy_multiplier = 2\<rparr>"

datatype invalid_backoff =
    ZeroInitial
  | Multiplier u32
  | Ceiling duration duration

definition validate_policy :: "backoff_policy \<Rightarrow> (invalid_backoff, unit) result" where
  "validate_policy p =
     (if policy_initial p = 0 then Inl ZeroInitial
      else if policy_multiplier p < 2 then Inl (Multiplier (policy_multiplier p))
      else if policy_max p < policy_initial p then Inl (Ceiling (policy_initial p) (policy_max p))
      else Inr ())"

definition checked_pow_u64 :: "nat \<Rightarrow> nat \<Rightarrow> nat option" where
  "checked_pow_u64 base n = (if base ^ n < 2 ^ 64 then Some (base ^ n) else None)"

definition checked_mul_duration :: "duration \<Rightarrow> nat \<Rightarrow> duration option" where
  "checked_mul_duration d k = (if d * k \<le> duration_max then Some (d * k) else None)"

definition u32_try_from :: "nat \<Rightarrow> nat option" where
  "u32_try_from n = (if n < 2 ^ 32 then Some n else None)"

definition policy_delay :: "backoff_policy \<Rightarrow> u32 \<Rightarrow> duration" where
  "policy_delay p failures =
     (case checked_sub failures 1 of
        None \<Rightarrow> 0
      | Some exponent \<Rightarrow>
          (let factor = (case checked_pow_u64 (unat (policy_multiplier p)) (min (unat exponent) 255) of
                           Some f \<Rightarrow> f | None \<Rightarrow> 2 ^ 64 - 1);
               f32 = (case u32_try_from factor of Some f \<Rightarrow> f | None \<Rightarrow> 2 ^ 32 - 1);
               d = (case checked_mul_duration (policy_initial p) f32 of
                      Some d \<Rightarrow> d | None \<Rightarrow> policy_max p)
           in min d (policy_max p)))"

record backoff =
  policy :: backoff_policy
  backoff_failures :: u32

definition backoff_new :: "backoff_policy \<Rightarrow> backoff" where
  "backoff_new p = \<lparr>policy = p, backoff_failures = 0\<rparr>"

definition fail :: "backoff \<Rightarrow> backoff \<times> duration" where
  "fail b =
     (let b' = b\<lparr>backoff_failures := saturating_add (backoff_failures b) 1\<rparr>
      in (b', policy_delay (policy b') (backoff_failures b')))"

definition succeed :: "backoff \<Rightarrow> backoff" where
  "succeed b = b\<lparr>backoff_failures := 0\<rparr>"

section \<open>The delay in closed form\<close>

text \<open>The exponential the policy describes, with the factor capped at \<open>u32::MAX\<close>.\<close>

definition capped_exponential :: "backoff_policy \<Rightarrow> nat \<Rightarrow> duration" where
  "capped_exponential p n =
     min (policy_max p) (policy_initial p * min (unat (policy_multiplier p) ^ n) (2 ^ 32 - 1))"

lemma policy_factor:
  assumes "2 \<le> (m :: nat)"
  shows "(case u32_try_from (case checked_pow_u64 m (min e 255) of Some f \<Rightarrow> f | None \<Rightarrow> 2 ^ 64 - 1) of
            Some f \<Rightarrow> f | None \<Rightarrow> 2 ^ 32 - 1) = min (m ^ e) (2 ^ 32 - 1)"
proof (cases "m ^ e < 2 ^ 32")
  case True
  have "e < 32"
  proof (rule ccontr)
    assume "\<not> e < 32"
    then have "(2 :: nat) ^ 32 \<le> 2 ^ e" by (intro power_increasing) simp_all
    also have "\<dots> \<le> m ^ e" using assms by (intro power_mono) simp_all
    finally show False using True by simp
  qed
  moreover have "m ^ e < 2 ^ 64" using True by simp
  ultimately show ?thesis using True by (simp add: u32_try_from_def checked_pow_u64_def min_def)
next
  case False
  have "2 ^ 32 \<le> m ^ min e 255"
  proof (cases "e \<le> 255")
    case True
    with False show ?thesis by (simp add: min_def)
  next
    case big: False
    have "(2 :: nat) ^ 32 \<le> 2 ^ 255" by (rule power_increasing) simp_all
    also have "\<dots> \<le> m ^ 255" using assms by (rule power_mono) simp
    finally show ?thesis using big by (simp add: min_def)
  qed
  with False show ?thesis by (simp add: u32_try_from_def checked_pow_u64_def min_def)
qed

lemma policy_valid_iff:
  "validate_policy p = Inr () \<longleftrightarrow>
     0 < policy_initial p \<and> 2 \<le> unat (policy_multiplier p) \<and> policy_initial p \<le> policy_max p"
  by (auto simp: validate_policy_def word_less_nat_alt)

lemma policy_delay_valid:
  assumes "validate_policy p = Inr ()" and "policy_max p \<le> duration_max"
  shows "policy_delay p n = (if n = 0 then 0 else capped_exponential p (unat n - 1))"
proof (cases "checked_sub n 1")
  case None
  moreover from None have "n = 0" by (simp add: checked_sub_None unat_eq_0)
  ultimately show ?thesis by (simp add: policy_delay_def)
next
  case (Some e)
  then have e: "unat e = unat n - 1" "n \<noteq> 0" by (auto dest!: checked_sub_Some)
  have m: "2 \<le> unat (policy_multiplier p)" using assms(1) by (simp add: policy_valid_iff)
  let ?f = "min (unat (policy_multiplier p) ^ (unat n - 1)) (2 ^ 32 - 1)"
  have "policy_delay p n =
      min (case checked_mul_duration (policy_initial p) ?f of Some d \<Rightarrow> d | None \<Rightarrow> policy_max p)
        (policy_max p)"
    by (simp only: policy_delay_def Some option.case Let_def policy_factor [OF m] e(1))
  also have "\<dots> = capped_exponential p (unat n - 1)"
    using assms(2) by (auto simp: checked_mul_duration_def capped_exponential_def)
  finally show ?thesis using e(2) by simp
qed

section \<open>Properties\<close>

text \<open>
  After \<open>k\<close> consecutive failures a valid policy asks for no delay when \<open>k = 0\<close> and
  otherwise exactly for \<open>initial * multiplier ^ (k - 1)\<close>, with the factor capped at \<open>u32::MAX\<close>
  and the delay at the ceiling: no failure count overflows, the delay never shrinks as the
  outage lasts, and it lies between the first delay and the ceiling.
\<close>

theorem delay_is_capped_exponential:
  "validate_policy p = Inr () \<and> policy_max p \<le> duration_max \<longrightarrow>
     policy_delay p 0 = 0
     \<and> (\<forall>k. k \<noteq> 0 \<longrightarrow> policy_delay p k = capped_exponential p (unat k - 1)
            \<and> policy_initial p \<le> policy_delay p k \<and> policy_delay p k \<le> policy_max p)
     \<and> (\<forall>j k. j \<le> k \<longrightarrow> policy_delay p j \<le> policy_delay p k)"
proof (intro impI conjI allI)
  assume valid: "validate_policy p = Inr () \<and> policy_max p \<le> duration_max"
  then have m: "2 \<le> unat (policy_multiplier p)" and le: "policy_initial p \<le> policy_max p"
    by (simp_all add: policy_valid_iff)
  note delay = policy_delay_valid [OF conjunct1 [OF valid] conjunct2 [OF valid]]
  show "policy_delay p 0 = 0" by (simp add: delay)
  fix j k :: u32
  have pow: "1 \<le> unat (policy_multiplier p) ^ n" for n using m by (simp add: Suc_leI)
  have mono: "unat (policy_multiplier p) ^ a \<le> unat (policy_multiplier p) ^ b" if "a \<le> b" for a b
    using m that by (intro power_increasing) simp_all
  show "policy_delay p k = capped_exponential p (unat k - 1)" if "k \<noteq> 0"
    using that by (simp add: delay)
  show "policy_initial p \<le> policy_delay p k" if "k \<noteq> 0"
    using that le pow [of "unat k - 1"] by (simp add: delay capped_exponential_def)
  show "policy_delay p k \<le> policy_max p" if "k \<noteq> 0"
    using that by (simp add: delay capped_exponential_def)
  show "policy_delay p j \<le> policy_delay p k" if "j \<le> k"
  proof (cases "j = 0")
    case False
    with that have "unat j - 1 \<le> unat k - 1" "k \<noteq> 0"
      by (auto simp: word_le_nat_alt diff_le_mono unat_eq_0)
    then have "capped_exponential p (unat j - 1) \<le> capped_exponential p (unat k - 1)"
      unfolding capped_exponential_def
      by (intro min.mono order_refl mult_le_mono mono)
    with False \<open>k \<noteq> 0\<close> show ?thesis by (simp add: delay)
  qed (simp add: delay)
qed

theorem delay_is_capped_exponential_witness:
  "validate_policy default_policy = Inr () \<and> policy_max default_policy \<le> duration_max
   \<and> map (policy_delay default_policy) [0, 1, 2, 6, 7, 8]
       = map from_millis [0, 500, 1000, 16000, 30000, 30000]"
proof -
  have "validate_policy default_policy = Inr ()" "policy_max default_policy \<le> duration_max"
    by (simp_all add: default_policy_def validate_policy_def from_millis_def from_secs_def duration_max_def)
  with delay_is_capped_exponential [of default_policy] show ?thesis
    by (simp add: capped_exponential_def default_policy_def from_millis_def from_secs_def)
qed

fun fail_times :: "nat \<Rightarrow> backoff \<Rightarrow> duration list" where
  "fail_times 0 b = []"
| "fail_times (Suc n) b = (let (b', d) = fail b in d # fail_times n b')"

lemma fail_times_from:
  "unat (backoff_failures b) + n < 2 ^ 32 \<Longrightarrow>
     fail_times n b = map (\<lambda>i. policy_delay (policy b) (backoff_failures b + of_nat (Suc i))) [0..<n]"
proof (induction n arbitrary: b)
  case (Suc n)
  let ?b = "fst (fail b)"
  have inc: "saturating_add (backoff_failures b) 1 = backoff_failures b + 1"
    using Suc.prems by (simp add: saturating_add_def)
  then have "unat (backoff_failures ?b) = Suc (unat (backoff_failures b))"
    using Suc.prems by (simp add: fail_def Let_def unat_word_ariths)
  then have "fail_times n ?b =
      map (\<lambda>i. policy_delay (policy ?b) (backoff_failures ?b + of_nat (Suc i))) [0..<n]"
    using Suc.prems by (intro Suc.IH) simp
  then show ?case
    by (simp add: fail_def Let_def inc upt_conv_Cons map_Suc_upt [symmetric] comp_def ac_simps
        del: upt_Suc)
qed simp

text \<open>
  Whatever happened before, a success forgets it: the next \<open>n\<close> consecutive failures are
  paced by the policy's first \<open>n\<close> delays.
\<close>

theorem success_forgets_the_outage:
  "n < 2 ^ 32 \<Longrightarrow>
     fail_times n (succeed b) = map (\<lambda>i. policy_delay (policy b) (of_nat (Suc i))) [0..<n]"
  using fail_times_from [of "succeed b" n] by (simp add: succeed_def)

theorem success_forgets_the_outage_witness:
  "fail_times 3 (succeed \<lparr>policy = default_policy, backoff_failures = 40\<rparr>)
     = map from_millis [500, 1000, 2000]"
proof -
  have valid: "validate_policy default_policy = Inr ()" "policy_max default_policy \<le> duration_max"
    by (simp_all add: default_policy_def validate_policy_def from_millis_def from_secs_def duration_max_def)
  have "map (policy_delay default_policy) [1, 2, 3] = map from_millis [500, 1000, 2000]"
    by (simp add: policy_delay_valid [OF valid])
      (simp add: capped_exponential_def default_policy_def from_millis_def from_secs_def)
  then show ?thesis
    using success_forgets_the_outage [of 3 "\<lparr>policy = default_policy, backoff_failures = 40\<rparr>"]
    by (simp add: upt_rec)
qed

text \<open>
  The ceiling is not always reached: a one-nanosecond first delay with a ceiling of one hour
  saturates at \<open>u32::MAX\<close> nanoseconds, about 4.3 seconds, however long the outage lasts.
\<close>

lemma delay_may_saturate_below_ceiling:
  "policy_delay \<lparr>policy_initial = 1, policy_max = from_secs 3600, policy_multiplier = 2\<rparr> k
     \<le> 2 ^ 32 - 1"
proof (cases "k = 0")
  case True
  then show ?thesis by (simp add: policy_delay_def checked_sub_def)
next
  case False
  let ?p = "\<lparr>policy_initial = 1, policy_max = from_secs 3600, policy_multiplier = 2\<rparr>"
  have "validate_policy ?p = Inr ()" "policy_max ?p \<le> duration_max"
    by (simp_all add: validate_policy_def from_secs_def duration_max_def)
  from policy_delay_valid [OF this] False show ?thesis by (simp add: capped_exponential_def)
qed

end
