(* ===== verification/Lifecycle.thy ===== *)
theory Lifecycle
  imports Gateway_Prelude
begin

text \<open>
  The drain state of the process, \<open>crates/gateway/src/shutdown.rs\<close>.  The methods of
  \<open>Lifecycle\<close> are definitions on its atomics.  Since requests, the drain and the waiters run
  concurrently, the step relation interleaves their atomic accesses one by one: \<open>admit\<close> is a
  load of the phase and a later \<open>fetch_add\<close>, and every announcement is a step of its own after
  the store it announces.  The version of the \<open>watch\<close> channel counts the announcements, and a
  receiver's \<open>changed()\<close> returns exactly when that version is not the one it has seen.
\<close>

section \<open>Phases\<close>

datatype phase = Serving | Draining | Closing

fun phase_as_str :: "phase \<Rightarrow> string" where
  "phase_as_str Serving = ''serving''"
| "phase_as_str Draining = ''draining''"
| "phase_as_str Closing = ''closing''"

definition from_code :: "u8 \<Rightarrow> phase" where
  "from_code c = (if c = 0 then Serving else if c = 1 then Draining else Closing)"

fun code :: "phase \<Rightarrow> u8" where
  "code Serving = 0"
| "code Draining = 1"
| "code Closing = 2"

text \<open>\<open>derive(PartialOrd, Ord)\<close>: declaration order.\<close>

instantiation phase :: linorder
begin

definition less_eq_phase :: "phase \<Rightarrow> phase \<Rightarrow> bool" where
  "less_eq_phase a b \<longleftrightarrow> code a \<le> code b"

definition less_phase :: "phase \<Rightarrow> phase \<Rightarrow> bool" where
  "less_phase a b \<longleftrightarrow> code a < code b"

instance
proof
  fix a b :: phase
  show "a \<le> b \<Longrightarrow> b \<le> a \<Longrightarrow> a = b"
    by (cases a; cases b) (simp_all add: less_eq_phase_def word_le_nat_alt)
qed (auto simp: less_eq_phase_def less_phase_def)

end

section \<open>The lifecycle and its methods\<close>

record lifecycle =
  phase_code :: u8
  in_flight :: u64
  abandoning :: bool
  changes :: nat

definition lifecycle_new :: lifecycle where
  "lifecycle_new = \<lparr>phase_code = code Serving, in_flight = 0, abandoning = False, changes = 0\<rparr>"

definition phase_of :: "lifecycle \<Rightarrow> phase" where
  "phase_of l = from_code (phase_code l)"

definition announce :: "lifecycle \<Rightarrow> lifecycle" where
  "announce l = l\<lparr>changes := Suc (changes l)\<rparr>"

definition fetch_add_in_flight :: "lifecycle \<Rightarrow> lifecycle" where
  "fetch_add_in_flight l = l\<lparr>in_flight := in_flight l + 1\<rparr>"

definition fetch_sub_in_flight :: "lifecycle \<Rightarrow> lifecycle" where
  "fetch_sub_in_flight l = l\<lparr>in_flight := in_flight l - 1\<rparr>"

definition admit :: "lifecycle \<Rightarrow> lifecycle option" where
  "admit l = (if phase_of l = Closing then None else Some (fetch_add_in_flight l))"

definition begin_drain :: "lifecycle \<Rightarrow> lifecycle" where
  "begin_drain l = (if phase_code l = code Serving then l\<lparr>phase_code := code Draining\<rparr> else l)"

definition store_closing :: "lifecycle \<Rightarrow> lifecycle" where
  "store_closing l = l\<lparr>phase_code := code Closing\<rparr>"

definition close :: "lifecycle \<Rightarrow> lifecycle" where
  "close l = announce (store_closing l)"

definition store_abandoning :: "lifecycle \<Rightarrow> lifecycle" where
  "store_abandoning l = l\<lparr>abandoning := True\<rparr>"

definition abandon :: "lifecycle \<Rightarrow> lifecycle" where
  "abandon l = announce (store_abandoning l)"

definition drop_admitted :: "lifecycle \<Rightarrow> lifecycle" where
  "drop_admitted l =
     (let l' = fetch_sub_in_flight l in if in_flight l = 1 then announce l' else l')"

section \<open>The plan of one termination\<close>

record plan =
  drain_grace :: duration
  deadline :: duration
  flush_timeout :: duration

definition plan_from_config :: "u64 \<Rightarrow> u64 \<Rightarrow> u64 \<Rightarrow> plan" where
  "plan_from_config drain_grace_ms deadline_ms flush_timeout_ms =
     \<lparr>drain_grace = from_millis (unat drain_grace_ms), deadline = from_millis (unat deadline_ms),
      flush_timeout = from_millis (unat flush_timeout_ms)\<rparr>"

definition settle_share :: "plan \<Rightarrow> duration" where
  "settle_share p = flush_timeout p div 2"

type_synonym resolved_plan = "plan option"

definition publish :: "resolved_plan \<Rightarrow> plan \<Rightarrow> resolved_plan" where
  "publish r p = (case r of None \<Rightarrow> Some p | Some q \<Rightarrow> Some q)"

definition resolved_or :: "resolved_plan \<Rightarrow> plan \<Rightarrow> plan" where
  "resolved_or r fallback = (case r of None \<Rightarrow> fallback | Some p \<Rightarrow> p)"

datatype outcome = Completed | Abandoned u64 | Failed string

fun outcome_as_str :: "outcome \<Rightarrow> string" where
  "outcome_as_str Completed = ''completed''"
| "outcome_as_str (Abandoned _) = ''abandoned''"
| "outcome_as_str (Failed _) = ''failed''"

fun finish_outcome :: "(string, unit) result \<Rightarrow> outcome" where
  "finish_outcome (Inr ()) = Completed"
| "finish_outcome (Inl e) = Failed e"

text \<open>
  The drain after its first signal: publish the plan, fail readiness, wait at most the grace
  window (cut short when the second signal arrives after \<open>second\<close>), close admission.  The
  result includes how long the window lasted.
\<close>

definition drain :: "lifecycle \<Rightarrow> plan \<Rightarrow> resolved_plan \<Rightarrow> duration option
    \<Rightarrow> lifecycle \<times> resolved_plan \<times> duration" where
  "drain l p resolved second =
     (let resolved' = publish resolved p;
          l1 = begin_drain l;
          waited = (if drain_grace p = 0 then 0
                    else case second of None \<Rightarrow> drain_grace p | Some s \<Rightarrow> min s (drain_grace p))
      in (close l1, resolved', waited))"

text \<open>
  \<open>serve_bounded\<close>: which future of the two races resolves first is the environment's choice.
  \<open>ServedBeforeClose\<close> is the server future winning the first \<open>select!\<close>; after the close the
  wait is bounded by the deadline, which the server future meets or does not.
\<close>

datatype serve_race = ServedBeforeClose "(string, unit) result" | ServedAfterClose duration "(string, unit) result" | NeverServed

definition serve_bounded :: "lifecycle \<Rightarrow> resolved_plan \<Rightarrow> plan \<Rightarrow> serve_race \<Rightarrow> lifecycle \<times> outcome" where
  "serve_bounded l resolved boot race =
     (let bound = deadline (resolved_or resolved boot);
          expired = (abandon l, Abandoned (in_flight l))
      in case race of
           ServedBeforeClose r \<Rightarrow> (l, finish_outcome r)
         | ServedAfterClose after r \<Rightarrow> (if after \<le> bound then (l, finish_outcome r) else expired)
         | NeverServed \<Rightarrow> expired)"

section \<open>Interleavings\<close>

text \<open>What a waiter waits for: \<open>closed()\<close>, \<open>abandoned()\<close> and the idle wait of \<open>quiesce\<close>.\<close>

datatype wait_kind = WaitClosed | WaitAbandoned | WaitIdle

fun reached :: "wait_kind \<Rightarrow> lifecycle \<Rightarrow> bool" where
  "reached WaitClosed l = (phase_of l = Closing)"
| "reached WaitAbandoned l = abandoning l"
| "reached WaitIdle l = (in_flight l = 0)"

text \<open>
  A waiter in \<open>wait_for\<close>: about to test its condition, or asleep in \<open>changed()\<close>, with the
  version its receiver has seen.
\<close>

datatype waiter = Checking nat | Sleeping nat

record world =
  life :: lifecycle
  entering :: nat \<comment> \<open>admissions between the load of the phase and the \<open>fetch_add\<close>\<close>
  guards :: nat \<comment> \<open>\<open>Admitted\<close> guards alive\<close>
  owed :: nat \<comment> \<open>announcements between their store and \<open>send_modify\<close>\<close>
  waiters :: "nat \<rightharpoonup> wait_kind \<times> waiter"

definition world_new :: world where
  "world_new = \<lparr>life = lifecycle_new, entering = 0, guards = 0, owed = 0, waiters = Map.empty\<rparr>"

text \<open>
  The only assumption on the environment is in \<open>admit_enter\<close>: fewer than \<open>2 ^ 64 - 1\<close> requests
  are in flight at once.
\<close>

inductive lifecycle_step :: "world \<Rightarrow> world \<Rightarrow> bool" where
  admit_check:
    "phase_of (life w) \<noteq> Closing \<Longrightarrow> lifecycle_step w (w\<lparr>entering := Suc (entering w)\<rparr>)"
| admit_enter:
    "entering w = Suc n \<Longrightarrow> Suc (guards w) < 2 ^ 64 \<Longrightarrow>
     lifecycle_step w (w\<lparr>life := fetch_add_in_flight (life w), entering := n, guards := Suc (guards w)\<rparr>)"
| release:
    "guards w = Suc n \<Longrightarrow>
     lifecycle_step w (w\<lparr>life := fetch_sub_in_flight (life w), guards := n,
                         owed := owed w + (if in_flight (life w) = 1 then 1 else 0)\<rparr>)"
| step_begin_drain: "lifecycle_step w (w\<lparr>life := begin_drain (life w)\<rparr>)"
| step_close: "lifecycle_step w (w\<lparr>life := store_closing (life w), owed := Suc (owed w)\<rparr>)"
| step_abandon: "lifecycle_step w (w\<lparr>life := store_abandoning (life w), owed := Suc (owed w)\<rparr>)"
| step_announce:
    "owed w = Suc n \<Longrightarrow> lifecycle_step w (w\<lparr>life := announce (life w), owed := n\<rparr>)"
| subscribe:
    "waiters w i = None \<Longrightarrow>
     lifecycle_step w (w\<lparr>waiters := (waiters w)(i \<mapsto> (k, Checking (changes (life w))))\<rparr>)"
| check_done:
    "waiters w i = Some (k, Checking v) \<Longrightarrow> reached k (life w) \<Longrightarrow>
     lifecycle_step w (w\<lparr>waiters := (waiters w)(i := None)\<rparr>)"
| check_sleep:
    "waiters w i = Some (k, Checking v) \<Longrightarrow> \<not> reached k (life w) \<Longrightarrow>
     lifecycle_step w (w\<lparr>waiters := (waiters w)(i \<mapsto> (k, Sleeping v))\<rparr>)"
| wake:
    "waiters w i = Some (k, Sleeping v) \<Longrightarrow> v \<noteq> changes (life w) \<Longrightarrow>
     lifecycle_step w (w\<lparr>waiters := (waiters w)(i \<mapsto> (k, Checking (changes (life w))))\<rparr>)"

section \<open>Invariants\<close>

lemmas lifecycle_ops = announce_def fetch_add_in_flight_def fetch_sub_in_flight_def begin_drain_def
  store_closing_def store_abandoning_def phase_of_def from_code_def

fun seen :: "waiter \<Rightarrow> nat" where
  "seen (Checking v) = v"
| "seen (Sleeping v) = v"

definition counts_ok :: "world \<Rightarrow> bool" where
  "counts_ok w \<longleftrightarrow> in_flight (life w) = of_nat (guards w) \<and> guards w < 2 ^ 64"

text \<open>
  A waiter that is asleep and has seen every announcement waits for something that has not
  happened, or the announcement of it is still to come.
\<close>

definition wakeups_ok :: "world \<Rightarrow> bool" where
  "wakeups_ok w \<longleftrightarrow>
     (\<forall>i k x. waiters w i = Some (k, x) \<longrightarrow> seen x \<le> changes (life w))
     \<and> (\<forall>i k v. waiters w i = Some (k, Sleeping v) \<longrightarrow> v = changes (life w) \<longrightarrow>
          reached k (life w) \<longrightarrow> 0 < owed w)"

lemma of_nat_u64_eq_0: "n < 2 ^ 64 \<Longrightarrow> (of_nat n = (0 :: u64)) = (n = 0)"
  by (auto simp: word_of_nat_eq_0_iff dest: dvd_imp_le)

lemma of_nat_u64_Suc: "Suc n < 2 ^ 64 \<Longrightarrow> of_nat n + 1 \<noteq> (0 :: u64)"
  using of_nat_u64_eq_0 [of "Suc n"] by (simp add: add.commute)

lemma counts_ok_step: "lifecycle_step w w' \<Longrightarrow> counts_ok w \<Longrightarrow> counts_ok w'"
  by (induction rule: lifecycle_step.induct) (auto simp: counts_ok_def lifecycle_ops)

text \<open>No step makes a condition true without owing the announcement of it.\<close>

lemma reached_is_owed:
  assumes "lifecycle_step w w'" and "counts_ok w" and "reached k (life w')"
    and "\<not> reached k (life w)"
  shows "owed w < owed w' \<and> changes (life w') = changes (life w)"
  using assms
proof (induction rule: lifecycle_step.induct)
  case (admit_enter w n)
  then show ?case
    by (cases k)
      (auto simp: counts_ok_def lifecycle_ops of_nat_u64_Suc)
next
  case (release w n)
  then show ?case by (cases k) (auto simp: counts_ok_def lifecycle_ops of_nat_u64_eq_0 split: if_splits)
next
  case (step_begin_drain w)
  then show ?case by (cases k) (auto simp: lifecycle_ops split: if_splits)
qed (cases k; auto simp: lifecycle_ops)+

lemma wakeups_ok_step:
  assumes "lifecycle_step w w'" and "counts_ok w" and "wakeups_ok w"
  shows "wakeups_ok w'"
proof -
  note owed = reached_is_owed [OF assms(1,2)]
  have old: "seen x \<le> changes (life w)" if "waiters w i = Some (k, x)" for i k x
    using assms(3) that by (auto simp: wakeups_ok_def)
  have asleep: "0 < owed w"
    if "waiters w i = Some (k, Sleeping (changes (life w)))" "reached k (life w)" for i k
    using assms(3) that by (auto simp: wakeups_ok_def)
  from assms(1) show ?thesis
  proof cases
    case (step_announce n)
    then show ?thesis
      using old by (fastforce simp: wakeups_ok_def announce_def dest: Suc_leD)
  next
    case (subscribe i k)
    then show ?thesis using old asleep by (auto simp: wakeups_ok_def)
  next
    case (check_done i k v)
    then show ?thesis using old asleep by (auto simp: wakeups_ok_def)
  next
    case (check_sleep i k v)
    then show ?thesis using old asleep by (fastforce simp: wakeups_ok_def)
  next
    case (wake i k v)
    then show ?thesis using old asleep by (auto simp: wakeups_ok_def)
  qed (use old asleep owed in \<open>fastforce simp: wakeups_ok_def lifecycle_ops split: if_splits\<close>)+
qed

interpretation lifecycle: inductive_invariant lifecycle_step "\<lambda>w. counts_ok w \<and> wakeups_ok w"
  by unfold_locales (blast intro: counts_ok_step wakeups_ok_step)

lemma world_new_ok: "counts_ok world_new \<and> wakeups_ok world_new"
  by (simp add: world_new_def counts_ok_def wakeups_ok_def lifecycle_new_def)

section \<open>Properties\<close>

text \<open>
  C16. No wake-up is lost, in any interleaving: the in-flight count is the number of live
  guards, and once the announcements under way have been sent, a waiter that sleeps although
  what it waits for (close, abandon, idle) has happened is not stuck, it can wake and test again.
\<close>

theorem no_lost_wakeup:
  "reaches lifecycle_step world_new w \<longrightarrow>
     unat (in_flight (life w)) = guards w
     \<and> (\<forall>i k v. waiters w i = Some (k, Sleeping v) \<and> reached k (life w) \<and> owed w = 0 \<longrightarrow>
          (\<exists>w'. lifecycle_step w w' \<and> life w' = life w
                \<and> waiters w' i = Some (k, Checking (changes (life w)))))"
proof (intro impI conjI allI)
  assume "reaches lifecycle_step world_new w"
  then have ok: "counts_ok w" "wakeups_ok w"
    using lifecycle.reachable_good world_new_ok by blast+
  then show "unat (in_flight (life w)) = guards w"
    by (simp add: counts_ok_def unat_of_nat)
  fix i k v
  assume a: "waiters w i = Some (k, Sleeping v) \<and> reached k (life w) \<and> owed w = 0"
  then have "v \<noteq> changes (life w)" using ok(2) by (auto simp: wakeups_ok_def)
  with a have "lifecycle_step w (w\<lparr>waiters := (waiters w)(i \<mapsto> (k, Checking (changes (life w))))\<rparr>)"
    by (intro lifecycle_step.wake) auto
  then show "\<exists>w'. lifecycle_step w w' \<and> life w' = life w
      \<and> waiters w' i = Some (k, Checking (changes (life w)))"
    by fastforce
qed

text \<open>A run in which a waiter falls asleep before the close and the close is announced.\<close>

lemma asleep_then_closed:
  "reaches lifecycle_step world_new
     (world_new\<lparr>life := close lifecycle_new, waiters := [0 \<mapsto> (WaitClosed, Sleeping 0)]\<rparr>)"
proof -
  let ?w0 = world_new
  let ?w1 = "?w0\<lparr>waiters := [0 \<mapsto> (WaitClosed, Checking 0)]\<rparr>"
  let ?w2 = "?w0\<lparr>waiters := [0 \<mapsto> (WaitClosed, Sleeping 0)]\<rparr>"
  let ?w3 = "?w2\<lparr>life := store_closing lifecycle_new, owed := 1\<rparr>"
  note run_step = reaches_step [where step = lifecycle_step]
  have s1: "lifecycle_step ?w0 ?w1"
    using subscribe [of ?w0 0 WaitClosed] by (simp add: world_new_def lifecycle_new_def)
  have s2: "lifecycle_step ?w1 ?w2"
    using check_sleep [of ?w1 0 WaitClosed 0] by (simp add: world_new_def lifecycle_new_def lifecycle_ops)
  have s3: "lifecycle_step ?w2 ?w3" using step_close [of ?w2] by (simp add: world_new_def)
  have s4: "lifecycle_step ?w3 (?w2\<lparr>life := close lifecycle_new\<rparr>)"
    using step_announce [of ?w3 0] by (simp add: world_new_def close_def)
  have "reaches lifecycle_step ?w0 (?w2\<lparr>life := close lifecycle_new\<rparr>)"
    by (rule run_step [OF run_step [OF run_step [OF run_step [OF reaches_refl s1] s2] s3] s4])
  then show ?thesis by (simp add: world_new_def)
qed

theorem no_lost_wakeup_witness:
  "let w = world_new\<lparr>life := close lifecycle_new, waiters := [0 \<mapsto> (WaitClosed, Sleeping 0)]\<rparr> in
   reaches lifecycle_step world_new w
   \<and> (\<exists>w'. lifecycle_step w w' \<and> waiters w' 0 = Some (WaitClosed, Checking 1))"
proof -
  let ?w = "world_new\<lparr>life := close lifecycle_new, waiters := [0 \<mapsto> (WaitClosed, Sleeping 0)]\<rparr>"
  have "waiters ?w 0 = Some (WaitClosed, Sleeping 0)" "reached WaitClosed (life ?w)" "owed ?w = 0"
    "changes (life ?w) = 1"
    by (simp_all add: world_new_def close_def lifecycle_new_def lifecycle_ops)
  with asleep_then_closed no_lost_wakeup [of ?w] show ?thesis by (metis (no_types, lifting))
qed

lemma phase_step: "lifecycle_step w w' \<Longrightarrow> phase_of (life w) \<le> phase_of (life w')"
  by (induction rule: lifecycle_step.induct)
    (auto simp: lifecycle_ops less_eq_phase_def word_le_nat_alt)

lemma closed_step:
  "lifecycle_step w w' \<Longrightarrow> phase_of (life w) = Closing \<Longrightarrow>
     guards w' + entering w' \<le> guards w + entering w \<and> entering w' \<le> entering w"
  by (induction rule: lifecycle_step.induct) auto

lemma Closing_top: "Closing \<le> p \<Longrightarrow> p = Closing"
  by (cases p) (simp_all add: less_eq_phase_def word_le_nat_alt)

text \<open>
  C22. The phase is monotone in every run, whatever signals and requests interleave; and once
  admission is closed no request is admitted any more but the ones that had read the phase
  before the close, so the work left can only shrink.
\<close>

theorem phase_never_goes_back:
  "reaches lifecycle_step w w' \<longrightarrow>
     phase_of (life w) \<le> phase_of (life w')
     \<and> (phase_of (life w) = Closing \<longrightarrow>
          admit (life w') = None
          \<and> guards w' + entering w' \<le> guards w + entering w \<and> entering w' \<le> entering w)"
proof
  assume "reaches lifecycle_step w w'"
  then show "phase_of (life w) \<le> phase_of (life w')
     \<and> (phase_of (life w) = Closing \<longrightarrow>
          admit (life w') = None
          \<and> guards w' + entering w' \<le> guards w + entering w \<and> entering w' \<le> entering w)"
  proof (induction rule: reaches.induct)
    case (reaches_step s t)
    then have "phase_of (life s) \<le> phase_of (life t)" by (blast intro: phase_step)
    with reaches_step closed_step [of s t] show ?case
      by (auto simp: admit_def split: if_splits dest!: Closing_top intro: order_trans)
  qed (simp add: admit_def)
qed

theorem phase_never_goes_back_witness:
  "let w = world_new\<lparr>life := close lifecycle_new, guards := 1, entering := 1\<rparr>;
       w' = w\<lparr>life := fetch_add_in_flight (close lifecycle_new), guards := Suc 1, entering := 0\<rparr> in
   reaches lifecycle_step w w' \<and> phase_of (life w) = Closing \<and> admit (life w') = None"
proof -
  let ?w = "world_new\<lparr>life := close lifecycle_new, guards := 1, entering := 1\<rparr>"
  let ?w' = "?w\<lparr>life := fetch_add_in_flight (close lifecycle_new), guards := Suc 1, entering := 0\<rparr>"
  have "lifecycle_step ?w ?w'"
    using admit_enter [of ?w 0] by (simp add: world_new_def)
  then have "reaches lifecycle_step ?w ?w'" by (blast intro: reaches_refl reaches_step)
  moreover have "phase_of (life ?w) = Closing"
    by (simp add: close_def lifecycle_ops world_new_def)
  ultimately show ?thesis using phase_never_goes_back [of ?w ?w'] by (simp add: Let_def)
qed

text \<open>
  A completed drain leaves a replica that refuses every request, under the plan published
  first: the bounds enforced after serving are those of the first signal whatever a later one
  or the boot configuration says, the wait before the close is at most the grace window, and
  the settlement waits may use at most half of the flush budget.
\<close>

theorem drain_closes_under_first_plan:
  "let (l', resolved, waited) = drain l p None second;
       (l'', resolved2, _) = drain l' q resolved second2 in
   admit l' = None \<and> admit l'' = None \<and> waited \<le> drain_grace p
   \<and> resolved_or resolved boot = p \<and> resolved_or resolved2 boot = p
   \<and> in_flight l' = in_flight l
   \<and> 2 * settle_share p \<le> flush_timeout p
   \<and> snd (serve_bounded l' resolved boot NeverServed) = Abandoned (in_flight l)"
  by (auto simp: drain_def publish_def resolved_or_def admit_def close_def lifecycle_ops
      settle_share_def serve_bounded_def Let_def split: option.splits)

text \<open>
  The load of the phase and the \<open>fetch_add\<close> of \<open>admit\<close> are two accesses: the count can be seen
  at zero after the close, and rise again afterwards.
\<close>

lemma idle_after_close_is_not_final:
  "\<exists>w w'. reaches lifecycle_step world_new w \<and> phase_of (life w) = Closing \<and> reached WaitIdle (life w)
     \<and> lifecycle_step w w' \<and> in_flight (life w') = 1"
proof -
  let ?w1 = "world_new\<lparr>entering := 1\<rparr>"
  let ?w2 = "?w1\<lparr>life := store_closing lifecycle_new, owed := 1\<rparr>"
  let ?w3 = "?w2\<lparr>life := fetch_add_in_flight (store_closing lifecycle_new), entering := 0, guards := 1\<rparr>"
  note run_step = reaches_step [where step = lifecycle_step]
  have s1: "lifecycle_step world_new ?w1"
    using admit_check [of world_new] by (simp add: world_new_def lifecycle_new_def lifecycle_ops)
  have s2: "lifecycle_step ?w1 ?w2" using step_close [of ?w1] by (simp add: world_new_def)
  have "lifecycle_step ?w2 ?w3" using admit_enter [of ?w2 0] by (simp add: world_new_def)
  moreover have "reaches lifecycle_step world_new ?w2"
    by (rule run_step [OF run_step [OF reaches_refl s1] s2])
  moreover have "phase_of (life ?w2) = Closing" "reached WaitIdle (life ?w2)" "in_flight (life ?w3) = 1"
    by (simp_all add: lifecycle_ops lifecycle_new_def)
  ultimately show ?thesis by blast
qed

end
