(* ===== verification/Admission.thy ===== *)
theory Admission
  imports Gateway_Prelude "HOL-Library.AList"
begin

text \<open>
  The admission gate, \<open>crates/gateway/src/admission.rs\<close>.  The counting semaphore is
  \<open>tokio::sync::Semaphore\<close>, which is not part of the repository: its operations are the
  argument \<open>api\<close>, and what the code relies on is the predicate \<open>semaphore_laws\<close>.  An admission
  in progress or an admitted request is a \<open>request\<close>: the capacity its \<open>AdmissionPermit\<close> holds
  and where in \<open>admit\<close> it is.  Requests run on several threads, so every access to shared
  state is a step of its own: one semaphore operation, one \<open>fetch_update\<close> of the queue depth or
  one section under the tenant table's lock.  The points of \<open>admit_point\<close> are the places between
  two such accesses, \<open>advance\<close> is the next access of one request, and \<open>admission_step\<close> interleaves
  them for any number of requests.  A request is dropped where it can be suspended: in the queue
  (a cancelled future) or once admitted (a finished response).  The metrics calls only observe.
\<close>

section \<open>Rejections\<close>

datatype request_kind = Buffered | Streamed

datatype admission_rejection =
    Tenant
  | TenantCapacity
  | Streams
  | Global
  | QueueFull
  | QueueTimeout
  | Settlement

fun rejection_code :: "admission_rejection \<Rightarrow> string" where
  "rejection_code Tenant = ''tenant_concurrency_exceeded''"
| "rejection_code TenantCapacity = ''admission_tenant_capacity_exhausted''"
| "rejection_code Streams = ''stream_capacity_exhausted''"
| "rejection_code Global = ''gateway_overloaded''"
| "rejection_code QueueFull = ''admission_queue_full''"
| "rejection_code QueueTimeout = ''admission_queue_timeout''"
| "rejection_code Settlement = ''settlement_capacity_exhausted''"

definition is_caller_limit :: "admission_rejection \<Rightarrow> bool" where
  "is_caller_limit r \<longleftrightarrow> r = Tenant"

fun retry_after_seconds :: "admission_rejection \<Rightarrow> nat option" where
  "retry_after_seconds TenantCapacity = None"
| "retry_after_seconds _ = Some 1"

fun scope :: "admission_rejection \<Rightarrow> string" where
  "scope Tenant = ''tenant''"
| "scope TenantCapacity = ''tenant''"
| "scope Streams = ''stream''"
| "scope Global = ''request''"
| "scope QueueFull = ''queue''"
| "scope QueueTimeout = ''queue''"
| "scope Settlement = ''settlement''"

section \<open>Limits\<close>

record admission_config =
  cfg_max_request_bytes :: nat
  cfg_max_in_flight :: nat
  cfg_max_in_flight_streams :: nat
  cfg_max_in_flight_streams_explicit :: bool
  cfg_max_in_flight_per_tenant :: nat
  cfg_max_in_flight_per_tenant_explicit :: bool
  cfg_max_tenants :: nat
  cfg_queue_capacity :: nat
  cfg_queue_wait_ms :: nat
  cfg_max_stream_duration_ms :: nat
  cfg_max_prompt_tokens :: nat
  cfg_max_output_tokens :: nat
  cfg_max_stream_bytes :: nat
  cfg_max_pending_settlements :: nat
  cfg_max_pending_settlements_explicit :: bool
  cfg_max_in_flight_settlements :: nat
  cfg_settlement_queue_wait_ms :: nat
  cfg_settlement_timeout_ms :: nat

record admission_limits =
  max_request_bytes :: nat
  max_in_flight :: "nat option"
  max_in_flight_streams :: "nat option"
  max_in_flight_per_tenant :: "nat option"
  max_tenants :: nat
  queue_capacity :: "nat option"
  queue_wait :: duration
  max_stream_duration :: "duration option"
  max_prompt_tokens :: "nat option"
  max_output_tokens :: "nat option"
  max_stream_bytes :: "nat option"

definition bound :: "nat \<Rightarrow> nat option" where
  "bound n = (if 0 < n then Some n else None)"

definition limits_from_config :: "admission_config \<Rightarrow> admission_limits" where
  "limits_from_config c =
     \<lparr>max_request_bytes = cfg_max_request_bytes c,
      max_in_flight = bound (cfg_max_in_flight c),
      max_in_flight_streams = bound (cfg_max_in_flight_streams c),
      max_in_flight_per_tenant = bound (cfg_max_in_flight_per_tenant c),
      max_tenants = cfg_max_tenants c,
      queue_capacity = bound (cfg_queue_capacity c),
      queue_wait = from_millis (cfg_queue_wait_ms c),
      max_stream_duration = (if 0 < cfg_max_stream_duration_ms c
                             then Some (from_millis (cfg_max_stream_duration_ms c)) else None),
      max_prompt_tokens = bound (cfg_max_prompt_tokens c),
      max_output_tokens = bound (cfg_max_output_tokens c),
      max_stream_bytes = bound (cfg_max_stream_bytes c)\<rparr>"

section \<open>The semaphore\<close>

record 's semaphore_api =
  sem_new :: "nat \<Rightarrow> 's"
  sem_try_acquire :: "'s \<Rightarrow> 's option" \<comment> \<open>\<open>try_acquire_owned\<close>: \<open>None\<close> is no permit left\<close>
  sem_release :: "'s \<Rightarrow> 's" \<comment> \<open>an \<open>OwnedSemaphorePermit\<close> is dropped\<close>
  sem_available :: "'s \<Rightarrow> nat" \<comment> \<open>\<open>available_permits\<close>\<close>

definition semaphore_laws :: "'s semaphore_api \<Rightarrow> bool" where
  "semaphore_laws api \<longleftrightarrow>
     (\<forall>n. sem_available api (sem_new api n) = n)
     \<and> (\<forall>s. sem_try_acquire api s = None \<longleftrightarrow> sem_available api s = 0)
     \<and> (\<forall>s s'. sem_try_acquire api s = Some s' \<longrightarrow> sem_available api s = Suc (sem_available api s'))
     \<and> (\<forall>s. sem_available api (sem_release api s) = Suc (sem_available api s))"

section \<open>The tenant table\<close>

record tenant_table =
  tenant_limit :: "nat option"
  table_max_tenants :: nat
  active :: "(string \<times> nat) list"

definition reserve ::
  "tenant_table \<Rightarrow> string \<Rightarrow> tenant_table \<times> (admission_rejection, string option) result" where
  "reserve tt tenant =
     (case tenant_limit tt of
        None \<Rightarrow> (tt, Inr None)
      | Some limit \<Rightarrow>
          (if map_of (active tt) tenant = None \<and> table_max_tenants tt \<le> length (active tt)
           then (tt, Inl TenantCapacity)
           else
             (let entries = (case map_of (active tt) tenant of
                               Some _ \<Rightarrow> active tt | None \<Rightarrow> AList.update tenant 0 (active tt));
                  in_flight = the (map_of entries tenant)
              in if limit \<le> in_flight
                 then (tt\<lparr>active := (if in_flight = 0 then AList.delete tenant entries else entries)\<rparr>,
                       Inl Tenant)
                 else (tt\<lparr>active := AList.update tenant (in_flight + 1) entries\<rparr>, Inr (Some tenant)))))"

definition tenant_release :: "tenant_table \<Rightarrow> string \<Rightarrow> tenant_table" where
  "tenant_release tt tenant =
     (case map_of (active tt) tenant of
        None \<Rightarrow> tt
      | Some in_flight \<Rightarrow>
          tt\<lparr>active := (if in_flight - 1 = 0 then AList.delete tenant (active tt)
                        else AList.update tenant (in_flight - 1) (active tt))\<rparr>)"

section \<open>The queue\<close>

record 's queue_state =
  slots :: 's
  current :: u64
  capacity :: u64

definition queue_new :: "'s semaphore_api \<Rightarrow> nat \<Rightarrow> 's queue_state" where
  "queue_new api n = \<lparr>slots = sem_new api n, current = 0, capacity = of_nat n\<rparr>"

text \<open>
  \<open>QueueState::try_acquire\<close> is two accesses, a slot of the semaphore and then the depth; the drop
  of a \<open>QueuedRequest\<close> is two accesses too, the depth and then, when the field goes, its slot.
  The \<open>expect\<close>s on the depth are panics, the \<open>None\<close> of \<open>queue_count\<close> and \<open>queue_release\<close>.
\<close>

definition queue_slot :: "'s semaphore_api \<Rightarrow> 's queue_state \<Rightarrow> 's queue_state option" where
  "queue_slot api q = map_option (\<lambda>s. q\<lparr>slots := s\<rparr>) (sem_try_acquire api (slots q))"

definition queue_count :: "'s queue_state \<Rightarrow> 's queue_state option" where
  "queue_count q =
     (case checked_add (current q) 1 of
        None \<Rightarrow> None
      | Some next \<Rightarrow> if next \<le> capacity q then Some (q\<lparr>current := next\<rparr>) else None)"

definition queue_release :: "'s queue_state \<Rightarrow> 's queue_state option" where
  "queue_release q = map_option (\<lambda>n. q\<lparr>current := n\<rparr>) (checked_sub (current q) 1)"

definition queue_free_slot :: "'s semaphore_api \<Rightarrow> 's queue_state \<Rightarrow> 's queue_state" where
  "queue_free_slot api q = q\<lparr>slots := sem_release api (slots q)\<rparr>"

section \<open>The gate\<close>

record 's admission_control =
  limits :: admission_limits
  global :: "'s option"
  streams :: "'s option"
  queue :: "'s queue_state option"
  tenants :: tenant_table

definition control_new :: "'s semaphore_api \<Rightarrow> admission_limits \<Rightarrow> 's admission_control" where
  "control_new api l =
     \<lparr>limits = l,
      global = map_option (sem_new api) (max_in_flight l),
      streams = map_option (sem_new api) (max_in_flight_streams l),
      queue = map_option (queue_new api) (queue_capacity l),
      tenants = \<lparr>tenant_limit = max_in_flight_per_tenant l, table_max_tenants = max_tenants l,
                 active = []\<rparr>\<rparr>"

text \<open>
  Where a request is: before the global ceiling, before the queue's slot, before the queue's
  depth, waiting, leaving the queue (depth not yet given back), freeing its slot (depth given
  back), before the stream ceiling, admitted, or dropping its permit.  A request on its way out
  of the queue or of its permit carries how it ends: \<open>None\<close> is a dropped future or a finished
  response.
\<close>

datatype queue_exit = Onward | Ending "admission_rejection option"

datatype admit_point =
    AtGlobal
  | AtQueue
  | AtDepth
  | InQueue
  | Leaving queue_exit
  | Freeing queue_exit
  | AtStream
  | Done
  | Dropping "admission_rejection option"

fun owns_slot :: "admit_point \<Rightarrow> bool" where
  "owns_slot AtDepth = True"
| "owns_slot InQueue = True"
| "owns_slot (Leaving _) = True"
| "owns_slot (Freeing _) = True"
| "owns_slot _ = False"

fun in_depth :: "admit_point \<Rightarrow> bool" where
  "in_depth InQueue = True"
| "in_depth (Leaving _) = True"
| "in_depth _ = False"

record request =
  at :: admit_point
  kind :: request_kind
  permit_global :: bool
  permit_stream :: bool
  permit_tenant :: "string option"

datatype outcome = Proceed request | Refused admission_rejection | Gone

text \<open>
  The drop of an \<open>AdmissionPermit\<close>, one field at a time; when nothing is left the request ends.
\<close>

definition drop_permit ::
  "'s semaphore_api \<Rightarrow> 's admission_control \<Rightarrow> request \<Rightarrow> admission_rejection option
     \<Rightarrow> 's admission_control \<times> outcome" where
  "drop_permit api c r reason =
     (if permit_global r
      then (c\<lparr>global := map_option (sem_release api) (global c)\<rparr>, Proceed (r\<lparr>permit_global := False\<rparr>))
      else if permit_stream r
      then (c\<lparr>streams := map_option (sem_release api) (streams c)\<rparr>, Proceed (r\<lparr>permit_stream := False\<rparr>))
      else case permit_tenant r of
             Some t \<Rightarrow> (c\<lparr>tenants := tenant_release (tenants c) t\<rparr>, Proceed (r\<lparr>permit_tenant := None\<rparr>))
           | None \<Rightarrow> (c, case reason of Some e \<Rightarrow> Refused e | None \<Rightarrow> Gone))"

definition begin_admit ::
  "'s admission_control \<Rightarrow> string \<Rightarrow> request_kind \<Rightarrow> 's admission_control \<times> outcome" where
  "begin_admit c tenant k =
     (case reserve (tenants c) tenant of
        (tt, Inl e) \<Rightarrow> (c\<lparr>tenants := tt\<rparr>, Refused e)
      | (tt, Inr slot) \<Rightarrow>
          (c\<lparr>tenants := tt\<rparr>,
           Proceed \<lparr>at = AtGlobal, kind = k, permit_global = False, permit_stream = False,
                    permit_tenant = slot\<rparr>))"

text \<open>The first access of \<open>acquire_global\<close>, and the two of \<open>QueueState::try_acquire\<close>.\<close>

definition acquire_global ::
  "'s semaphore_api \<Rightarrow> 's admission_control \<Rightarrow> request \<Rightarrow> 's admission_control \<times> request" where
  "acquire_global api c r =
     (case global c of
        None \<Rightarrow> (c, r\<lparr>at := AtStream\<rparr>)
      | Some g \<Rightarrow>
          (case sem_try_acquire api g of
             Some g' \<Rightarrow> (c\<lparr>global := Some g'\<rparr>, r\<lparr>at := AtStream, permit_global := True\<rparr>)
           | None \<Rightarrow>
               (c, r\<lparr>at := (case queue c of None \<Rightarrow> Dropping (Some Global) | Some _ \<Rightarrow> AtQueue)\<rparr>)))"

definition enter_queue ::
  "'s semaphore_api \<Rightarrow> 's admission_control \<Rightarrow> request \<Rightarrow> ('s admission_control \<times> request) option" where
  "enter_queue api c r =
     (case (at r, queue c) of
        (AtQueue, Some q) \<Rightarrow>
          (case queue_slot api q of
             None \<Rightarrow> Some (c, r\<lparr>at := Dropping (Some QueueFull)\<rparr>)
           | Some q' \<Rightarrow> Some (c\<lparr>queue := Some q'\<rparr>, r\<lparr>at := AtDepth\<rparr>))
      | (AtDepth, Some q) \<Rightarrow>
          map_option (\<lambda>q'. (c\<lparr>queue := Some q'\<rparr>, r\<lparr>at := InQueue\<rparr>)) (queue_count q)
      | _ \<Rightarrow> Some (c, r))"

text \<open>How the timed wait on the semaphore ends.\<close>

datatype wait_end = Granted | GateClosed | Expired

text \<open>
  The end of the wait.  \<open>Granted\<close> takes a permit, so it is not available while there is none:
  then the wait goes on.
\<close>

definition end_wait ::
  "'s semaphore_api \<Rightarrow> 's admission_control \<Rightarrow> request \<Rightarrow> wait_end \<Rightarrow> 's admission_control \<times> request" where
  "end_wait api c r e =
     (case e of
        Granted \<Rightarrow>
          (case Option.bind (global c) (sem_try_acquire api) of
             None \<Rightarrow> (c, r)
           | Some g' \<Rightarrow> (c\<lparr>global := Some g'\<rparr>, r\<lparr>at := Leaving Onward, permit_global := True\<rparr>))
      | GateClosed \<Rightarrow> (c, r\<lparr>at := Leaving (Ending (Some Global))\<rparr>)
      | Expired \<Rightarrow> (c, r\<lparr>at := Leaving (Ending (Some QueueTimeout))\<rparr>))"

text \<open>
  The drop of the \<open>QueuedRequest\<close>: \<open>release\<close> takes the request out of the depth, then the field
  \<open>_slot\<close> is dropped and the request goes where the wait sent it.
\<close>

fun after_queue :: "queue_exit \<Rightarrow> admit_point" where
  "after_queue Onward = AtStream"
| "after_queue (Ending reason) = Dropping reason"

definition leave_queue ::
  "'s semaphore_api \<Rightarrow> 's admission_control \<Rightarrow> request \<Rightarrow> ('s admission_control \<times> request) option" where
  "leave_queue api c r =
     (case (at r, queue c) of
        (Leaving x, Some q) \<Rightarrow>
          map_option (\<lambda>q'. (c\<lparr>queue := Some q'\<rparr>, r\<lparr>at := Freeing x\<rparr>)) (queue_release q)
      | (Freeing x, Some q) \<Rightarrow>
          Some (c\<lparr>queue := Some (queue_free_slot api q)\<rparr>, r\<lparr>at := after_queue x\<rparr>)
      | _ \<Rightarrow> Some (c, r))"

definition acquire_stream ::
  "'s semaphore_api \<Rightarrow> 's admission_control \<Rightarrow> request \<Rightarrow> 's admission_control \<times> request" where
  "acquire_stream api c r =
     (case (kind r, streams c) of
        (Streamed, Some s) \<Rightarrow>
          (case sem_try_acquire api s of
             None \<Rightarrow> (c, r\<lparr>at := Dropping (Some Streams)\<rparr>)
           | Some s' \<Rightarrow> (c\<lparr>streams := Some s'\<rparr>, r\<lparr>at := Done, permit_stream := True\<rparr>))
      | _ \<Rightarrow> (c, r\<lparr>at := Done\<rparr>))"

text \<open>
  Dropping the future of \<open>admit\<close> where it is suspended, or the permit of an admitted request;
  the drop handlers then run as steps of their own.
\<close>

definition drop_request :: "request \<Rightarrow> request option" where
  "drop_request r =
     (case at r of
        InQueue \<Rightarrow> Some (r\<lparr>at := Leaving (Ending None)\<rparr>)
      | Done \<Rightarrow> Some (r\<lparr>at := Dropping None\<rparr>)
      | _ \<Rightarrow> None)"

text \<open>The next access of one request; \<open>None\<close> is a panic.\<close>

definition advance ::
  "'s semaphore_api \<Rightarrow> 's admission_control \<Rightarrow> request \<Rightarrow> wait_end
     \<Rightarrow> ('s admission_control \<times> outcome) option" where
  "advance api c r e =
     (let go = (\<lambda>(c', r'). (c', Proceed r'))
      in case at r of
           AtGlobal \<Rightarrow> Some (go (acquire_global api c r))
         | AtQueue \<Rightarrow> map_option go (enter_queue api c r)
         | AtDepth \<Rightarrow> map_option go (enter_queue api c r)
         | InQueue \<Rightarrow> Some (go (end_wait api c r e))
         | Leaving x \<Rightarrow> map_option go (leave_queue api c r)
         | Freeing x \<Rightarrow> map_option go (leave_queue api c r)
         | AtStream \<Rightarrow> Some (go (acquire_stream api c r))
         | Done \<Rightarrow> Some (c, Proceed r)
         | Dropping reason \<Rightarrow> Some (drop_permit api c r reason))"

fun outcome_requests :: "outcome \<Rightarrow> request list" where
  "outcome_requests (Proceed r) = [r]"
| "outcome_requests (Refused e) = []"
| "outcome_requests Gone = []"

text \<open>The gate and the live requests, interleaved.\<close>

type_synonym 's gate = "'s admission_control \<times> request list"

inductive admission_step :: "'s semaphore_api \<Rightarrow> 's gate \<Rightarrow> 's gate \<Rightarrow> bool" for api where
  arrive:
    "begin_admit c tenant k = (c', out) \<Longrightarrow>
     admission_step api (c, rs) (c', outcome_requests out @ rs)"
| progress:
    "advance api c r e = Some (c', out) \<Longrightarrow>
     admission_step api (c, xs @ r # ys) (c', xs @ outcome_requests out @ ys)"
| dropped:
    "drop_request r = Some r' \<Longrightarrow>
     admission_step api (c, xs @ r # ys) (c, xs @ r' # ys)"

section \<open>What the gate accounts for\<close>

text \<open>A semaphore built for a limit accounts for \<open>held\<close> permits; no limit, no permit.\<close>

definition sem_ok :: "'s semaphore_api \<Rightarrow> nat option \<Rightarrow> 's option \<Rightarrow> nat \<Rightarrow> bool" where
  "sem_ok api limit s held \<longleftrightarrow>
     (case limit of
        None \<Rightarrow> s = None \<and> held = 0
      | Some n \<Rightarrow> (\<exists>x. s = Some x \<and> sem_available api x + held = n))"

text \<open>
  The queue accounts for \<open>held\<close> slots and \<open>depth\<close> counted requests: between its two accesses on
  the way in and on the way out, a request holds a slot and is not in the depth.
\<close>

definition queue_ok ::
  "'s semaphore_api \<Rightarrow> nat option \<Rightarrow> 's queue_state option \<Rightarrow> nat \<Rightarrow> nat \<Rightarrow> bool" where
  "queue_ok api limit q held depth \<longleftrightarrow>
     (case limit of
        None \<Rightarrow> q = None \<and> held = 0
      | Some n \<Rightarrow>
          n < 2 ^ 64
          \<and> (\<exists>x. q = Some x \<and> sem_available api (slots x) + held = n
                 \<and> unat (current x) = depth \<and> unat (capacity x) = n))"

text \<open>The table holds exactly the tenants with work in flight, with their counts.\<close>

definition tenants_ok :: "admission_limits \<Rightarrow> tenant_table \<Rightarrow> (string \<Rightarrow> nat) \<Rightarrow> bool" where
  "tenants_ok l tt held \<longleftrightarrow>
     tenant_limit tt = max_in_flight_per_tenant l \<and> table_max_tenants tt = max_tenants l
     \<and> distinct (map fst (active tt))
     \<and> length (active tt) \<le> max_tenants l
     \<and> (\<forall>t. map_of (active tt) t = (if held t = 0 then None else Some (held t)))
     \<and> (\<forall>t. case max_in_flight_per_tenant l of None \<Rightarrow> held t = 0 | Some n \<Rightarrow> held t \<le> n)"

definition holds :: "(request \<Rightarrow> bool) \<Rightarrow> request list \<Rightarrow> nat" where
  "holds P rs = length (filter P rs)"

definition tenant_holds :: "request list \<Rightarrow> string \<Rightarrow> nat" where
  "tenant_holds rs t = holds (\<lambda>r. permit_tenant r = Some t) rs"

abbreviation slot_holders :: "request list \<Rightarrow> nat" where
  "slot_holders \<equiv> holds (\<lambda>r. owns_slot (at r))"

abbreviation counted :: "request list \<Rightarrow> nat" where
  "counted \<equiv> holds (\<lambda>r. in_depth (at r))"

text \<open>Where a request can hold the global and the stream permit.\<close>

definition permits_ok :: "request \<Rightarrow> bool" where
  "permits_ok r \<longleftrightarrow>
     (permit_global r \<longrightarrow> at r \<notin> {AtGlobal, AtQueue, AtDepth, InQueue})
     \<and> (permit_stream r \<longrightarrow> at r = Done \<or> (\<exists>reason. at r = Dropping reason))"

definition gate_ok :: "'s semaphore_api \<Rightarrow> admission_limits \<Rightarrow> 's gate \<Rightarrow> bool" where
  "gate_ok api l w \<longleftrightarrow>
     (case w of (c, rs) \<Rightarrow>
        sem_ok api (max_in_flight l) (global c) (holds permit_global rs)
        \<and> sem_ok api (max_in_flight_streams l) (streams c) (holds permit_stream rs)
        \<and> queue_ok api (queue_capacity l) (queue c) (slot_holders rs) (counted rs)
        \<and> tenants_ok l (tenants c) (tenant_holds rs))
     \<and> list_all permits_ok (snd w)"

lemma holds_simps [simp]:
  "holds P [] = 0"
  "holds P (r # rs) = (if P r then 1 else 0) + holds P rs"
  "holds P (xs @ ys) = holds P xs + holds P ys"
  by (simp_all add: holds_def)

lemma semaphore_lawsD:
  assumes "semaphore_laws api"
  shows "sem_available api (sem_new api n) = n"
    and "sem_try_acquire api s = None \<longleftrightarrow> sem_available api s = 0"
    and "sem_try_acquire api s = Some s' \<Longrightarrow> sem_available api s = Suc (sem_available api s')"
    and "sem_available api (sem_release api s) = Suc (sem_available api s)"
  using assms by (simp_all add: semaphore_laws_def)

lemma sem_ok_acquire:
  "semaphore_laws api \<Longrightarrow> sem_ok api l (Some s) n \<Longrightarrow> sem_try_acquire api s = Some s' \<Longrightarrow>
     sem_ok api l (Some s') (Suc n)"
  by (auto simp: sem_ok_def dest: semaphore_lawsD split: option.splits)

lemma sem_ok_release:
  "semaphore_laws api \<Longrightarrow> sem_ok api l s (Suc n) \<Longrightarrow> sem_ok api l (map_option (sem_release api) s) n"
  by (auto simp: sem_ok_def semaphore_lawsD split: option.splits)

lemma in_depth_owns: "in_depth p \<Longrightarrow> owns_slot p"
  by (cases p) simp_all

lemma counted_le: "counted rs \<le> slot_holders rs"
  by (induction rs) (auto dest: in_depth_owns)

lemma queue_ok_slot:
  assumes "semaphore_laws api" and "queue_ok api l (Some q) n d" and "queue_slot api q = Some q'"
  shows "queue_ok api l (Some q') (Suc n) d"
  using assms by (auto simp: queue_ok_def queue_slot_def dest: semaphore_lawsD split: option.splits)

text \<open>A request that owns a slot and is not counted yet fits the depth.\<close>

lemma queue_ok_count:
  assumes "queue_ok api l (Some q) n d" and "d < n"
  obtains q' where "queue_count q = Some q'" "queue_ok api l (Some q') n (Suc d)"
proof -
  obtain m where l: "l = Some m" "m < 2 ^ 64" and q: "sem_available api (slots q) + n = m"
    "unat (current q) = d" "unat (capacity q) = m"
    using assms(1) by (auto simp: queue_ok_def split: option.splits)
  have "unat (current q) + unat (1 :: u64) < 2 ^ 64" using q l(2) assms(2) by simp
  then have nxt: "checked_add (current q) 1 = Some (current q + 1)" "unat (current q + 1) = Suc d"
    using q by (simp_all add: checked_add_def unat_word_ariths)
  then have "current q + 1 \<le> capacity q" using q assms(2) by (simp add: word_le_nat_alt)
  then show thesis
    using nxt l q
    by (intro that [of "q\<lparr>current := current q + 1\<rparr>"]) (simp_all add: queue_count_def queue_ok_def)
qed

lemma queue_ok_release:
  assumes "queue_ok api l (Some q) n (Suc d)"
  obtains q' where "queue_release q = Some q'" "queue_ok api l (Some q') n d"
proof -
  obtain m where l: "l = Some m" "m < 2 ^ 64" and q: "sem_available api (slots q) + n = m"
    "unat (current q) = Suc d" "unat (capacity q) = m"
    using assms by (auto simp: queue_ok_def split: option.splits)
  have "checked_sub (current q) 1 \<noteq> None" using q by (simp add: checked_sub_None)
  then obtain k where k: "checked_sub (current q) 1 = Some k" by auto
  with q have "unat k = d" by (auto dest!: checked_sub_Some)
  with k l q show thesis
    by (intro that [of "q\<lparr>current := k\<rparr>"]) (simp_all add: queue_release_def queue_ok_def)
qed

lemma queue_ok_free:
  "semaphore_laws api \<Longrightarrow> queue_ok api l (Some q) (Suc n) d \<Longrightarrow>
     queue_ok api l (Some (queue_free_slot api q)) n d"
  by (auto simp: queue_ok_def queue_free_slot_def semaphore_lawsD(4) split: option.splits)

lemma queue_ok_held:
  assumes "queue_ok api l q (Suc n) d"
  obtains x where "q = Some x"
  using assms by (auto simp: queue_ok_def split: option.splits)

section \<open>The tenant table\<close>

lemma length_update:
  "length (AList.update k v al) = (if map_of al k = None then Suc (length al) else length al)"
  by (induction al) auto

text \<open>Writing the right entry for one tenant keeps the table right for its new count.\<close>

lemma tenants_ok_update:
  assumes "tenants_ok l tt held" and "distinct (map fst entries)" and "length entries \<le> max_tenants l"
    and "map_of entries = (map_of (active tt))(tenant := (if n = 0 then None else Some n))"
    and "case max_in_flight_per_tenant l of None \<Rightarrow> n = 0 | Some m \<Rightarrow> n \<le> m"
  shows "tenants_ok l (tt\<lparr>active := entries\<rparr>) (held(tenant := n))"
  using assms by (cases "max_in_flight_per_tenant l") (auto simp: tenants_ok_def)

lemma reserve_ok:
  assumes "tenants_ok l tt held" and "reserve tt tenant = (tt', res)"
  shows "case res of
      Inl e \<Rightarrow> tenants_ok l tt' held
    | Inr slot \<Rightarrow> tenants_ok l tt' (\<lambda>t. held t + (if slot = Some t then 1 else 0))"
proof (cases "tenant_limit tt")
  case None
  with assms show ?thesis by (auto simp: reserve_def)
next
  case (Some limit)
  have look: "map_of (active tt) t = (if held t = 0 then None else Some (held t))" for t
    using assms(1) by (simp add: tenants_ok_def)
  have lim: "max_in_flight_per_tenant l = Some limit" "table_max_tenants tt = max_tenants l"
    and fits: "distinct (map fst (active tt))" "length (active tt) \<le> max_tenants l"
    using assms(1) Some by (auto simp: tenants_ok_def)
  note update = tenants_ok_update [OF assms(1), where tenant = tenant]
  have plus: "(\<lambda>t. held t + (if Some tenant = Some t then 1 else 0)) = held(tenant := Suc (held tenant))"
    by auto
  consider (full) "held tenant = 0" "max_tenants l \<le> length (active tt)"
    | (zero) "held tenant = 0" "length (active tt) < max_tenants l" "limit = 0"
    | (first) "held tenant = 0" "length (active tt) < max_tenants l" "0 < limit"
    | (ceiling) "held tenant \<noteq> 0" "limit \<le> held tenant"
    | (more) "held tenant \<noteq> 0" "held tenant < limit"
    by linarith
  then show ?thesis
  proof cases
    case full
    then show ?thesis using assms Some lim by (auto simp: reserve_def look)
  next
    case zero
    let ?entries = "AList.delete tenant (AList.update tenant 0 (active tt))"
    have "tenants_ok l (tt\<lparr>active := ?entries\<rparr>) (held(tenant := 0))"
      using zero fits lim
      by (intro update) (auto simp: delete_conv' update_conv' distinct_update distinct_delete length_update
          look intro: order_trans [OF length_delete_le])
    moreover have "held(tenant := 0) = held" using zero by auto
    ultimately show ?thesis using zero assms(2) Some lim by (auto simp: reserve_def look update_conv' Let_def)
  next
    case first
    let ?entries = "AList.update tenant (Suc 0) (AList.update tenant 0 (active tt))"
    have "tenants_ok l (tt\<lparr>active := ?entries\<rparr>) (held(tenant := Suc (held tenant)))"
      using first fits lim
      by (intro update) (auto simp: update_conv' distinct_update length_update look)
    then show ?thesis
      using first assms(2) Some lim unfolding plus [symmetric]
      by (auto simp: reserve_def look update_conv' Let_def)
  next
    case ceiling
    then show ?thesis using assms Some by (auto simp: reserve_def look Let_def)
  next
    case more
    let ?entries = "AList.update tenant (Suc (held tenant)) (active tt)"
    have "tenants_ok l (tt\<lparr>active := ?entries\<rparr>) (held(tenant := Suc (held tenant)))"
      using more fits lim
      by (intro update) (auto simp: update_conv' distinct_update length_update look)
    then show ?thesis
      using more assms(2) Some unfolding plus [symmetric] by (auto simp: reserve_def look Let_def)
  qed
qed

lemma tenant_release_ok:
  assumes "tenants_ok l tt (\<lambda>t. held t + (if t = tenant then 1 else 0))"
  shows "tenants_ok l (tenant_release tt tenant) held"
proof -
  have "map_of (active tt) tenant = Some (Suc (held tenant))" using assms by (simp add: tenants_ok_def)
  moreover have "held t \<le> n" if "max_in_flight_per_tenant l = Some n" for t n
    using assms that by (auto simp: tenants_ok_def intro: add_leD1)
  ultimately show ?thesis
    using assms
    by (auto simp: tenant_release_def tenants_ok_def update_conv' delete_conv' length_update
        distinct_update distinct_delete length_delete_le
        intro: order_trans [OF length_delete_le] split: option.splits)
qed

section \<open>Every segment keeps the account\<close>

lemma tenant_holds_middle:
  "tenant_holds (xs @ r # ys) =
     (\<lambda>t. tenant_holds (xs @ ys) t + (if permit_tenant r = Some t then 1 else 0))"
  by (auto simp: tenant_holds_def)

lemma tenant_holds_Cons:
  "tenant_holds (r # rs) = (\<lambda>t. tenant_holds rs t + (if permit_tenant r = Some t then 1 else 0))"
  using tenant_holds_middle [of "[]" r rs] by simp

text \<open>A step of one request that leaves the gate as it is and moves no permit.\<close>

lemma gate_ok_move:
  assumes "gate_ok api l (c, xs @ r # ys)" and "permits_ok (r\<lparr>at := p\<rparr>)"
    and "owns_slot p = owns_slot (at r)" "in_depth p = in_depth (at r)"
  shows "gate_ok api l (c, xs @ r\<lparr>at := p\<rparr> # ys)"
  using assms by (simp add: gate_ok_def tenant_holds_middle)

lemma gate_ok_permits: "gate_ok api l (c, xs @ r # ys) \<Longrightarrow> permits_ok r"
  by (simp add: gate_ok_def)

text \<open>A step of one request on the queue.\<close>

lemma gate_ok_queue:
  assumes "gate_ok api l (c, xs @ r # ys)" and "permits_ok (r\<lparr>at := p\<rparr>)"
    and "queue_ok api (queue_capacity l) (Some q) (slot_holders (xs @ r\<lparr>at := p\<rparr> # ys))
           (counted (xs @ r\<lparr>at := p\<rparr> # ys))"
  shows "gate_ok api l (c\<lparr>queue := Some q\<rparr>, xs @ r\<lparr>at := p\<rparr> # ys)"
  using assms by (simp add: gate_ok_def tenant_holds_middle)

lemma drop_permit_ok:
  assumes laws: "semaphore_laws api" and ok: "gate_ok api l (c, xs @ r # ys)"
    and at: "at r = Dropping reason" and step: "drop_permit api c r reason = (c', out)"
  shows "gate_ok api l (c', xs @ outcome_requests out @ ys)"
proof -
  from ok have g: "sem_ok api (max_in_flight l) (global c) (holds permit_global (xs @ r # ys))"
    and s: "sem_ok api (max_in_flight_streams l) (streams c) (holds permit_stream (xs @ r # ys))"
    and t: "tenants_ok l (tenants c) (tenant_holds (xs @ r # ys))"
    by (simp_all add: gate_ok_def)
  consider (global) "permit_global r" | (stream) "\<not> permit_global r" "permit_stream r"
    | (tenant) tenant where "\<not> permit_global r" "\<not> permit_stream r" "permit_tenant r = Some tenant"
    | (nothing) "\<not> permit_global r" "\<not> permit_stream r" "permit_tenant r = None"
    by (cases "permit_tenant r") auto
  then show ?thesis
  proof cases
    case global
    with g sem_ok_release [OF laws, of "max_in_flight l" "global c" "holds permit_global (xs @ ys)"]
    show ?thesis using ok at step
      by (auto simp: drop_permit_def gate_ok_def permits_ok_def tenant_holds_middle)
  next
    case stream
    with s sem_ok_release [OF laws, of "max_in_flight_streams l" "streams c" "holds permit_stream (xs @ ys)"]
    show ?thesis using ok at step
      by (auto simp: drop_permit_def gate_ok_def permits_ok_def tenant_holds_middle)
  next
    case (tenant tenant)
    with t have "tenants_ok l (tenants c) (\<lambda>t. tenant_holds (xs @ ys) t + (if t = tenant then 1 else 0))"
      by (simp add: tenant_holds_middle eq_commute)
    from tenant_release_ok [OF this] tenant show ?thesis using ok at step
      by (auto simp: drop_permit_def gate_ok_def permits_ok_def tenant_holds_middle)
  next
    case nothing
    with ok at step show ?thesis
      by (auto simp: drop_permit_def gate_ok_def tenant_holds_middle split: option.splits)
  qed
qed

lemma begin_admit_ok:
  assumes "gate_ok api l (c, rs)" and "begin_admit c tenant k = (c', out)"
  shows "gate_ok api l (c', outcome_requests out @ rs)"
proof -
  obtain tt res where res: "reserve (tenants c) tenant = (tt, res)" by fastforce
  have "tenants_ok l (tenants c) (tenant_holds rs)" using assms(1) by (simp add: gate_ok_def)
  from reserve_ok [OF this res] show ?thesis
    using assms res
    by (cases res) (auto simp: begin_admit_def gate_ok_def permits_ok_def tenant_holds_Cons)
qed

lemma acquire_stream_ok:
  assumes laws: "semaphore_laws api" and ok: "gate_ok api l (c, xs @ r # ys)" and at: "at r = AtStream"
    and step: "acquire_stream api c r = (c', r')"
  shows "gate_ok api l (c', xs @ r' # ys)"
proof (cases "\<exists>s s'. kind r = Streamed \<and> streams c = Some s \<and> sem_try_acquire api s = Some s'")
  case False
  then have "c' = c \<and> (r' = r\<lparr>at := Done\<rparr> \<or> r' = r\<lparr>at := Dropping (Some Streams)\<rparr>)"
    using step by (auto simp: acquire_stream_def split: request_kind.splits option.splits)
  with gate_ok_move [OF ok] gate_ok_permits [OF ok] at show ?thesis by (auto simp: permits_ok_def)
next
  case True
  then obtain s s' where s: "kind r = Streamed" "streams c = Some s" "sem_try_acquire api s = Some s'" by blast
  then have c': "c' = c\<lparr>streams := Some s'\<rparr>" "r' = r\<lparr>at := Done, permit_stream := True\<rparr>"
    using step by (auto simp: acquire_stream_def)
  have "\<not> permit_stream r" using gate_ok_permits [OF ok] at by (simp add: permits_ok_def)
  moreover have "sem_ok api (max_in_flight_streams l) (Some s') (Suc (holds permit_stream (xs @ r # ys)))"
    using ok s by (intro sem_ok_acquire [OF laws _ s(3)]) (simp add: gate_ok_def)
  ultimately show ?thesis using ok at c' by (simp add: gate_ok_def permits_ok_def tenant_holds_middle)
qed

text \<open>Taking a global permit for a request that holds none.\<close>

lemma take_global_ok:
  assumes laws: "semaphore_laws api" and ok: "gate_ok api l (c, xs @ r # ys)" and none: "\<not> permit_global r"
    and g: "global c = Some g" "sem_try_acquire api g = Some g'"
    and p: "permits_ok (r\<lparr>at := p, permit_global := True\<rparr>)"
      "owns_slot p = owns_slot (at r)" "in_depth p = in_depth (at r)"
  shows "gate_ok api l (c\<lparr>global := Some g'\<rparr>, xs @ r\<lparr>at := p, permit_global := True\<rparr> # ys)"
proof -
  have "sem_ok api (max_in_flight l) (Some g') (Suc (holds permit_global (xs @ r # ys)))"
    using ok g by (intro sem_ok_acquire [OF laws _ g(2)]) (simp add: gate_ok_def)
  with ok none p show ?thesis by (simp add: gate_ok_def tenant_holds_middle)
qed

lemma acquire_global_ok:
  assumes laws: "semaphore_laws api" and ok: "gate_ok api l (c, xs @ r # ys)" and at: "at r = AtGlobal"
    and step: "acquire_global api c r = (c', r')"
  shows "gate_ok api l (c', xs @ r' # ys)"
proof (cases "\<exists>g g'. global c = Some g \<and> sem_try_acquire api g = Some g'")
  case True
  then obtain g g' where g: "global c = Some g" "sem_try_acquire api g = Some g'" by blast
  with take_global_ok [OF laws ok _ g, of AtStream] gate_ok_permits [OF ok] at step show ?thesis
    by (auto simp: acquire_global_def permits_ok_def)
next
  case False
  then have "c' = c \<and> r' \<in> {r\<lparr>at := p\<rparr> | p. p \<in> {AtStream, AtQueue, Dropping (Some Global)}}"
    using step by (auto simp: acquire_global_def split: option.splits)
  with gate_ok_move [OF ok] gate_ok_permits [OF ok] at show ?thesis by (auto simp: permits_ok_def)
qed

lemma end_wait_ok:
  assumes laws: "semaphore_laws api" and ok: "gate_ok api l (c, xs @ r # ys)" and at: "at r = InQueue"
    and step: "end_wait api c r e = (c', r')"
  shows "gate_ok api l (c', xs @ r' # ys)"
proof (cases "e = Granted \<and> (\<exists>g g'. global c = Some g \<and> sem_try_acquire api g = Some g')")
  case True
  then obtain g g' where g: "global c = Some g" "sem_try_acquire api g = Some g'" by blast
  with take_global_ok [OF laws ok _ g, of "Leaving Onward"] gate_ok_permits [OF ok] True at step
  show ?thesis by (auto simp: end_wait_def permits_ok_def)
next
  case False
  then have "c' = c \<and> (r' = r \<or> (\<exists>x. r' = r\<lparr>at := Leaving x\<rparr>))"
    using step by (auto simp: end_wait_def bind_eq_Some_conv split: wait_end.splits option.splits)
  with ok gate_ok_move [OF ok] gate_ok_permits [OF ok] at show ?thesis by (auto simp: permits_ok_def)
qed

text \<open>The two accesses on the way in and on the way out: no \<open>expect\<close> fails.\<close>

lemma gate_ok_in_queue:
  assumes "gate_ok api l (c, xs @ r # ys)"
  shows "queue_ok api (queue_capacity l) (queue c) (slot_holders (xs @ r # ys)) (counted (xs @ r # ys))"
  using assms by (simp add: gate_ok_def)

lemma enter_queue_ok:
  assumes laws: "semaphore_laws api" and ok: "gate_ok api l (c, xs @ r # ys)"
    and at: "at r = AtQueue \<or> at r = AtDepth"
  obtains c' r' where "enter_queue api c r = Some (c', r')" "gate_ok api l (c', xs @ r' # ys)"
proof (cases "queue c")
  case None
  with ok at show thesis by (intro that [of c r]) (auto simp: enter_queue_def)
next
  case q: (Some q)
  note account = gate_ok_in_queue [OF ok, unfolded q] and permits = gate_ok_permits [OF ok]
  show thesis
  proof (cases "at r = AtQueue")
    case True
    show thesis
    proof (cases "queue_slot api q")
      case None
      with gate_ok_move [OF ok, of "Dropping (Some QueueFull)"] permits True q show thesis
        by (intro that [of c "r\<lparr>at := Dropping (Some QueueFull)\<rparr>"])
          (simp_all add: enter_queue_def permits_ok_def)
    next
      case (Some q')
      with queue_ok_slot [OF laws account] gate_ok_queue [OF ok, of AtDepth q'] permits True q show thesis
        by (intro that [of "c\<lparr>queue := Some q'\<rparr>" "r\<lparr>at := AtDepth\<rparr>"])
          (simp_all add: enter_queue_def permits_ok_def)
    qed
  next
    case False
    with at have at: "at r = AtDepth" by simp
    have "counted (xs @ r # ys) < slot_holders (xs @ r # ys)"
      using counted_le [of "xs @ ys"] at by simp
    from queue_ok_count [OF account this] obtain q' where
      q': "queue_count q = Some q'"
      "queue_ok api (queue_capacity l) (Some q') (slot_holders (xs @ r # ys)) (Suc (counted (xs @ r # ys)))" .
    with gate_ok_queue [OF ok, of InQueue q'] permits at q show thesis
      by (intro that [of "c\<lparr>queue := Some q'\<rparr>" "r\<lparr>at := InQueue\<rparr>"])
        (simp_all add: enter_queue_def permits_ok_def)
  qed
qed

lemma leave_queue_ok:
  assumes laws: "semaphore_laws api" and ok: "gate_ok api l (c, xs @ r # ys)"
    and at: "at r = Leaving x \<or> at r = Freeing x"
  obtains c' r' where "leave_queue api c r = Some (c', r')" "gate_ok api l (c', xs @ r' # ys)"
proof -
  note account = gate_ok_in_queue [OF ok] and permits = gate_ok_permits [OF ok]
  have "slot_holders (xs @ r # ys) = Suc (slot_holders (xs @ ys))" using at by auto
  with account obtain q where q: "queue c = Some q" by (auto elim: queue_ok_held)
  show thesis
  proof (cases "at r = Leaving x")
    case True
    with account q have "queue_ok api (queue_capacity l) (Some q) (slot_holders (xs @ r # ys))
        (Suc (counted (xs @ ys)))" by simp
    from queue_ok_release [OF this] obtain q' where q': "queue_release q = Some q'"
      "queue_ok api (queue_capacity l) (Some q') (slot_holders (xs @ r # ys)) (counted (xs @ ys))" .
    with gate_ok_queue [OF ok, of "Freeing x" q'] permits True q show thesis
      by (intro that [of "c\<lparr>queue := Some q'\<rparr>" "r\<lparr>at := Freeing x\<rparr>"])
        (simp_all add: leave_queue_def permits_ok_def)
  next
    case False
    with at have at: "at r = Freeing x" by simp
    with account q have "queue_ok api (queue_capacity l) (Some q) (Suc (slot_holders (xs @ ys)))
        (counted (xs @ ys))" by simp
    from queue_ok_free [OF laws this] gate_ok_queue [OF ok, of "after_queue x" "queue_free_slot api q"]
      permits at q show thesis
      by (intro that [of "c\<lparr>queue := Some (queue_free_slot api q)\<rparr>" "r\<lparr>at := after_queue x\<rparr>"])
        (cases x; simp add: leave_queue_def permits_ok_def)+
  qed
qed

lemma drop_request_ok:
  "gate_ok api l (c, xs @ r # ys) \<Longrightarrow> drop_request r = Some r' \<Longrightarrow> gate_ok api l (c, xs @ r' # ys)"
  using gate_ok_move [of api l c xs r ys] gate_ok_permits [of api l c xs r ys]
  by (auto simp: drop_request_def permits_ok_def split: admit_point.splits)

text \<open>Each access is total on an account that is right and keeps it right.\<close>

lemma advance_ok:
  assumes laws: "semaphore_laws api" and ok: "gate_ok api l (c, xs @ r # ys)"
  obtains c' out where "advance api c r e = Some (c', out)"
    "gate_ok api l (c', xs @ outcome_requests out @ ys)"
proof -
  consider (enter) "at r = AtQueue \<or> at r = AtDepth" | (leave) x where "at r = Leaving x \<or> at r = Freeing x"
    | (first) "at r = AtGlobal" | (wait) "at r = InQueue" | (stream) "at r = AtStream" | (over) "at r = Done"
    | (drop) reason where "at r = Dropping reason"
    by (cases "at r") auto
  then show thesis
  proof cases
    case enter
    obtain c' r' where "enter_queue api c r = Some (c', r')" "gate_ok api l (c', xs @ r' # ys)"
      by (rule enter_queue_ok [OF laws ok enter])
    with enter show thesis by (intro that [of c' "Proceed r'"]) (auto simp: advance_def)
  next
    case (leave x)
    obtain c' r' where "leave_queue api c r = Some (c', r')" "gate_ok api l (c', xs @ r' # ys)"
      by (rule leave_queue_ok [OF laws ok leave])
    with leave show thesis by (intro that [of c' "Proceed r'"]) (auto simp: advance_def)
  next
    case first
    with acquire_global_ok [OF laws ok first] that show thesis
      by (cases "acquire_global api c r") (auto simp: advance_def)
  next
    case wait
    with end_wait_ok [OF laws ok wait] that show thesis
      by (cases "end_wait api c r e") (auto simp: advance_def)
  next
    case stream
    with acquire_stream_ok [OF laws ok stream] that show thesis
      by (cases "acquire_stream api c r") (auto simp: advance_def)
  next
    case over
    with ok show thesis by (intro that [of c "Proceed r"]) (simp_all add: advance_def)
  next
    case (drop reason)
    with drop_permit_ok [OF laws ok drop] that show thesis
      by (cases "drop_permit api c r reason") (auto simp: advance_def)
  qed
qed

lemma admission_step_ok:
  assumes "semaphore_laws api" and "gate_ok api l w" and "admission_step api w w'"
  shows "gate_ok api l w'"
  using assms(3,2)
proof cases
  case (arrive c tenant k c' out rs)
  with begin_admit_ok assms(2) show ?thesis by blast
next
  case (progress c r e c' out xs ys)
  with advance_ok [OF assms(1), of l c xs r ys e] assms(2) show ?thesis by auto
next
  case (dropped r r' c xs ys)
  with drop_request_ok [of api l c xs r ys r'] assms(2) show ?thesis by auto
qed

interpretation gate: inductive_invariant "admission_step api"
  "\<lambda>w. semaphore_laws api \<and> gate_ok api l w" for api l
  by unfold_locales (blast intro: admission_step_ok)

lemma control_new_ok:
  "semaphore_laws api \<Longrightarrow> (\<And>n. queue_capacity l = Some n \<Longrightarrow> n < 2 ^ 64) \<Longrightarrow> gate_ok api l (control_new api l, [])"
  by (auto simp: gate_ok_def control_new_def sem_ok_def queue_ok_def queue_new_def tenants_ok_def
      tenant_holds_def semaphore_lawsD unat_of_nat split: option.splits)

section \<open>Properties\<close>

text \<open>A counting semaphore, which satisfies the laws.\<close>

definition counting :: "nat semaphore_api" where
  "counting =
     \<lparr>sem_new = (\<lambda>n. n), sem_try_acquire = (\<lambda>n. if n = 0 then None else Some (n - 1)),
      sem_release = Suc, sem_available = (\<lambda>n. n)\<rparr>"

lemma counting_laws: "semaphore_laws counting"
  by (auto simp: semaphore_laws_def counting_def)

text \<open>What is assumed of a run: the semaphore's laws and a queue capacity that fits a \<open>u64\<close>.\<close>

definition admission_run :: "'s semaphore_api \<Rightarrow> admission_limits \<Rightarrow> 's gate \<Rightarrow> bool" where
  "admission_run api l w \<longleftrightarrow>
     semaphore_laws api \<and> (\<forall>n. queue_capacity l = Some n \<longrightarrow> n < 2 ^ 64)
     \<and> reaches (admission_step api) (control_new api l, []) w"

lemma admission_run_ok: "admission_run api l w \<Longrightarrow> semaphore_laws api \<and> gate_ok api l w"
  unfolding admission_run_def using gate.reachable_good control_new_ok by blast

lemma tenants_ok_card:
  assumes "tenants_ok l tt held"
  shows "{t. 0 < held t} = set (map fst (active tt))" and "card {t. 0 < held t} \<le> max_tenants l"
proof -
  have "{t. 0 < held t} = dom (map_of (active tt))"
    using assms by (auto simp: tenants_ok_def dom_def)
  then show eq: "{t. 0 < held t} = set (map fst (active tt))" by (simp add: dom_map_of_conv_image_fst)
  show "card {t. 0 < held t} \<le> max_tenants l"
    unfolding eq using assms by (metis distinct_card length_map tenants_ok_def)
qed

text \<open>
  C10. However admissions, waits, timeouts, cancellations and completions interleave, no
  configured ceiling is exceeded: neither the requests in flight, nor the streams, nor the
  queue, nor any tenant's requests, nor the number of tenants with work in flight.
\<close>

theorem admission_ceilings_hold:
  "admission_run api l (c, rs) \<longrightarrow>
     (\<forall>n. max_in_flight l = Some n \<longrightarrow> holds permit_global rs \<le> n)
     \<and> (\<forall>n. max_in_flight_streams l = Some n \<longrightarrow> holds permit_stream rs \<le> n)
     \<and> (\<forall>n. queue_capacity l = Some n \<longrightarrow> slot_holders rs \<le> n)
     \<and> (\<forall>n t. max_in_flight_per_tenant l = Some n \<longrightarrow> tenant_holds rs t \<le> n)
     \<and> card {t. 0 < tenant_holds rs t} \<le> max_tenants l"
proof
  assume "admission_run api l (c, rs)"
  then have "gate_ok api l (c, rs)" using admission_run_ok by blast
  then have ok: "sem_ok api (max_in_flight l) (global c) (holds permit_global rs)"
    "sem_ok api (max_in_flight_streams l) (streams c) (holds permit_stream rs)"
    "queue_ok api (queue_capacity l) (queue c) (slot_holders rs) (counted rs)"
    "tenants_ok l (tenants c) (tenant_holds rs)"
    by (simp_all add: gate_ok_def)
  from ok(4) have per_tenant: "tenant_holds rs t \<le> n" if "max_in_flight_per_tenant l = Some n" for n t
    using that by (auto simp: tenants_ok_def)
  show "(\<forall>n. max_in_flight l = Some n \<longrightarrow> holds permit_global rs \<le> n)
     \<and> (\<forall>n. max_in_flight_streams l = Some n \<longrightarrow> holds permit_stream rs \<le> n)
     \<and> (\<forall>n. queue_capacity l = Some n \<longrightarrow> slot_holders rs \<le> n)
     \<and> (\<forall>n t. max_in_flight_per_tenant l = Some n \<longrightarrow> tenant_holds rs t \<le> n)
     \<and> card {t. 0 < tenant_holds rs t} \<le> max_tenants l"
    using ok(1-3) per_tenant tenants_ok_card(2) [OF ok(4)]
    by (auto simp: sem_ok_def queue_ok_def)
qed

text \<open>Limits of one request in flight, one tenant slot and a queue of one, for the examples.\<close>

definition tight_limits :: admission_limits where
  "tight_limits =
     limits_from_config
       \<lparr>cfg_max_request_bytes = 1024, cfg_max_in_flight = 1, cfg_max_in_flight_streams = 0,
        cfg_max_in_flight_streams_explicit = True, cfg_max_in_flight_per_tenant = 2,
        cfg_max_in_flight_per_tenant_explicit = True, cfg_max_tenants = 2, cfg_queue_capacity = 1,
        cfg_queue_wait_ms = 5, cfg_max_stream_duration_ms = 0, cfg_max_prompt_tokens = 0,
        cfg_max_output_tokens = 0, cfg_max_stream_bytes = 0, cfg_max_pending_settlements = 4,
        cfg_max_pending_settlements_explicit = True, cfg_max_in_flight_settlements = 1,
        cfg_settlement_queue_wait_ms = 0, cfg_settlement_timeout_ms = 0\<rparr>"

lemma tight_limits_sel:
  "max_in_flight tight_limits = Some 1" "max_in_flight_streams tight_limits = None"
  "max_in_flight_per_tenant tight_limits = Some 2" "max_tenants tight_limits = 2"
  "queue_capacity tight_limits = Some 1"
  by (simp_all add: tight_limits_def limits_from_config_def bound_def)

definition admitted :: "string \<Rightarrow> request" where
  "admitted t = \<lparr>at = AtStream, kind = Buffered, permit_global = True, permit_stream = False,
                 permit_tenant = Some t\<rparr>"

definition one_in_flight :: "nat gate" where
  "one_in_flight =
     (\<lparr>limits = tight_limits, global = Some 0, streams = None,
       queue = Some \<lparr>slots = 1, current = 0, capacity = 1\<rparr>,
       tenants = \<lparr>tenant_limit = Some 2, table_max_tenants = 2, active = [(''a'', 1)]\<rparr>\<rparr>,
      [admitted ''a''])"

text \<open>One request of one tenant arrives and takes the only slot.\<close>

lemma run_one_in_flight: "admission_run counting tight_limits one_in_flight"
proof -
  let ?new = "control_new counting tight_limits"
  let ?r = "\<lparr>at = AtGlobal, kind = Buffered, permit_global = False, permit_stream = False,
                 permit_tenant = Some ''a''\<rparr>"
  obtain c1 where c1: "begin_admit ?new ''a'' Buffered = (c1, Proceed ?r)"
    "advance counting c1 ?r Granted = Some (fst one_in_flight, Proceed (admitted ''a''))"
    by (simp add: begin_admit_def control_new_def reserve_def tight_limits_sel Let_def advance_def
        acquire_global_def counting_def queue_new_def one_in_flight_def admitted_def)
  have "admission_step counting (?new, []) (c1, [?r])"
    using arrive [OF c1(1), of counting "[]"] by simp
  moreover have "admission_step counting (c1, [?r]) one_in_flight"
    using progress [OF c1(2), of "[]" "[]"] by (simp add: one_in_flight_def)
  ultimately have "reaches (admission_step counting) (?new, []) one_in_flight"
    by (metis reaches_refl reaches_step)
  then show ?thesis by (simp add: admission_run_def counting_laws tight_limits_sel)
qed

theorem admission_ceilings_hold_witness:
  "admission_run counting tight_limits one_in_flight
   \<and> holds permit_global (snd one_in_flight) \<le> 1 \<and> tenant_holds (snd one_in_flight) ''a'' \<le> 2"
  using admission_ceilings_hold [of counting tight_limits "fst one_in_flight" "snd one_in_flight"]
    run_one_in_flight
  by (simp add: tight_limits_sel)

text \<open>
  C12. Every exit gives the capacity back exactly once.  However the accesses of the requests
  interleave, no \<open>expect\<close> on the queue depth fails for a live request, the depth is exactly the
  number of requests in the queue and each semaphore's free permits are exactly what the live
  requests leave of its capacity; so when no request is left, whatever mix of refusals, timeouts,
  cancellations and completions got there, every semaphore has its full capacity again, the
  queue depth is zero and the tenant table is empty.
\<close>

theorem admission_capacity_returns:
  "admission_run api l (c, rs) \<longrightarrow>
     list_all (\<lambda>r. \<forall>e. advance api c r e \<noteq> None) rs
     \<and> map_option (\<lambda>g. sem_available api g + holds permit_global rs) (global c) = max_in_flight l
     \<and> map_option (\<lambda>s. sem_available api s + holds permit_stream rs) (streams c) = max_in_flight_streams l
     \<and> map_option (\<lambda>q. sem_available api (slots q) + slot_holders rs) (queue c) = queue_capacity l
     \<and> map_option (\<lambda>q. unat (current q)) (queue c) = map_option (\<lambda>_. counted rs) (queue_capacity l)
     \<and> (rs = [] \<longrightarrow>
          map_option (sem_available api) (global c) = max_in_flight l
          \<and> map_option (sem_available api) (streams c) = max_in_flight_streams l
          \<and> map_option (\<lambda>q. sem_available api (slots q)) (queue c) = queue_capacity l
          \<and> map_option (\<lambda>q. unat (current q)) (queue c) = map_option (\<lambda>_. 0) (queue c)
          \<and> active (tenants c) = [])"
proof (intro impI conjI)
  assume "admission_run api l (c, rs)"
  then have laws: "semaphore_laws api" and ok: "gate_ok api l (c, rs)"
    using admission_run_ok by blast+
  show "list_all (\<lambda>r. \<forall>e. advance api c r e \<noteq> None) rs"
    unfolding list_all_iff
  proof (intro ballI allI)
    fix r e assume "r \<in> set rs"
    then obtain xs ys where "rs = xs @ r # ys" by (meson split_list)
    with ok have ok': "gate_ok api l (c, xs @ r # ys)" by simp
    show "advance api c r e \<noteq> None" by (rule advance_ok [OF laws ok', of e]) simp
  qed
  from ok show "map_option (\<lambda>g. sem_available api g + holds permit_global rs) (global c) = max_in_flight l"
    "map_option (\<lambda>s. sem_available api s + holds permit_stream rs) (streams c) = max_in_flight_streams l"
    "map_option (\<lambda>q. sem_available api (slots q) + slot_holders rs) (queue c) = queue_capacity l"
    "map_option (\<lambda>q. unat (current q)) (queue c) = map_option (\<lambda>_. counted rs) (queue_capacity l)"
    by (auto simp: gate_ok_def sem_ok_def queue_ok_def split: option.splits)
  have none: "tenant_holds [] = (\<lambda>_. 0)" by (auto simp: tenant_holds_def)
  assume "rs = []"
  with ok have empty: "sem_ok api (max_in_flight l) (global c) 0"
    "sem_ok api (max_in_flight_streams l) (streams c) 0"
    "queue_ok api (queue_capacity l) (queue c) 0 0"
    and t: "tenants_ok l (tenants c) (\<lambda>_. 0)"
    by (simp_all add: gate_ok_def none)
  show "map_option (sem_available api) (global c) = max_in_flight l"
    "map_option (sem_available api) (streams c) = max_in_flight_streams l"
    "map_option (\<lambda>q. sem_available api (slots q)) (queue c) = queue_capacity l"
    "map_option (\<lambda>q. unat (current q)) (queue c) = map_option (\<lambda>_. 0) (queue c)"
    using empty by (auto simp: sem_ok_def queue_ok_def split: option.splits)
  show "active (tenants c) = []" using tenants_ok_card(1) [OF t] by simp
qed

theorem admission_capacity_returns_witness:
  "admission_run counting tight_limits one_in_flight
   \<and> advance counting (fst one_in_flight) (admitted ''a'') Granted \<noteq> None"
proof -
  have "list_all (\<lambda>r. \<forall>e. advance counting (fst one_in_flight) r e \<noteq> None) (snd one_in_flight)"
    using admission_capacity_returns [of counting tight_limits "fst one_in_flight" "snd one_in_flight"]
      run_one_in_flight
    by simp
  then show ?thesis using run_one_in_flight by (simp add: one_in_flight_def list_all_iff)
qed

text \<open>
  The refusals a caller sees are told apart: distinct codes for distinct rejections, 429
  for a tenant over its own ceiling and for nothing else, and retry advice for everything but
  the full tenant table.
\<close>

theorem rejections_are_told_apart:
  "(rejection_code r = rejection_code s \<longleftrightarrow> r = s)
   \<and> (is_caller_limit r \<longleftrightarrow> rejection_code r = ''tenant_concurrency_exceeded'')
   \<and> (retry_after_seconds r = None \<longleftrightarrow> r = TenantCapacity)
   \<and> scope r \<in> set [''request'', ''stream'', ''tenant'', ''queue'', ''settlement'']"
  by (cases r; cases s) (simp_all add: is_caller_limit_def)

end
