(* ===== verification/Uuid.thy ===== *)
theory Uuid
  imports Rust_String
begin

unbundle bit_operations_syntax

text \<open>
  Time-ordered identities: \<open>Uuid7\<close> and its generator, \<open>crates/gateway/src/desired_state/ids.rs\<close>,
  and the \<open>RequestId\<close> of \<open>crates/gateway/src/usage/identity.rs\<close> that every usage event carries.
  A \<open>[u8; 16]\<close> is a list of sixteen bytes.  The clock and the random source of the generator
  (\<open>SystemTime::now\<close>, \<open>ring\<close>) are arguments.
\<close>

section \<open>Big-endian bytes\<close>

text \<open>The last \<open>k\<close> bytes of \<open>to_be_bytes\<close>, and the number a byte sequence denotes.\<close>

fun be_bytes :: "nat \<Rightarrow> nat \<Rightarrow> u8 list" where
  "be_bytes 0 n = []"
| "be_bytes (Suc k) n = be_bytes k (n div 256) @ [of_nat n]"

fun be_value :: "u8 list \<Rightarrow> nat" where
  "be_value [] = 0"
| "be_value (b # bs) = unat b * 256 ^ length bs + be_value bs"

text \<open>The derived order of a byte array.\<close>

fun bytes_less :: "u8 list \<Rightarrow> u8 list \<Rightarrow> bool" where
  "bytes_less [] bs = (bs \<noteq> [])"
| "bytes_less (a # as) [] = False"
| "bytes_less (a # as) (b # bs) = (a < b \<or> a = b \<and> bytes_less as bs)"

lemma length_be_bytes [simp]: "length (be_bytes k n) = k"
  by (induction k arbitrary: n) simp_all

lemma be_value_append: "be_value (as @ bs) = be_value as * 256 ^ length bs + be_value bs"
  by (induction as) (simp_all add: algebra_simps power_add)

lemma unat_u8_less: "unat (x :: u8) < 256"
proof -
  have "unat x < 2 ^ LENGTH(8)" by (rule unsigned_less)
  then show ?thesis by simp
qed

lemma be_value_be_bytes: "be_value (be_bytes k n) = n mod 256 ^ k"
proof (induction k arbitrary: n)
  case (Suc k)
  have "be_value (be_bytes (Suc k) n) = (n div 256) mod 256 ^ k * 256 + n mod 256"
    by (simp add: be_value_append Suc.IH unat_of_nat)
  also have "\<dots> = n mod (256 * 256 ^ k)" by (simp add: mod_mult2_eq)
  finally show ?case by simp
qed simp

lemma be_value_less: "be_value bs < 256 ^ length bs"
proof (induction bs)
  case (Cons b bs)
  have "unat b * 256 ^ length bs + be_value bs < (unat b + 1) * 256 ^ length bs"
    using Cons by (simp add: algebra_simps)
  also have "\<dots> \<le> 256 * 256 ^ length bs" using unat_u8_less [of b] by (intro mult_right_mono) simp_all
  finally show ?case by simp
qed simp

lemma bytes_less_iff:
  "length as = length bs \<Longrightarrow> bytes_less as bs \<longleftrightarrow> be_value as < be_value bs"
proof (induction as bs rule: list_induct2)
  case (Cons a as b bs)
  let ?k = "256 ^ length bs :: nat"
  have bounds: "be_value as < ?k" "be_value bs < ?k"
    using be_value_less [of as] be_value_less [of bs] Cons.hyps by simp_all
  consider "unat a < unat b" | "unat a = unat b" | "unat b < unat a" by linarith
  then show ?case
  proof cases
    case 1
    then have "(unat a + 1) * ?k \<le> unat b * ?k" by (intro mult_right_mono) simp_all
    then have "unat a * ?k + be_value as < unat b * ?k + be_value bs" using bounds by simp
    with 1 Cons.hyps show ?thesis by (simp add: word_less_nat_alt)
  next
    case 2
    then have "a = b" by (simp add: word_unat_eq_iff)
    with Cons show ?thesis by simp
  next
    case 3
    then have "(unat b + 1) * ?k \<le> unat a * ?k" by (intro mult_right_mono) simp_all
    then have "unat b * ?k + be_value bs < unat a * ?k + be_value as" using bounds by simp
    with 3 Cons.hyps show ?thesis by (auto simp: word_less_nat_alt)
  qed
qed simp

lemma bytes_less_prefix:
  "length as = length bs \<Longrightarrow> bytes_less as bs \<Longrightarrow> bytes_less (as @ xs) (bs @ ys)"
  by (induction as bs rule: list_induct2) auto

section \<open>Version 7 UUIDs\<close>

type_synonym uuid7 = "u8 list"

datatype invalid_uuid7 =
    Shape string
  | Digit string
  | Version u8
  | Variant u8
  | Timestamp u64
  | Sequence u16

definition from_parts :: "u64 \<Rightarrow> u16 \<Rightarrow> u64 \<Rightarrow> (invalid_uuid7, uuid7) result" where
  "from_parts millis seq entropy =
     (if 2 ^ 48 \<le> unat millis then Inl (Timestamp millis)
      else if 2 ^ 12 \<le> unat seq then Inl (Sequence seq)
      else
        let rand_b = be_bytes 8 (unat entropy) in
        Inr (drop 2 (be_bytes 8 (unat millis))
             @ [0x70 OR (ucast (drop_bit 8 seq) AND 0x0f), ucast (seq AND 0xff)]
             @ rand_b[0 := (rand_b ! 0 AND 0x3f) OR 0x80]))"

text \<open>The argument of \<open>from_bytes\<close> is an array of sixteen bytes.\<close>

definition from_bytes :: "u8 list \<Rightarrow> (invalid_uuid7, uuid7) result" where
  "from_bytes bytes =
     (let version = drop_bit 4 (bytes ! 6); variant = drop_bit 6 (bytes ! 8) in
      if version \<noteq> 7 then Inl (Version version)
      else if variant \<noteq> 2 then Inl (Variant variant)
      else Inr bytes)"

definition timestamp_millis :: "uuid7 \<Rightarrow> nat" where
  "timestamp_millis u = be_value ([0, 0] @ take 6 u)"

definition sequence :: "uuid7 \<Rightarrow> u16" where
  "sequence u = (push_bit 8 (ucast (u ! 6 AND 0x0f)) OR ucast (u ! 7))"

definition nibble :: "char \<Rightarrow> u8 option" where
  "nibble c =
     (if 48 \<le> byte c \<and> byte c \<le> 57 then Some (of_nat (byte c - 48))
      else if 97 \<le> byte c \<and> byte c \<le> 102 then Some (of_nat (byte c - 97 + 10))
      else None)"

text \<open>The loop of \<open>parse\<close> over the bytes still to read, with the remaining digits.\<close>

fun parse_bytes :: "string \<Rightarrow> nat \<Rightarrow> string \<Rightarrow> (invalid_uuid7, u8 list) result" where
  "parse_bytes text 0 digits = Inr []"
| "parse_bytes text (Suc k) digits =
     (case digits of
        high # low # rest \<Rightarrow>
          (case (nibble high, nibble low) of
             (Some h, Some l) \<Rightarrow>
               (case parse_bytes text k rest of
                  Inl e \<Rightarrow> Inl e
                | Inr bs \<Rightarrow> Inr ((push_bit 4 h OR l) # bs))
           | _ \<Rightarrow> Inl (Digit text))
      | _ \<Rightarrow> Inl (Shape text))"

definition TEXT_LEN :: nat where "TEXT_LEN = 36"

definition uuid7_parse :: "string \<Rightarrow> (invalid_uuid7, uuid7) result" where
  "uuid7_parse text =
     (if length text \<noteq> TEXT_LEN \<or> text ! 8 \<noteq> CHR ''-'' \<or> text ! 13 \<noteq> CHR ''-''
         \<or> text ! 18 \<noteq> CHR ''-'' \<or> text ! 23 \<noteq> CHR ''-''
      then Inl (Shape text)
      else case parse_bytes text 16 (filter (\<lambda>c. c \<noteq> CHR ''-'') text) of
        Inl e \<Rightarrow> Inl e
      | Inr bytes \<Rightarrow> from_bytes bytes)"

definition hex_digit :: "nat \<Rightarrow> char" where
  "hex_digit n = char_of (if n < 10 then 48 + n else 87 + n)"

definition hex_byte :: "u8 \<Rightarrow> string" where
  "hex_byte b = [hex_digit (unat b div 16), hex_digit (unat b mod 16)]"

fun display_from :: "nat \<Rightarrow> u8 list \<Rightarrow> string" where
  "display_from i [] = []"
| "display_from i (b # bs) =
     (if i \<in> {4, 6, 8, 10} then ''-'' else []) @ hex_byte b @ display_from (Suc i) bs"

definition uuid7_display :: "uuid7 \<Rightarrow> string" where
  "uuid7_display u = display_from 0 u"

section \<open>The generator\<close>

definition MAX_SEQUENCE :: u16 where "MAX_SEQUENCE = 2 ^ 12 - 1"
definition MAX_MILLIS :: u64 where "MAX_MILLIS = 2 ^ 48 - 1"

type_synonym generator = "u64 \<times> u16" \<comment> \<open>\<open>last\<close>\<close>

definition generator_new :: generator where
  "generator_new = (0, 0)"

text \<open>The clock reading: \<open>None\<close> before the epoch, else the milliseconds since it.\<close>

definition clamp_clock :: "nat option \<Rightarrow> u64" where
  "clamp_clock since =
     (case since of
        None \<Rightarrow> 0
      | Some ms \<Rightarrow> min (if ms < 2 ^ 64 then of_nat ms else MAX_MILLIS) MAX_MILLIS)"

definition next_stamp :: "generator \<Rightarrow> u64 \<Rightarrow> generator" where
  "next_stamp l now =
     (case l of (last_millis, last_sequence) \<Rightarrow>
        if last_millis < now then (now, 0)
        else if last_sequence < MAX_SEQUENCE then (last_millis, last_sequence + 1)
        else (min (saturating_add last_millis 1) MAX_MILLIS, 0))"

text \<open>\<open>next\<close>; the \<open>expect\<close> on \<open>from_parts\<close> is a panic, \<open>None\<close>.\<close>

definition generator_next :: "generator \<Rightarrow> nat option \<Rightarrow> u64 \<Rightarrow> generator \<times> uuid7 option" where
  "generator_next g since entropy =
     (let g' = next_stamp g (clamp_clock since) in
      (g', case from_parts (fst g') (snd g') entropy of Inl _ \<Rightarrow> None | Inr u \<Rightarrow> Some u))"

section \<open>Request identities\<close>

datatype invalid_id = Prefix string string | Uuid invalid_uuid7

definition PREFIX :: string where "PREFIX = ''req_''"

type_synonym request_id = uuid7

definition request_id_parse :: "string \<Rightarrow> (invalid_id, request_id) result" where
  "request_id_parse text =
     (case strip_prefix text PREFIX of
        None \<Rightarrow> Inl (Prefix PREFIX text)
      | Some uuid \<Rightarrow>
          (case uuid7_parse uuid of Inl e \<Rightarrow> Inl (Uuid e) | Inr u \<Rightarrow> Inr u))"

definition request_id_display :: "request_id \<Rightarrow> string" where
  "request_id_display r = PREFIX @ uuid7_display r"

section \<open>Hexadecimal digits\<close>

lemma nibble_hex_digit: "n < 16 \<Longrightarrow> nibble (hex_digit n) = Some (of_nat n)"
  by (auto simp: nibble_def hex_digit_def byte_def of_char_of)

lemma nibble_Some: "nibble c = Some x \<Longrightarrow> c = hex_digit (unat x) \<and> unat x < 16"
proof -
  assume "nibble c = Some x"
  then consider "48 \<le> byte c" "byte c \<le> 57" "unat x = byte c - 48"
    | "97 \<le> byte c" "byte c \<le> 102" "unat x = byte c - 87"
    by (auto simp: nibble_def unat_of_nat simp del: of_nat_diff split: if_splits)
  then show ?thesis
  proof cases
    case 1
    then have "hex_digit (unat x) = char_of (byte c)" by (simp add: hex_digit_def)
    with 1 show ?thesis by (simp add: byte_def)
  next
    case 2
    then have "hex_digit (unat x) = char_of (byte c)" by (simp add: hex_digit_def)
    with 2 show ?thesis by (simp add: byte_def)
  qed
qed

text \<open>A byte from two nibbles, as numbers.\<close>

lemma unat_nibbles:
  assumes "unat h < 16" and "unat l < 16"
  shows "unat (push_bit 4 h OR l :: u8) = unat h * 16 + unat l"
proof -
  have l: "take_bit 4 l = l"
    using assms(2) by (simp add: word_unat_eq_iff unsigned_take_bit_eq take_bit_nat_eq_self)
  have "push_bit 4 h AND take_bit 4 l = 0"
    by (rule bit_word_eqI) (auto simp: bit_simps)
  then have "push_bit 4 h AND l = 0" by (simp only: l)
  then have "push_bit 4 h OR l = push_bit 4 h + l" by (simp add: disjunctive_add_eq_or)
  moreover have "unat (push_bit 4 h) = unat h * 16"
    using assms(1) by (simp add: unsigned_push_bit_eq push_bit_nat_def take_bit_nat_eq_self)
  ultimately show ?thesis using assms by (simp add: unat_word_ariths)
qed

lemma nibbles_of_byte: "push_bit 4 (of_nat (unat b div 16)) OR of_nat (unat b mod 16) = (b :: u8)"
proof -
  have "unat b div 16 < 16" using unat_u8_less [of b] by (simp add: less_mult_imp_div_less)
  then have "unat (push_bit 4 (of_nat (unat b div 16)) OR of_nat (unat b mod 16) :: u8) = unat b"
    by (subst unat_nibbles) (simp_all add: unat_of_nat)
  then show ?thesis by (simp add: word_unat_eq_iff)
qed

section \<open>The text form\<close>

definition hexs :: "u8 list \<Rightarrow> string" where
  "hexs bs = concat (map hex_byte bs)"

lemma hexs_simps [simp]: "hexs [] = []" "hexs (b # bs) = hex_byte b @ hexs bs" "hexs (as @ bs) = hexs as @ hexs bs"
  by (simp_all add: hexs_def)

lemma length_hexs [simp]: "length (hexs bs) = 2 * length bs"
  by (induction bs) (simp_all add: hex_byte_def)

lemma hex_digit_not_hyphen: "n < 16 \<Longrightarrow> hex_digit n \<noteq> CHR ''-''"
  using nibble_hex_digit [of n] by (auto simp: nibble_def byte_def)

lemma hexs_no_hyphen: "CHR ''-'' \<notin> set (hexs bs)"
proof (induction bs)
  case (Cons b bs)
  have "unat b div 16 < 16" using unat_u8_less [of b] by (simp add: less_mult_imp_div_less)
  with Cons hex_digit_not_hyphen [of "unat b div 16"] hex_digit_not_hyphen [of "unat b mod 16"] show ?case
    by (auto simp: hex_byte_def)
qed simp

lemma filter_hexs: "filter (\<lambda>c. c \<noteq> CHR ''-'') (hexs bs) = hexs bs"
  using hexs_no_hyphen [of bs] by (auto simp: filter_id_conv)

lemma parse_bytes_hexs: "parse_bytes text (length bs) (hexs bs @ rest) = Inr bs"
proof (induction bs)
  case (Cons b bs)
  have "unat b div 16 < 16" using unat_u8_less [of b] by (simp add: less_mult_imp_div_less)
  with Cons show ?case by (simp add: hex_byte_def nibble_hex_digit nibbles_of_byte)
qed simp

lemma hex_byte_nibbles:
  assumes "nibble h = Some x" and "nibble l = Some y"
  shows "hex_byte (push_bit 4 x OR y) = [h, l]"
  using nibble_Some [OF assms(1)] nibble_Some [OF assms(2)]
  by (simp add: hex_byte_def unat_nibbles)

lemma parse_bytes_Inr:
  "parse_bytes text k digits = Inr bs \<Longrightarrow> length bs = k \<and> (\<exists>rest. digits = hexs bs @ rest)"
proof (induction k arbitrary: digits bs)
  case (Suc k)
  then obtain h l r x y cs where "digits = h # l # r" "nibble h = Some x" "nibble l = Some y"
    "parse_bytes text k r = Inr cs" "bs = (push_bit 4 x OR y) # cs"
    by (auto split: list.splits option.splits sum.splits)
  with Suc.IH [of r cs] show ?case by (auto simp: hex_byte_nibbles)
qed simp

lemma display_parts:
  assumes "length u = 16"
  obtains a b c d e where "u = a @ b @ c @ d @ e" "length a = 4" "length b = 2" "length c = 2"
    "length d = 2" "length e = 6"
    "uuid7_display u = hexs a @ ''-'' @ hexs b @ ''-'' @ hexs c @ ''-'' @ hexs d @ ''-'' @ hexs e"
proof -
  obtain u0 u1 u2 u3 u4 u5 u6 u7 u8 u9 u10 u11 u12 u13 u14 u15 where
    u: "u = [u0, u1, u2, u3, u4, u5, u6, u7, u8, u9, u10, u11, u12, u13, u14, u15]"
    using assms by (auto simp: length_Suc_conv numeral_eq_Suc)
  show thesis
    by (rule that [of "[u0, u1, u2, u3]" "[u4, u5]" "[u6, u7]" "[u8, u9]" "[u10, u11, u12, u13, u14, u15]"])
      (simp_all add: u uuid7_display_def hex_byte_def)
qed

lemma split_at: "i < length t \<Longrightarrow> t ! i = x \<Longrightarrow> t = take i t @ x # drop (Suc i) t"
  using id_take_nth_drop by blast

lemma text_parts:
  assumes "length t = 36" and "t ! 8 = x" "t ! 13 = x" "t ! 18 = x" "t ! 23 = x"
  obtains a b c d e where "t = a @ [x] @ b @ [x] @ c @ [x] @ d @ [x] @ e"
    "length a = 8" "length b = 4" "length c = 4" "length d = 4" "length e = 12"
proof -
  have 1: "t = take 8 t @ x # drop 9 t" using split_at [of 8 t x] assms by simp
  have 2: "drop 9 t = take 4 (drop 9 t) @ x # drop 14 t" using split_at [of 4 "drop 9 t" x] assms by simp
  have 3: "drop 14 t = take 4 (drop 14 t) @ x # drop 19 t" using split_at [of 4 "drop 14 t" x] assms by simp
  have 4: "drop 19 t = take 4 (drop 19 t) @ x # drop 24 t" using split_at [of 4 "drop 19 t" x] assms by simp
  have "t = take 8 t @ [x] @ take 4 (drop 9 t) @ [x] @ take 4 (drop 14 t) @ [x] @ take 4 (drop 19 t) @ [x] @ drop 24 t"
    using 1 2 3 4 by (metis append_Cons append_Nil)
  from that [OF this] assms(1) show thesis by simp
qed

lemma filter_full: "length xs \<le> length (filter P xs) \<Longrightarrow> filter P xs = xs"
  by (metis filter_id_conv length_filter_less linorder_not_le)

lemma uuid7_parse_iff:
  "uuid7_parse t = Inr u \<longleftrightarrow> length u = 16 \<and> from_bytes u = Inr u \<and> t = uuid7_display u"
proof
  assume parsed: "uuid7_parse t = Inr u"
  let ?F = "filter (\<lambda>c. c \<noteq> CHR ''-'')"
  from parsed have shape: "length t = 36" "t ! 8 = CHR ''-''" "t ! 13 = CHR ''-''" "t ! 18 = CHR ''-''"
    "t ! 23 = CHR ''-''"
    and bytes: "parse_bytes t 16 (?F t) = Inr u" and valid: "from_bytes u = Inr u"
    by (auto simp: uuid7_parse_def TEXT_LEN_def from_bytes_def Let_def split: if_splits sum.splits)
  obtain a b c d e where t: "t = a @ ''-'' @ b @ ''-'' @ c @ ''-'' @ d @ ''-'' @ e"
    and len: "length a = 8" "length b = 4" "length c = 4" "length d = 4" "length e = 12"
    using shape by (rule text_parts)
  obtain rest where u: "length u = 16" and digits: "?F t = hexs u @ rest"
    using parse_bytes_Inr [OF bytes] by blast
  let ?abc = "a @ b @ c @ d @ e"
  have ft: "?F t = ?F ?abc" by (simp add: t)
  have "length ?abc \<le> length (?F ?abc)" using arg_cong [OF digits, of length] u len ft by simp
  then have "?F ?abc = ?abc" by (rule filter_full)
  then have all: "?abc = hexs u @ rest" using digits ft by simp
  moreover have "rest = []" using arg_cong [OF all, of length] len u by simp
  ultimately have all: "?abc = hexs u" by simp
  obtain a' b' c' d' e' where u': "u = a' @ b' @ c' @ d' @ e'" "length a' = 4" "length b' = 2" "length c' = 2"
    "length d' = 2" "length e' = 6"
    "uuid7_display u = hexs a' @ ''-'' @ hexs b' @ ''-'' @ hexs c' @ ''-'' @ hexs d' @ ''-'' @ hexs e'"
    using u by (rule display_parts)
  have "a = hexs a'" "b = hexs b'" "c = hexs c'" "d = hexs d'" "e = hexs e'"
    using all u'(2-6) len unfolding u'(1) by simp_all
  with u valid t u'(7) show "length u = 16 \<and> from_bytes u = Inr u \<and> t = uuid7_display u" by simp
next
  assume a: "length u = 16 \<and> from_bytes u = Inr u \<and> t = uuid7_display u"
  then obtain a b c d e where u: "u = a @ b @ c @ d @ e" "length a = 4" "length b = 2" "length c = 2"
    "length d = 2" "length e = 6"
    "t = hexs a @ ''-'' @ hexs b @ ''-'' @ hexs c @ ''-'' @ hexs d @ ''-'' @ hexs e"
    using display_parts [of u] by metis
  have "filter (\<lambda>c. c \<noteq> CHR ''-'') t = hexs u" by (simp add: u(1,7) filter_hexs)
  moreover have "parse_bytes t 16 (hexs u) = Inr u" using parse_bytes_hexs [of t u "[]"] a by simp
  moreover have "length t = 36" "t ! 8 = CHR ''-''" "t ! 13 = CHR ''-''" "t ! 18 = CHR ''-''" "t ! 23 = CHR ''-''"
    using u(2-6) by (simp_all add: u(7) nth_append)
  ultimately show "uuid7_parse t = Inr u" using a by (simp add: uuid7_parse_def TEXT_LEN_def)
qed

text \<open>
  C19. The text form of an identity is unique and total: parsing accepts exactly the texts that
  display prints of a sixteen-byte value with the version and variant bits of a UUIDv7, and
  returns that value; so a text can be compared or used as a key without normalizing it.
\<close>

theorem uuid7_text_is_canonical:
  "uuid7_parse t = Inr u \<longleftrightarrow> length u = 16 \<and> from_bytes u = Inr u \<and> t = uuid7_display u"
  by (rule uuid7_parse_iff)

text \<open>The same for request identities, behind their prefix.\<close>

lemma request_id_text_is_canonical:
  "request_id_parse t = Inr r \<longleftrightarrow> length r = 16 \<and> from_bytes r = Inr r \<and> t = request_id_display r"
proof -
  have parse: "uuid7_parse s = Inr r \<longleftrightarrow> length r = 16 \<and> from_bytes r = Inr r \<and> s = uuid7_display r" for s
    by (rule uuid7_parse_iff)
  show ?thesis
  proof (cases "strip_prefix t PREFIX")
    case None
    then have "\<not> (\<exists>s. t = PREFIX @ s)" by (auto simp: strip_prefix_def split: if_splits)
    with None show ?thesis by (auto simp: request_id_parse_def request_id_display_def)
  next
    case (Some s)
    then have "t = PREFIX @ s" by (simp add: strip_prefix_Some)
    with Some parse [of s] show ?thesis
      by (auto simp: request_id_parse_def request_id_display_def split: sum.splits)
  qed
qed

lemma uuid7_display_inj:
  assumes "length u = 16" and "length v = 16" and "uuid7_display u = uuid7_display v"
  shows "u = v"
proof -
  have digits: "filter (\<lambda>c. c \<noteq> CHR ''-'') (uuid7_display w) = hexs w" if "length w = 16" for w
    by (rule display_parts [OF that]) (simp add: filter_hexs)
  with assms have "hexs u = hexs v" by metis
  then have "parse_bytes [] 16 (hexs u @ []) = parse_bytes [] 16 (hexs v @ [])" by simp
  with assms(1,2) show ?thesis using parse_bytes_hexs [of "[]" u "[]"] parse_bytes_hexs [of "[]" v "[]"] by simp
qed

section \<open>Parts\<close>

lemma version_byte:
  assumes "unat (seq :: u16) < 2 ^ 12"
  shows "unat (0x70 OR (ucast (drop_bit 8 seq) AND 0x0f) :: u8) = 112 + unat seq div 256"
proof -
  let ?h = "ucast (drop_bit 8 seq) :: u8"
  have h: "unat ?h = unat seq div 256" "unat seq div 256 < 16"
    using assms by (simp_all add: unsigned_ucast_eq unsigned_drop_bit_eq drop_bit_eq_div take_bit_eq_mod
        less_mult_imp_div_less unat_div)
  have "take_bit 4 ?h = ?h"
    using h by (simp add: word_unat_eq_iff unsigned_take_bit_eq take_bit_nat_eq_self)
  then have "?h AND 0x0f = ?h" by (simp add: take_bit_eq_mask mask_eq_exp_minus_1)
  moreover have "0x70 OR ?h = push_bit 4 7 OR ?h" by simp
  ultimately show ?thesis using unat_nibbles [of 7 ?h] h by simp
qed

lemma be_bytes_split: "be_bytes (j + k) n = be_bytes j (n div 256 ^ k) @ be_bytes k n"
proof (induction k arbitrary: n)
  case (Suc k)
  show ?case using Suc [of "n div 256"] by (simp add: div_mult2_eq)
qed simp

lemma low_byte: "unat (ucast (seq AND 0xff :: u16) :: u8) = unat seq mod 256"
proof -
  have "seq AND 0xff = take_bit 8 seq" by (simp add: take_bit_eq_mask mask_eq_exp_minus_1)
  then show ?thesis by (simp add: unsigned_ucast_eq unsigned_take_bit_eq take_bit_eq_mod unat_mod)
qed

lemma variant_byte: "drop_bit 6 ((b AND 0x3f) OR 0x80 :: u8) = 2"
proof -
  have "b AND 0x3f = take_bit 6 b" by (simp add: take_bit_eq_mask mask_eq_exp_minus_1)
  moreover have "drop_bit 6 (take_bit 6 b) = 0" by (rule bit_word_eqI) (auto simp: bit_simps)
  ultimately show ?thesis by simp
qed

lemma sequence_bytes:
  assumes "unat h = unat s div 256" and "unat l = unat s mod 256" and "unat s < 2 ^ 12"
  shows "unat (push_bit 8 (ucast (h :: u8)) OR ucast (l :: u8) :: u16) = unat (s :: u16)"
proof -
  let ?h = "ucast h :: u16" and ?l = "ucast l :: u16"
  have h: "unat ?h = unat s div 256" and l: "unat ?l = unat s mod 256"
    using unat_u8_less [of h] unat_u8_less [of l] assms
    by (simp_all add: unsigned_ucast_eq take_bit_nat_eq_self)
  have small: "take_bit 8 ?l = ?l"
    using l by (simp add: word_unat_eq_iff unsigned_take_bit_eq take_bit_nat_eq_self)
  have "push_bit 8 ?h AND take_bit 8 ?l = 0" by (rule bit_word_eqI) (auto simp: bit_simps)
  then have "push_bit 8 ?h AND ?l = 0" by (simp only: small)
  then have "push_bit 8 ?h OR ?l = push_bit 8 ?h + ?l" by (simp add: disjunctive_add_eq_or)
  moreover have "unat (push_bit 8 ?h) = (unat s div 256) * 256"
  proof -
    have "unat s div 256 * 256 < 2 ^ 16" using assms(3) by (simp add: div_times_less_eq_dividend [THEN le_less_trans])
    then show ?thesis
      unfolding unsigned_push_bit_eq h by (simp add: push_bit_nat_def take_bit_nat_eq_self)
  qed
  moreover have "(unat s div 256) * 256 + unat s mod 256 = unat s" by simp
  ultimately show ?thesis using l assms(3) by (simp add: unat_word_ariths)
qed

text \<open>What \<open>from_parts\<close> builds.\<close>

lemma from_parts_Inr:
  assumes "from_parts m s e = Inr u"
  shows "length u = 16 \<and> from_bytes u = Inr u \<and> timestamp_millis u = unat m \<and> sequence u = s
    \<and> be_value (take 8 u) = unat m * 65536 + 28672 + unat s"
proof -
  let ?r = "be_bytes 8 (unat e)"
  let ?v = "0x70 OR (ucast (drop_bit 8 s) AND 0x0f) :: u8" and ?l = "ucast (s AND 0xff) :: u8"
  have m: "unat m < 2 ^ 48" and s: "unat s < 2 ^ 12"
    and u: "u = drop 2 (be_bytes 8 (unat m)) @ [?v, ?l] @ ?r[0 := (?r ! 0 AND 0x3f) OR 0x80]"
    using assms by (auto simp: from_parts_def Let_def not_le split: if_splits)
  have six: "drop 2 (be_bytes 8 (unat m)) = be_bytes 6 (unat m)"
    using be_bytes_split [of 2 6 "unat m"] by simp
  have head: "take 6 u = be_bytes 6 (unat m)" "take 8 u = be_bytes 6 (unat m) @ [?v, ?l]"
    "u ! 6 = ?v" "u ! 7 = ?l" "u ! 8 = (?r ! 0 AND 0x3f) OR 0x80" "length u = 16"
    unfolding u six by (simp_all add: nth_append)
  have ts: "be_value (be_bytes 6 (unat m)) = unat m" using m by (simp add: be_value_be_bytes)
  have v: "unat ?v = 112 + unat s div 256" and l: "unat ?l = unat s mod 256"
    using version_byte [of s] s low_byte by simp_all
  have hi: "unat s div 256 < 16" using s by (simp add: less_mult_imp_div_less)
  have ver: "unat (drop_bit 4 ?v) = 7"
    unfolding unsigned_drop_bit_eq v using hi by (simp add: drop_bit_eq_div take_bit_nat_eq_self)
  then have "drop_bit 4 ?v = 7" by (simp add: word_unat_eq_iff)
  then have valid: "from_bytes u = Inr u" by (simp add: from_bytes_def head variant_byte Let_def)
  have "unat (?v AND 0x0f) = unat s div 256"
  proof -
    have "?v AND 0x0f = take_bit 4 ?v" by (simp only: take_bit_eq_mask) (simp add: mask_eq_exp_minus_1)
    then have "unat (?v AND 0x0f) = unat ?v mod 16" by (simp add: take_bit_eq_mod unat_mod)
    moreover have "(112 + unat s div 256) mod 16 = unat s div 256"
      using mod_mult_self1 [of "unat s div 256" 7 16] hi by (simp add: add.commute)
    ultimately show ?thesis by (simp only: v)
  qed
  then have "unat (sequence u) = unat s"
    unfolding sequence_def head(3,4)
    by (rule sequence_bytes [OF _ l s])
  then have "sequence u = s" by (simp add: word_unat_eq_iff)
  moreover have "timestamp_millis u = unat m" by (simp add: timestamp_millis_def head(1) ts)
  moreover have "be_value (take 8 u) = unat m * 65536 + 28672 + unat s"
    by (simp add: head(2) be_value_append ts v l)
  ultimately show ?thesis using valid head(6) by blast
qed

lemma uuid7_parts_fit: "from_parts m s e = Inr u \<Longrightarrow> unat m < 2 ^ 48 \<and> unat s < 2 ^ 12"
  by (auto simp: from_parts_def Let_def not_le split: if_splits)

text \<open>
  An identity built from its parts is a valid UUIDv7 that gives back exactly the
  milliseconds and the sequence it was built from, and it is refused exactly when one of them
  does not fit its field.
\<close>

theorem uuid7_carries_its_parts:
  "case from_parts m s e of
     Inl _ \<Rightarrow> 2 ^ 48 \<le> unat m \<or> 2 ^ 12 \<le> unat s
   | Inr u \<Rightarrow> unat m < 2 ^ 48 \<and> unat s < 2 ^ 12 \<and> length u = 16 \<and> from_bytes u = Inr u
       \<and> timestamp_millis u = unat m \<and> sequence u = s"
proof (cases "from_parts m s e")
  case (Inl x)
  then show ?thesis by (auto simp: from_parts_def Let_def split: if_splits)
next
  case (Inr u)
  from uuid7_parts_fit [OF this] from_parts_Inr [OF Inr] Inr show ?thesis by simp
qed

section \<open>Order of generation\<close>

definition stamp_value :: "generator \<Rightarrow> nat" where
  "stamp_value g = unat (fst g) * 4096 + unat (snd g)"

definition stamp_ok :: "generator \<Rightarrow> bool" where
  "stamp_ok g \<longleftrightarrow> unat (fst g) < 2 ^ 48 \<and> unat (snd g) < 2 ^ 12"

lemma unat_MAX [simp]: "unat MAX_MILLIS = 2 ^ 48 - 1" "unat MAX_SEQUENCE = 2 ^ 12 - 1"
  by (simp_all add: MAX_MILLIS_def MAX_SEQUENCE_def)

lemma unat_min: "unat (min a b) = min (unat a) (unat b)"
  by (simp add: min_def word_le_nat_alt)

lemma clamp_clock_le: "unat (clamp_clock since) < 2 ^ 48"
  by (auto simp: clamp_clock_def unat_min split: option.splits)

lemma next_stamp_ok:
  assumes "stamp_ok g" and "unat now < 2 ^ 48"
  shows "stamp_ok (next_stamp g now)"
    and "g \<noteq> (MAX_MILLIS, MAX_SEQUENCE) \<Longrightarrow> stamp_value g < stamp_value (next_stamp g now)"
proof -
  obtain m s where g: "g = (m, s)" by fastforce
  have m: "unat m < 2 ^ 48" and s: "unat s < 2 ^ 12" using assms(1) by (simp_all add: stamp_ok_def g)
  consider (clock) "m < now" | (sequence) "\<not> m < now" "s < MAX_SEQUENCE"
    | (carry) "\<not> m < now" "\<not> s < MAX_SEQUENCE"
    by blast
  then have "stamp_ok (next_stamp g now)
      \<and> (g \<noteq> (MAX_MILLIS, MAX_SEQUENCE) \<longrightarrow> stamp_value g < stamp_value (next_stamp g now))"
  proof cases
    case clock
    then show ?thesis
      using s assms(2) by (auto simp: next_stamp_def g stamp_ok_def stamp_value_def word_less_nat_alt)
  next
    case sequence
    then have "unat (s + 1) = Suc (unat s)" by (simp add: word_less_nat_alt unat_word_ariths)
    with sequence m show ?thesis
      by (simp add: next_stamp_def g stamp_ok_def stamp_value_def word_less_nat_alt)
  next
    case carry
    with s have s_max: "unat s = 4095" by (simp add: word_less_nat_alt)
    have le: "unat (min (saturating_add m 1) MAX_MILLIS) = min (Suc (unat m)) (2 ^ 48 - 1)"
      using m by (simp add: unat_min)
    have "unat m < 2 ^ 48 - 1" if "g \<noteq> (MAX_MILLIS, MAX_SEQUENCE)"
      using that s_max m by (auto simp: g word_unat_eq_iff)
    with carry le s_max show ?thesis
      by (auto simp: next_stamp_def g stamp_ok_def stamp_value_def)
  qed
  then show "stamp_ok (next_stamp g now)"
    and "g \<noteq> (MAX_MILLIS, MAX_SEQUENCE) \<Longrightarrow> stamp_value g < stamp_value (next_stamp g now)"
    by blast+
qed

lemma stamps_order_ids:
  assumes "from_parts m s e = Inr u" and "from_parts m' s' e' = Inr v"
    and "stamp_value (m, s) < stamp_value (m', s')"
  shows "bytes_less u v"
proof -
  note u = from_parts_Inr [OF assms(1)] and v = from_parts_Inr [OF assms(2)]
  have "unat s < 2 ^ 12" "unat s' < 2 ^ 12"
    using uuid7_parts_fit assms(1,2) by blast+
  moreover have "a * 65536 + x < b * 65536 + y"
    if "a * 4096 + x < b * 4096 + y" "x < 4096" "y < 4096" for a b x y :: nat
    using that by (cases a b rule: linorder_cases) linarith+
  ultimately have "be_value (take 8 u) < be_value (take 8 v)"
    using u v assms(3) by (auto simp: stamp_value_def)
  then have "bytes_less (take 8 u) (take 8 v)" using u v by (simp add: bytes_less_iff)
  then have "bytes_less (take 8 u @ drop 8 u) (take 8 v @ drop 8 v)"
    using u v by (intro bytes_less_prefix) simp_all
  then show ?thesis by simp
qed

text \<open>A run of the generator: the stamp and the identity of every call.\<close>

fun generate :: "generator \<Rightarrow> (nat option \<times> u64) list \<Rightarrow> (generator \<times> uuid7 option) list" where
  "generate g [] = []"
| "generate g ((since, entropy) # calls) =
     generator_next g since entropy # generate (fst (generator_next g since entropy)) calls"

lemma generator_next_stamp:
  assumes "stamp_ok g" and "generator_next g since e = (g', u)"
  obtains v where "g' = next_stamp g (clamp_clock since)" "stamp_ok g'" "u = Some v"
    "from_parts (fst g') (snd g') e = Inr v"
proof -
  have g': "g' = next_stamp g (clamp_clock since)"
    and u: "u = (case from_parts (fst g') (snd g') e of Inl _ \<Rightarrow> None | Inr u \<Rightarrow> Some u)"
    using assms(2) by (auto simp: generator_next_def Let_def)
  have ok: "stamp_ok g'" unfolding g' by (rule next_stamp_ok(1) [OF assms(1) clamp_clock_le])
  then obtain v where "from_parts (fst g') (snd g') e = Inr v"
    by (auto simp: from_parts_def stamp_ok_def Let_def not_le)
  with g' ok u show thesis by (intro that) simp_all
qed

lemma generate_ok:
  assumes "stamp_ok g" and "x \<in> set (generate g calls)"
  shows "stamp_ok (fst x) \<and> (\<exists>e v. snd x = Some v \<and> from_parts (fst (fst x)) (snd (fst x)) e = Inr v)"
  using assms
proof (induction calls arbitrary: g)
  case (Cons call calls)
  obtain since e where call: "call = (since, e)" by fastforce
  obtain g' u where r: "generator_next g since e = (g', u)" by fastforce
  obtain v where v: "stamp_ok g'" "u = Some v" "from_parts (fst g') (snd g') e = Inr v"
    by (rule generator_next_stamp [OF Cons.prems(1) r])
  consider "x = (g', u)" | "x \<in> set (generate g' calls)" using Cons.prems(2) by (auto simp: call r)
  then show ?case
  proof cases
    case 1
    with v show ?thesis by auto
  next
    case 2
    with Cons.IH [OF v(1)] show ?thesis by blast
  qed
qed simp

lemma generate_after:
  assumes "stamp_ok g" and "(MAX_MILLIS, MAX_SEQUENCE) \<notin> insert g (fst ` set (generate g calls))"
    and "x \<in> set (generate g calls)"
  shows "stamp_value g < stamp_value (fst x)"
  using assms
proof (induction calls arbitrary: g)
  case (Cons call calls)
  obtain since e where call: "call = (since, e)" by fastforce
  obtain g' u where r: "generator_next g since e = (g', u)" by fastforce
  have g': "g' = next_stamp g (clamp_clock since)" "stamp_ok g'"
    by (rule generator_next_stamp [OF Cons.prems(1) r], simp)+
  have "stamp_value g < stamp_value g'"
    unfolding g'(1) using Cons.prems(2) by (intro next_stamp_ok(2) [OF Cons.prems(1) clamp_clock_le]) auto
  moreover have "stamp_value g' < stamp_value (fst x)" if "x \<in> set (generate g' calls)"
    using Cons.prems(2) that by (intro Cons.IH g') (auto simp: call r)
  ultimately show ?case using Cons.prems(3) by (auto simp: call r)
qed simp

text \<open>
  C18. Identities come out strictly increasing in their byte order, however the clock behaves:
  stalled, stepped backwards, before the epoch or beyond the range.  No call panics.  The one
  exception is the end of the range, after the last stamp (\<open>MAX_MILLIS\<close>, \<open>MAX_SEQUENCE\<close>).
\<close>

theorem generated_ids_increase:
  "list_all (\<lambda>r. snd r \<noteq> None) (generate generator_new calls)
   \<and> ((MAX_MILLIS, MAX_SEQUENCE) \<notin> fst ` set (generate generator_new calls) \<longrightarrow>
        sorted_wrt (\<lambda>a b. bytes_less (the (snd a)) (the (snd b))) (generate generator_new calls))"
proof -
  have start: "stamp_ok generator_new" "generator_new \<noteq> (MAX_MILLIS, MAX_SEQUENCE)"
    by (simp_all add: stamp_ok_def generator_new_def MAX_MILLIS_def)
  have "sorted_wrt (\<lambda>a b. bytes_less (the (snd a)) (the (snd b))) (generate g calls)"
    if "stamp_ok g" "(MAX_MILLIS, MAX_SEQUENCE) \<notin> fst ` set (generate g calls)" for g
    using that
  proof (induction calls arbitrary: g)
    case (Cons call calls)
    obtain since e where call: "call = (since, e)" by fastforce
    obtain g' u where r: "generator_next g since e = (g', u)" by fastforce
    obtain v where v: "stamp_ok g'" "u = Some v" "from_parts (fst g') (snd g') e = Inr v"
      by (rule generator_next_stamp [OF Cons.prems(1) r])
    have later: "(MAX_MILLIS, MAX_SEQUENCE) \<notin> insert g' (fst ` set (generate g' calls))"
      using Cons.prems(2) by (auto simp: call r)
    have "bytes_less v (the (snd x))" if x: "x \<in> set (generate g' calls)" for x
    proof -
      obtain e' w where w: "snd x = Some w" "from_parts (fst (fst x)) (snd (fst x)) e' = Inr w"
        using generate_ok [OF v(1) x] by blast
      from stamps_order_ids [OF v(3) w(2)] generate_after [OF v(1) later x] w(1) show ?thesis by simp
    qed
    moreover have "sorted_wrt (\<lambda>a b. bytes_less (the (snd a)) (the (snd b))) (generate g' calls)"
      using v(1) later by (intro Cons.IH) auto
    ultimately show ?case by (simp add: call r v(2))
  qed simp
  note increasing = this [OF start(1)]
  have "snd r \<noteq> None" if "r \<in> set (generate generator_new calls)" for r
    using generate_ok [OF start(1) that] by auto
  with increasing show ?thesis by (auto simp: list_all_iff)
qed

theorem generated_ids_increase_witness:
  "map fst (generate generator_new [(Some 5, 1), (Some 3, 9), (None, 0), (Some 6, 2)])
     = [(5, 0), (5, 1), (5, 2), (6, 0)]
   \<and> sorted_wrt (\<lambda>a b. bytes_less (the (snd a)) (the (snd b)))
       (generate generator_new [(Some 5, 1), (Some 3, 9), (None, 0), (Some 6, 2)])"
proof -
  let ?run = "generate generator_new [(Some 5, 1), (Some 3, 9), (None, 0), (Some 6, 2)]"
  have stamps: "map fst ?run = [(5, 0), (5, 1), (5, 2), (6, 0)]"
    by (simp add: generator_next_def generator_new_def clamp_clock_def next_stamp_def MAX_MILLIS_def
        MAX_SEQUENCE_def Let_def)
  have "(MAX_MILLIS, MAX_SEQUENCE) \<notin> set (map fst ?run)"
    unfolding stamps by (simp add: MAX_MILLIS_def)
  then have "sorted_wrt (\<lambda>a b. bytes_less (the (snd a)) (the (snd b))) ?run"
    using generated_ids_increase [of "[(Some 5, 1), (Some 3, 9), (None, 0), (Some 6, 2)]"]
    unfolding set_map by blast
  with stamps show ?thesis by blast
qed

text \<open>At the end of the range the sequence restarts, below stamps already issued.\<close>

lemma generator_restarts_at_end_of_range:
  "next_stamp (MAX_MILLIS, MAX_SEQUENCE) now = (MAX_MILLIS, 0)
   \<or> MAX_MILLIS < now"
  by (auto simp: next_stamp_def word_unat_eq_iff unat_min)

end
