(* ===== verification/Journal.thy ===== *)
theory Journal
  imports Uuid "HOL-Library.AList"
begin

text \<open>
  The usage journal: the envelope and delivery types of \<open>crates/gateway/src/usage/journal.rs\<close>
  and the in-memory oracle of \<open>crates/gateway/src/usage/journal/oracle.rs\<close>, which the sources
  declare to be the definition of what every journal must do.  Its mutex makes every method
  atomic, so a method is a function from storage to storage and result.  A \<open>BTreeMap\<close> from
  consumers is an association list with distinct keys; positions and attempt counts are natural
  numbers.  \<open>SystemTime::now()\<close> is an argument.  The opaque JSON of a record has the type
  variable \<open>'v\<close>.
\<close>

section \<open>Records, events and deliveries\<close>

datatype status = StatusOk | UpstreamError | ClientCancelled | Partial | StatusRejected

record 'v usage_record =
  schema_version :: u32
  request_id_text :: string
  trace_id :: "string option"
  namespace :: string
  attrs :: "'v option"
  period :: "string option"
  subject :: string
  signer_kid :: "string option"
  model :: string
  target_provider :: string
  target_model :: string
  credential_source :: string
  credential_id :: string
  record_status :: status
  record_input_tokens :: u64
  record_cache_read_tokens :: u64
  record_cache_write_tokens :: u64
  record_output_tokens :: u64
  record_cost_microdollars :: "u64 option"
  catalog_version :: u64
  price_book :: "string option"
  price_book_checksum :: "string option"
  price_catalog :: "string option"
  latency_ms :: u64
  record_attempts :: u32

record 'v observed_record =
  observed_record_of :: "'v usage_record"
  observed_record_at :: instant

record ordering_key =
  key_namespace :: string
  key_subject :: string

definition ordering_key_of :: "'v usage_record \<Rightarrow> ordering_key" where
  "ordering_key_of r = \<lparr>key_namespace = namespace r, key_subject = subject r\<rparr>"

type_synonym idempotency_key = string

definition idempotency_key_from :: "request_id \<Rightarrow> idempotency_key" where
  "idempotency_key_from rid = request_id_display rid"

record 'v usage_event =
  event_id :: request_id
  idempotency_key :: idempotency_key
  event_ordering_key :: ordering_key
  event_record :: "'v usage_record"
  observed_at :: instant

datatype invalid_event = Identity string invalid_id

definition usage_event_new :: "'v observed_record \<Rightarrow> (invalid_event, 'v usage_event) result" where
  "usage_event_new observed =
     (let r = observed_record_of observed in
      case request_id_parse (request_id_text r) of
        Inl e \<Rightarrow> Inl (Identity (request_id_text r) e)
      | Inr rid \<Rightarrow>
          Inr \<lparr>event_id = rid, idempotency_key = idempotency_key_from rid,
               event_ordering_key = ordering_key_of r, event_record = r,
               observed_at = observed_record_at observed\<rparr>)"

definition is_same_fact_as :: "'v usage_event \<Rightarrow> 'v usage_event \<Rightarrow> bool" where
  "is_same_fact_as a b \<longleftrightarrow> event_record a = event_record b"

type_synonym consumer_id = string

datatype invalid_consumer_id = Empty | TooLong string nat | Character string char

definition MAX_LEN :: nat where "MAX_LEN = 63"

definition consumer_char :: "char \<Rightarrow> bool" where
  "consumer_char c \<longleftrightarrow> is_ascii_lowercase c \<or> is_ascii_digit c \<or> c = CHR ''-'' \<or> c = CHR ''_''"

text \<open>The refused character is reported by its first byte.\<close>

definition consumer_id_parse :: "string \<Rightarrow> (invalid_consumer_id, consumer_id) result" where
  "consumer_id_parse name =
     (if name = [] then Inl Empty
      else if MAX_LEN < length name then Inl (TooLong name MAX_LEN)
      else case find (\<lambda>c. \<not> consumer_char c) name of
        Some c \<Rightarrow> Inl (Character name c)
      | None \<Rightarrow> Inr name)"

record delivery_id =
  delivery_consumer :: consumer_id
  delivery_event :: request_id
  attempt :: nat

definition is_redelivery :: "delivery_id \<Rightarrow> bool" where
  "is_redelivery d \<longleftrightarrow> 1 < attempt d"

record 'v delivery =
  delivery_id :: delivery_id
  delivered_event :: "'v usage_event"
  lease_expires_at :: instant

record claim =
  claim_max_events :: nat
  lease :: duration
  claim_now :: instant

datatype appended = Accepted nat | AlreadyPresent nat

fun appended_position :: "appended \<Rightarrow> nat" where
  "appended_position (Accepted p) = p"
| "appended_position (AlreadyPresent p) = p"

fun is_new :: "appended \<Rightarrow> bool" where
  "is_new (Accepted p) = True"
| "is_new (AlreadyPresent p) = False"

datatype poison_reason = Malformed | Rejected | AttemptsExhausted

datatype capacity_policy = Refuse | DropOldest

definition can_lose_events :: "capacity_policy \<Rightarrow> bool" where
  "can_lose_events p \<longleftrightarrow> p = DropOldest"

record capacity =
  max_events :: nat
  max_delivery_attempts :: nat
  retain_acknowledged :: duration
  policy :: capacity_policy

definition BILLING_GRADE :: capacity where
  "BILLING_GRADE =
     \<lparr>max_events = 1000000, max_delivery_attempts = 8,
      retain_acknowledged = from_secs (24 * 60 * 60), policy = Refuse\<rparr>"

datatype journal_error =
    AtCapacity nat capacity
  | Conflict idempotency_key
  | NotOutstanding delivery_id
  | Quarantined delivery_id
  | AlreadyAcknowledged delivery_id
  | Backend string

record journal_stats =
  pending :: nat
  in_flight :: nat
  stats_quarantined :: nat
  oldest_pending_age :: "duration option"
  stats_dropped :: nat
  stats_capacity :: capacity

definition is_drained :: "journal_stats \<Rightarrow> bool" where
  "is_drained s \<longleftrightarrow> pending s = 0 \<and> in_flight s = 0"

section \<open>Storage\<close>

record 'v entry =
  position :: nat
  entry_event :: "'v usage_event"

record consumer_state =
  acked :: "nat set"
  quarantined :: "nat \<rightharpoonup> poison_reason"
  attempts :: "nat \<rightharpoonup> nat"
  leases :: "nat \<rightharpoonup> instant"

definition consumer_default :: consumer_state where
  "consumer_default =
     \<lparr>acked = {}, quarantined = Map.empty, attempts = Map.empty, leases = Map.empty\<rparr>"

record 'v storage =
  entries :: "'v entry list"
  positions :: "idempotency_key \<rightharpoonup> nat"
  consumers :: "(consumer_id \<times> consumer_state) list"
  next_position :: nat
  dropped :: nat

definition storage_default :: "'v storage" where
  "storage_default =
     \<lparr>entries = [], positions = Map.empty, consumers = [], next_position = 0, dropped = 0\<rparr>"

definition find_entry :: "'v storage \<Rightarrow> nat \<Rightarrow> 'v entry option" where
  "find_entry s p = find (\<lambda>e. position e = p) (entries s)"

definition is_quarantined :: "'v storage \<Rightarrow> nat \<Rightarrow> bool" where
  "is_quarantined s p \<longleftrightarrow> list_ex (\<lambda>(_, st). quarantined st p \<noteq> None) (consumers s)"

definition delivered :: "'v storage \<Rightarrow> nat list" where
  "delivered s =
     (if consumers s = [] then []
      else filter (\<lambda>p. list_all (\<lambda>(_, st). p \<in> acked st) (consumers s))
             (filter (\<lambda>p. \<not> is_quarantined s p) (map position (entries s))))"

definition forget_state :: "nat \<Rightarrow> consumer_state \<Rightarrow> consumer_state" where
  "forget_state p st =
     st\<lparr>acked := acked st - {p}, attempts := (attempts st)(p := None), leases := (leases st)(p := None)\<rparr>"

text \<open>\<open>Vec::remove\<close> of the first entry at the position.\<close>

fun remove_entry :: "nat \<Rightarrow> 'v entry list \<Rightarrow> 'v entry list" where
  "remove_entry p [] = []"
| "remove_entry p (e # es) = (if position e = p then es else e # remove_entry p es)"

definition forget :: "'v storage \<Rightarrow> nat \<Rightarrow> 'v storage" where
  "forget s p =
     (case find_entry s p of
        None \<Rightarrow> s
      | Some removed \<Rightarrow>
          s\<lparr>entries := remove_entry p (entries s),
            positions := (positions s)(idempotency_key (entry_event removed) := None),
            consumers := map (\<lambda>(c, st). (c, forget_state p st)) (consumers s)\<rparr>)"

fun reclaim_loop :: "nat list \<Rightarrow> nat \<Rightarrow> 'v storage \<Rightarrow> 'v storage" where
  "reclaim_loop [] n s = s"
| "reclaim_loop (p # ps) n s =
     (if length (entries s) < n then s else reclaim_loop ps n (forget s p))"

definition reclaim_delivered :: "'v storage \<Rightarrow> nat \<Rightarrow> 'v storage" where
  "reclaim_delivered s n = reclaim_loop (delivered s) n s"

definition prune_acknowledged :: "'v storage \<Rightarrow> duration \<Rightarrow> instant \<Rightarrow> 'v storage" where
  "prune_acknowledged s retain now =
     fold (\<lambda>p s. forget s p)
       (filter (\<lambda>p. case find_entry s p of
                      None \<Rightarrow> False
                    | Some e \<Rightarrow> observed_at (entry_event e) + retain \<le> now)
          (delivered s)) s"

section \<open>The operations\<close>

text \<open>The push that ends an append.\<close>

definition push_entry :: "'v storage \<Rightarrow> 'v usage_event \<Rightarrow> 'v storage" where
  "push_entry s ev =
     s\<lparr>next_position := Suc (next_position s),
       positions := (positions s)(idempotency_key ev \<mapsto> next_position s),
       entries := entries s @ [\<lparr>position = next_position s, entry_event = ev\<rparr>]\<rparr>"

text \<open>
  \<open>append\<close>.  The \<open>expect\<close> on the indexed position is a panic: the outer \<open>None\<close>.
\<close>

definition append ::
  "capacity \<Rightarrow> 'v storage \<Rightarrow> 'v usage_event \<Rightarrow> instant
     \<Rightarrow> ('v storage \<times> (journal_error, appended) result) option" where
  "append cap s0 ev now =
     (let s = prune_acknowledged s0 (retain_acknowledged cap) now in
      case positions s (idempotency_key ev) of
        Some p \<Rightarrow>
          (case find_entry s p of
             None \<Rightarrow> None
           | Some stored \<Rightarrow>
               Some (s, if is_same_fact_as (entry_event stored) ev then Inr (AlreadyPresent p)
                        else Inl (Conflict (idempotency_key ev))))
      | None \<Rightarrow>
          (let s1 = (if max_events cap \<le> length (entries s) then reclaim_delivered s (max_events cap) else s);
               retained = length (entries s1)
           in if max_events cap \<le> retained
              then (case policy cap of
                      Refuse \<Rightarrow> Some (s1, Inl (AtCapacity retained cap))
                    | DropOldest \<Rightarrow>
                        (case find (\<lambda>p. \<not> is_quarantined s1 p) (map position (entries s1)) of
                           None \<Rightarrow> Some (s1, Inl (AtCapacity retained cap))
                         | Some oldest \<Rightarrow>
                             (let s2 = (forget s1 oldest)\<lparr>dropped := Suc (dropped s1)\<rparr> in
                              Some (push_entry s2 ev, Inr (Accepted (next_position s2))))))
              else Some (push_entry s1 ev, Inr (Accepted (next_position s1)))))"

text \<open>The loop of \<open>claim\<close> over the entries: state, busy keys, claimed, poisoned.\<close>

fun claim_loop ::
  "capacity \<Rightarrow> consumer_id \<Rightarrow> claim \<Rightarrow> 'v entry list \<Rightarrow> consumer_state \<Rightarrow> ordering_key set
     \<Rightarrow> 'v delivery list \<Rightarrow> nat list \<Rightarrow> consumer_state \<times> 'v delivery list \<times> nat list" where
  "claim_loop cap c cl [] st busy claimed poisoned = (st, claimed, poisoned)"
| "claim_loop cap c cl (e # es) st busy claimed poisoned =
     (let p = position e; key = event_ordering_key (entry_event e) in
      if p \<in> acked st \<or> quarantined st p \<noteq> None
      then claim_loop cap c cl es st busy claimed poisoned
      else if (case leases st p of Some expiry \<Rightarrow> claim_now cl < expiry | None \<Rightarrow> False)
      then claim_loop cap c cl es st (insert key busy) claimed poisoned
      else
        (let st1 = st\<lparr>leases := (leases st)(p := None)\<rparr> in
         if key \<in> busy then claim_loop cap c cl es st1 busy claimed poisoned
         else
           (let n = (case attempts st1 p of Some k \<Rightarrow> k | None \<Rightarrow> 0) + 1 in
            if max_delivery_attempts cap < n
            then claim_loop cap c cl es st1 busy claimed (poisoned @ [p])
            else
              (let expiry = claim_now cl + lease cl;
                   st2 = st1\<lparr>attempts := (attempts st1)(p \<mapsto> n), leases := (leases st1)(p \<mapsto> expiry)\<rparr>;
                   d = \<lparr>delivery_id = \<lparr>delivery_consumer = c, delivery_event = event_id (entry_event e), attempt = n\<rparr>,
                        delivered_event = entry_event e, lease_expires_at = expiry\<rparr>;
                   claimed' = claimed @ [d]
               in if claim_max_events cl \<le> length claimed' then (st2, claimed', poisoned)
                  else claim_loop cap c cl es st2 (insert key busy) claimed' poisoned))))"

definition poison :: "consumer_state \<Rightarrow> nat \<Rightarrow> consumer_state" where
  "poison st p = st\<lparr>quarantined := (quarantined st)(p \<mapsto> AttemptsExhausted), leases := (leases st)(p := None)\<rparr>"

definition consumer_entry :: "'v storage \<Rightarrow> consumer_id \<Rightarrow> consumer_state" where
  "consumer_entry s c = (case map_of (consumers s) c of None \<Rightarrow> consumer_default | Some st \<Rightarrow> st)"

definition put_consumer :: "'v storage \<Rightarrow> consumer_id \<Rightarrow> consumer_state \<Rightarrow> 'v storage" where
  "put_consumer s c st = s\<lparr>consumers := AList.update c st (consumers s)\<rparr>"

definition claim_events ::
  "capacity \<Rightarrow> 'v storage \<Rightarrow> consumer_id \<Rightarrow> claim \<Rightarrow> 'v storage \<times> 'v delivery list" where
  "claim_events cap s c cl =
     (case claim_loop cap c cl (entries s) (consumer_entry s c) {} [] [] of
        (st, claimed, poisoned) \<Rightarrow> (put_consumer s c (fold (\<lambda>p st. poison st p) poisoned st), claimed))"

definition ack :: "'v storage \<Rightarrow> delivery_id \<Rightarrow> 'v storage \<times> (journal_error, unit) result" where
  "ack s d =
     (case positions s (idempotency_key_from (delivery_event d)) of
        None \<Rightarrow> (s, Inr ())
      | Some p \<Rightarrow>
          (case map_of (consumers s) (delivery_consumer d) of
             None \<Rightarrow> (s, Inl (NotOutstanding d))
           | Some st \<Rightarrow>
               if p \<in> acked st then (s, Inr ())
               else if quarantined st p \<noteq> None then (s, Inl (Quarantined d))
               else if attempts st p = None then (s, Inl (NotOutstanding d))
               else (put_consumer s (delivery_consumer d)
                       (st\<lparr>acked := insert p (acked st), leases := (leases st)(p := None)\<rparr>), Inr ())))"

definition relinquish :: "'v storage \<Rightarrow> delivery_id \<Rightarrow> 'v storage \<times> (journal_error, unit) result" where
  "relinquish s d =
     (case positions s (idempotency_key_from (delivery_event d)) of
        None \<Rightarrow> (s, Inr ())
      | Some p \<Rightarrow>
          (case map_of (consumers s) (delivery_consumer d) of
             None \<Rightarrow> (s, Inl (NotOutstanding d))
           | Some st \<Rightarrow>
               if p \<in> acked st \<or> quarantined st p \<noteq> None then (s, Inr ())
               else case attempts st p of
                 None \<Rightarrow> (s, Inl (NotOutstanding d))
               | Some n \<Rightarrow>
                   (if n = attempt d
                    then (put_consumer s (delivery_consumer d)
                            (st\<lparr>attempts := (attempts st)(p \<mapsto> n - 1)\<rparr>), Inr ())
                    else (s, Inr ()))))"

definition quarantine ::
  "'v storage \<Rightarrow> delivery_id \<Rightarrow> poison_reason \<Rightarrow> 'v storage \<times> (journal_error, unit) result" where
  "quarantine s d reason =
     (case positions s (idempotency_key_from (delivery_event d)) of
        None \<Rightarrow> (s, Inl (NotOutstanding d))
      | Some p \<Rightarrow>
          (case map_of (consumers s) (delivery_consumer d) of
             None \<Rightarrow> (s, Inl (NotOutstanding d))
           | Some st \<Rightarrow>
               if quarantined st p \<noteq> None then (s, Inr ())
               else if p \<in> acked st then (s, Inl (AlreadyAcknowledged d))
               else if attempts st p = None then (s, Inl (NotOutstanding d))
               else (put_consumer s (delivery_consumer d)
                       (st\<lparr>quarantined := (quarantined st)(p \<mapsto> reason), leases := (leases st)(p := None)\<rparr>),
                     Inr ())))"

text \<open>The class of an entry for \<open>stats\<close>, in the order the loop tests.\<close>

fun stats_loop ::
  "consumer_state option \<Rightarrow> instant \<Rightarrow> 'v entry list \<Rightarrow> journal_stats \<Rightarrow> instant option
     \<Rightarrow> journal_stats \<times> instant option" where
  "stats_loop st now [] stats oldest = (stats, oldest)"
| "stats_loop st now (e # es) stats oldest =
     (let p = position e;
          ack = (case st of None \<Rightarrow> False | Some x \<Rightarrow> p \<in> acked x);
          quar = (case st of None \<Rightarrow> False | Some x \<Rightarrow> quarantined x p \<noteq> None);
          leased = (case st of None \<Rightarrow> None | Some x \<Rightarrow> leases x p)
      in if quar then stats_loop st now es (stats\<lparr>stats_quarantined := Suc (stats_quarantined stats)\<rparr>) oldest
         else if ack then stats_loop st now es stats oldest
         else if (case leased of None \<Rightarrow> False | Some expiry \<Rightarrow> now < expiry)
         then stats_loop st now es (stats\<lparr>in_flight := Suc (in_flight stats)\<rparr>) oldest
         else
           (let observed = observed_at (entry_event e);
                oldest' = (case oldest of None \<Rightarrow> Some observed
                           | Some current \<Rightarrow> if observed < current then Some observed else oldest)
            in stats_loop st now es (stats\<lparr>pending := Suc (pending stats)\<rparr>) oldest'))"

definition journal_stats_of :: "capacity \<Rightarrow> 'v storage \<Rightarrow> consumer_id \<Rightarrow> instant \<Rightarrow> journal_stats" where
  "journal_stats_of cap s c now =
     (let (stats, oldest) =
            stats_loop (map_of (consumers s) c) now (entries s)
              \<lparr>pending = 0, in_flight = 0, stats_quarantined = 0, oldest_pending_age = None,
               stats_dropped = dropped s, stats_capacity = cap\<rparr> None
      in stats\<lparr>oldest_pending_age := map_option (saturating_duration_since now) oldest\<rparr>)"

section \<open>Sample values\<close>

text \<open>A record and its event, for evaluating the operations at concrete inputs.\<close>

definition sample_record :: "string \<Rightarrow> string \<Rightarrow> unit usage_record" where
  "sample_record rid who =
     \<lparr>schema_version = 2, request_id_text = rid, trace_id = None, namespace = ''default'', attrs = None,
      period = None, subject = who, signer_kid = None, model = ''openai/gpt'', target_provider = ''openai'',
      target_model = ''gpt'', credential_source = ''platform'', credential_id = ''key-1'',
      record_status = StatusOk, record_input_tokens = 10, record_cache_read_tokens = 0,
      record_cache_write_tokens = 0, record_output_tokens = 5, record_cost_microdollars = Some 7,
      catalog_version = 0, price_book = None, price_book_checksum = None, price_catalog = None,
      latency_ms = 12, record_attempts = 1\<rparr>"

definition sample_event :: "request_id \<Rightarrow> string \<Rightarrow> instant \<Rightarrow> unit usage_event" where
  "sample_event rid who at =
     (let r = sample_record (request_id_display rid) who in
      \<lparr>event_id = rid, idempotency_key = idempotency_key_from rid, event_ordering_key = ordering_key_of r,
       event_record = r, observed_at = at\<rparr>)"

lemma sample_event_sel [simp]:
  "event_id (sample_event rid who at) = rid"
  "idempotency_key (sample_event rid who at) = idempotency_key_from rid"
  "event_record (sample_event rid who at) = sample_record (request_id_display rid) who"
  by (simp_all add: sample_event_def Let_def)

end
