(* ===== verification/Bisection.thy ===== *)
theory Bisection
  imports Journal "HOL-Library.Multiset"
begin

text \<open>
  The part of a delivery pass an acknowledgement rests on, from
  \<open>crates/gateway/src/usage/journal/worker.rs\<close>: writing a claimed batch to every destination,
  and halving a refused batch until each refusal belongs to a single event.  A destination is
  a \<open>dyn UsageSink\<close>: any function of a world (the state of everything outside the worker) and
  a batch.  The bisection is a loop over levels; it is a \<open>partial_function\<close>, and that it
  returns is part of what is proved.
\<close>

section \<open>Writing and halving\<close>

definition event_observed :: "'v usage_event \<Rightarrow> 'v observed_record" where
  "event_observed ev = \<lparr>observed_record_of = event_record ev, observed_record_at = observed_at ev\<rparr>"

type_synonym ('w, 'v) sink = "'w \<Rightarrow> 'v observed_record list \<Rightarrow> 'w \<times> (string, unit) result"

fun write_batch :: "('w, 'v) sink list \<Rightarrow> 'w \<Rightarrow> 'v observed_record list \<Rightarrow> 'w \<times> bool" where
  "write_batch [] w batch = (w, True)"
| "write_batch (sink # sinks) w batch =
     (case sink w batch of
        (w', Inl e) \<Rightarrow> (w', False)
      | (w', Inr _) \<Rightarrow> write_batch sinks w' batch)"

definition worker_write :: "('w, 'v) sink list \<Rightarrow> 'w \<Rightarrow> 'v delivery list \<Rightarrow> 'w \<times> bool" where
  "worker_write sinks w claimed = write_batch sinks w (map (\<lambda>d. event_observed (delivered_event d)) claimed)"

type_synonym range = "nat \<times> nat"

definition halve :: "range \<Rightarrow> range \<times> range" where
  "halve r = (let mid = fst r + (snd r - fst r) div 2 in ((fst r, mid), (mid, snd r)))"

definition subrange :: "'a list \<Rightarrow> range \<Rightarrow> 'a list" where
  "subrange xs r = take (snd r - fst r) (drop (fst r) xs)"

record worker_delivered =
  landed :: "nat list"
  refused :: "nat list"

definition delivered_default :: worker_delivered where
  "delivered_default = \<lparr>landed = [], refused = []\<rparr>"

definition PROBE_WRITES :: nat where "PROBE_WRITES = 32"

section \<open>The bisection\<close>

text \<open>
  One level of the search, its ranges in the order the two \<open>for\<close> loops visit them: world,
  landed, orphans, refusals, and the next level.  \<open>Inl\<close> is the return out of both loops.
\<close>

fun probe_ranges ::
  "('w, 'v) sink list \<Rightarrow> 'v delivery list \<Rightarrow> range list \<Rightarrow> 'w \<Rightarrow> nat list \<Rightarrow> nat list \<Rightarrow> nat
     \<Rightarrow> (range \<times> range) list \<Rightarrow> 'w + 'w \<times> nat list \<times> nat list \<times> nat \<times> (range \<times> range) list" where
  "probe_ranges sinks claimed [] w ls os n next = Inr (w, ls, os, n, next)"
| "probe_ranges sinks claimed (r # rs) w ls os n next =
     (let (w', accepted) = worker_write sinks w (subrange claimed r) in
      if accepted then probe_ranges sinks claimed rs w' (ls @ [fst r..<snd r]) os n next
      else
        (let n' = Suc n;
             os' = (if snd r - fst r = 1 then os @ [fst r] else os);
             next' = (if snd r - fst r = 1 then next else next @ [halve r])
         in if ls = [] \<and> PROBE_WRITES \<le> n' then Inl w'
            else probe_ranges sinks claimed rs w' ls os' n' next'))"

definition level_ranges :: "(range \<times> range) list \<Rightarrow> range list" where
  "level_ranges level = concat (map (\<lambda>(l, r). [l, r]) level)"

partial_function (option) level_loop ::
  "('w, 'v) sink list \<Rightarrow> 'v delivery list \<Rightarrow> (range \<times> range) list \<Rightarrow> 'w \<Rightarrow> nat list \<Rightarrow> nat list \<Rightarrow> nat
     \<Rightarrow> ('w + 'w \<times> nat list \<times> nat list) option" where
  "level_loop sinks claimed level w ls os n =
     (if level = [] then Some (Inr (w, ls, os))
      else case probe_ranges sinks claimed (level_ranges level) w ls os n [] of
             Inl w' \<Rightarrow> Some (Inl w')
           | Inr (w', ls', os', n', next) \<Rightarrow> level_loop sinks claimed next w' ls' os' n')"

definition deliver_durably ::
  "('w, 'v) sink list \<Rightarrow> 'w \<Rightarrow> 'v delivery list \<Rightarrow> ('w \<times> worker_delivered) option" where
  "deliver_durably sinks w claimed =
     (let (w1, accepted) = worker_write sinks w claimed in
      if accepted then Some (w1, \<lparr>landed = [0..<length claimed], refused = []\<rparr>)
      else if length claimed = 1 then Some (w1, delivered_default)
      else
        (case level_loop sinks claimed [halve (0, length claimed)] w1 [] [] 1 of
           None \<Rightarrow> None
         | Some (Inl w') \<Rightarrow> Some (w', delivered_default)
         | Some (Inr (w', ls, os)) \<Rightarrow>
             Some (w', if ls = [] then delivered_default else \<lparr>landed = ls, refused = os\<rparr>)))"

section \<open>The invariant of the search\<close>

text \<open>
  Every index is landed, an orphan, or in exactly one range still to be probed; the refusals
  so far and those the open ranges can still cause are fewer than twice the batch.
\<close>

definition range_ok :: "nat \<Rightarrow> range \<Rightarrow> bool" where
  "range_ok m r \<longleftrightarrow> fst r < snd r \<and> snd r \<le> m"

definition open_indices :: "range list \<Rightarrow> nat list" where
  "open_indices rs = concat (map (\<lambda>r. [fst r..<snd r]) rs)"

definition open_probes :: "range list \<Rightarrow> nat" where
  "open_probes rs = sum_list (map (\<lambda>r. 2 * (snd r - fst r) - 1) rs)"

definition search_ok :: "nat \<Rightarrow> (nat \<Rightarrow> bool) \<Rightarrow> (nat \<Rightarrow> bool) \<Rightarrow> range list \<Rightarrow> nat list \<Rightarrow> nat list \<Rightarrow> nat \<Rightarrow> bool" where
  "search_ok m A R rs ls os n \<longleftrightarrow>
     list_all (range_ok m) rs
     \<and> mset (ls @ os @ open_indices rs) = mset [0..<m]
     \<and> n + open_probes rs \<le> 2 * m - 1
     \<and> list_all A ls \<and> list_all R os"

text \<open>\<open>i\<close> was in a batch every destination accepted; \<open>i\<close> was refused alone.\<close>

definition was_accepted :: "('w, 'v) sink list \<Rightarrow> 'v delivery list \<Rightarrow> nat \<Rightarrow> bool" where
  "was_accepted sinks claimed i \<longleftrightarrow>
     (\<exists>w w' a b. a \<le> i \<and> i < b \<and> b \<le> length claimed \<and> worker_write sinks w (subrange claimed (a, b)) = (w', True))"

definition was_refused_alone :: "('w, 'v) sink list \<Rightarrow> 'v delivery list \<Rightarrow> nat \<Rightarrow> bool" where
  "was_refused_alone sinks claimed i \<longleftrightarrow> (\<exists>w w'. worker_write sinks w [claimed ! i] = (w', False))"

text \<open>What an accepted range and a refused single event establish, as index predicates.\<close>

definition sound :: "('w, 'v) sink list \<Rightarrow> 'v delivery list \<Rightarrow> (nat \<Rightarrow> bool) \<Rightarrow> (nat \<Rightarrow> bool) \<Rightarrow> bool" where
  "sound sinks claimed A R \<longleftrightarrow>
     (\<forall>r w i. range_ok (length claimed) r \<and> snd (worker_write sinks w (subrange claimed r))
        \<and> fst r \<le> i \<and> i < snd r \<longrightarrow> A i)
     \<and> (\<forall>w i. i < length claimed \<and> \<not> snd (worker_write sinks w [claimed ! i]) \<longrightarrow> R i)"

lemma soundD:
  assumes "sound sinks claimed A R"
  shows "range_ok (length claimed) r \<Longrightarrow> worker_write sinks w (subrange claimed r) = (w', True)
      \<Longrightarrow> fst r \<le> i \<Longrightarrow> i < snd r \<Longrightarrow> A i"
    and "i < length claimed \<Longrightarrow> worker_write sinks w [claimed ! i] = (w', False) \<Longrightarrow> R i"
  using assms unfolding sound_def by (metis snd_conv)+

lemma subrange_all [simp]: "subrange xs (0, length xs) = xs"
  by (simp add: subrange_def)

lemma subrange_one: "i < length xs \<Longrightarrow> subrange xs (i, Suc i) = [xs ! i]"
  by (simp add: subrange_def take_Suc_conv_app_nth Cons_nth_drop_Suc [symmetric])

lemma open_simps [simp]:
  "open_indices [] = []" "open_indices (r # rs) = [fst r..<snd r] @ open_indices rs"
  "open_indices (rs @ rs') = open_indices rs @ open_indices rs'"
  "open_probes [] = 0" "open_probes (r # rs) = 2 * (snd r - fst r) - 1 + open_probes rs"
  "open_probes (rs @ rs') = open_probes rs + open_probes rs'"
  by (simp_all add: open_indices_def open_probes_def)

lemma level_ranges_simps [simp]:
  "level_ranges [] = []" "level_ranges ((l, r) # level) = l # r # level_ranges level"
  "level_ranges (level @ level') = level_ranges level @ level_ranges level'"
  by (simp_all add: level_ranges_def)

lemma upt_append_upt: "i \<le> j \<Longrightarrow> j \<le> k \<Longrightarrow> [i..<j] @ [j..<k] = [i..<k]"
  using upt_add_eq_append [of i j "k - j"] by simp

lemma halve_splits:
  assumes "range_ok m r" and "snd r - fst r \<noteq> 1" and "halve r = (l, l')"
  shows "range_ok m l" and "range_ok m l'"
    and "[fst l..<snd l] @ [fst l'..<snd l'] = [fst r..<snd r]"
    and "Suc (2 * (snd l - fst l) - 1 + (2 * (snd l' - fst l') - 1)) = 2 * (snd r - fst r) - 1"
    and "snd l - fst l < snd r - fst r" and "snd l' - fst l' < snd r - fst r"
proof -
  define mid where "mid = fst r + (snd r - fst r) div 2"
  have l: "l = (fst r, mid)" "l' = (mid, snd r)"
    using assms(3) by (auto simp: halve_def Let_def mid_def)
  have "fst r < mid" "mid < snd r" "snd r \<le> m"
    using assms(1,2) by (auto simp: range_ok_def mid_def)
  then show "range_ok m l" "range_ok m l'"
    "[fst l..<snd l] @ [fst l'..<snd l'] = [fst r..<snd r]"
    "Suc (2 * (snd l - fst l) - 1 + (2 * (snd l' - fst l') - 1)) = 2 * (snd r - fst r) - 1"
    "snd l - fst l < snd r - fst r" "snd l' - fst l' < snd r - fst r"
    by (auto simp: l range_ok_def upt_append_upt)
qed

lemma search_ok_accept:
  assumes "search_ok m A R (r # rs) ls os n" and "\<And>i. fst r \<le> i \<Longrightarrow> i < snd r \<Longrightarrow> A i"
  shows "search_ok m A R rs (ls @ [fst r..<snd r]) os n"
  using assms by (auto simp: search_ok_def list_all_iff ac_simps)

lemma search_ok_orphan:
  assumes "search_ok m A R (r # rs) ls os n" and "snd r - fst r = 1" and "R (fst r)"
  shows "search_ok m A R rs ls (os @ [fst r]) (Suc n)"
proof -
  have "snd r = Suc (fst r)" using assms(2) by linarith
  with assms show ?thesis by (simp add: search_ok_def ac_simps)
qed

lemma search_ok_halve:
  assumes "search_ok m A R (r # rs) ls os n" and "snd r - fst r \<noteq> 1"
  shows "search_ok m A R (rs @ level_ranges [halve r]) ls os (Suc n)"
proof -
  obtain l l' where h: "halve r = (l, l')" by (cases "halve r")
  have r: "range_ok m r" using assms(1) by (simp add: search_ok_def)
  note split = halve_splits [OF this assms(2) h]
  have "mset (open_indices (rs @ [l, l'])) = mset (open_indices (r # rs))"
    using arg_cong [OF split(3), of mset] by simp
  moreover have "Suc (open_probes (rs @ [l, l'])) = open_probes (r # rs)"
    using split(4) r unfolding range_ok_def open_simps by arith
  ultimately have "search_ok m A R (rs @ [l, l']) ls os (Suc n)"
    using assms(1) split(1,2) unfolding search_ok_def mset_append by (simp del: open_simps)
  then show ?thesis using h by simp
qed

lemma search_ok_perm: "search_ok m A R (rs @ rs' @ rs'') ls os n = search_ok m A R (rs @ rs'' @ rs') ls os n"
  by (auto simp: search_ok_def list_all_iff ac_simps)

lemma probe_ranges_ok:
  assumes "search_ok (length claimed) A R (rs @ level_ranges next) ls os n"
    and "probe_ranges sinks claimed rs w ls os n next = out"
    and sound: "sound sinks claimed A R"
    and "\<forall>r\<in>set rs. snd r - fst r \<le> Suc k" and "\<forall>r\<in>set (level_ranges next). snd r - fst r \<le> k"
  shows "case out of
      Inl _ \<Rightarrow> PROBE_WRITES \<le> 2 * length claimed - 1
    | Inr (w', ls', os', n', next') \<Rightarrow>
        search_ok (length claimed) A R (level_ranges next') ls' os' n'
        \<and> (\<forall>r\<in>set (level_ranges next'). snd r - fst r \<le> k)"
  using assms(1,2,4,5)
proof (induction rs arbitrary: w ls os n "next")
  case Nil
  then show ?case by auto
next
  case (Cons r rs)
  let ?m = "length claimed"
  have ok: "search_ok ?m A R (r # (rs @ level_ranges next)) ls os n" using Cons.prems(1) by simp
  then have r: "range_ok ?m r" by (simp add: search_ok_def)
  have rs: "\<forall>r\<in>set rs. snd r - fst r \<le> Suc k" using Cons.prems(3) by simp
  obtain w' accepted where w: "worker_write sinks w (subrange claimed r) = (w', accepted)" by fastforce
  show ?case
  proof (cases accepted)
    case True
    with w have "worker_write sinks w (subrange claimed r) = (w', True)" by simp
    then have "search_ok ?m A R (rs @ level_ranges next) (ls @ [fst r..<snd r]) os n"
      using ok soundD(1) [OF sound r] by (intro search_ok_accept) auto
    from Cons.IH [OF this _ rs Cons.prems(4)] Cons.prems(2) w True show ?thesis by simp
  next
    case False
    show ?thesis
    proof (cases "ls = [] \<and> PROBE_WRITES \<le> Suc n")
      case True
      have "Suc n \<le> n + open_probes (r # rs @ level_ranges next)"
        using r by (auto simp: range_ok_def)
      also have "\<dots> \<le> 2 * ?m - 1" using ok by (simp add: search_ok_def)
      finally have "PROBE_WRITES \<le> 2 * ?m - 1" using True by linarith
      with True False w Cons.prems(2) show ?thesis by auto
    next
      case go: False
      show ?thesis
      proof (cases "snd r - fst r = 1")
        case True
        then have "subrange claimed r = [claimed ! fst r]"
          using r subrange_one [of "fst r" claimed] by (simp add: range_ok_def subrange_def)
        with w False soundD(2) [OF sound, of "fst r" w w'] r have "R (fst r)" by (simp add: range_ok_def)
        moreover have "probe_ranges sinks claimed rs w' ls (os @ [fst r]) (Suc n) next = out"
          using True False go w Cons.prems(2) by (auto simp: Let_def split: if_splits)
        ultimately show ?thesis
          using Cons.IH [OF search_ok_orphan [OF ok True] _ rs Cons.prems(4)] by blast
      next
        case wide: False
        obtain l l' where h: "halve r = (l, l')" by (cases "halve r")
        have "search_ok ?m A R (rs @ level_ranges (next @ [halve r])) ls os (Suc n)"
          using search_ok_halve [OF ok wide] by simp
        moreover have "\<forall>r\<in>set (level_ranges (next @ [halve r])). snd r - fst r \<le> k"
          using halve_splits(5,6) [OF r wide h] Cons.prems(3,4) h by auto
        moreover have "probe_ranges sinks claimed rs w' ls os (Suc n) (next @ [halve r]) = out"
          using wide False go w Cons.prems(2) by (auto simp: Let_def split: if_splits)
        ultimately show ?thesis using Cons.IH [OF _ _ rs] by blast
      qed
    qed
  qed
qed

lemma search_ok_done:
  "search_ok m A R [] ls os n \<Longrightarrow> mset (ls @ os) = mset [0..<m] \<and> list_all A ls \<and> list_all R os"
  by (simp add: search_ok_def)

lemma level_loop_ok:
  assumes "search_ok (length claimed) A R (level_ranges level) ls os n"
    and sound: "sound sinks claimed A R"
    and "\<forall>r\<in>set (level_ranges level). snd r - fst r \<le> k"
  shows "\<exists>out. level_loop sinks claimed level w ls os n = Some out
    \<and> (case out of
         Inl _ \<Rightarrow> PROBE_WRITES \<le> 2 * length claimed - 1
       | Inr (w', ls', os') \<Rightarrow> mset (ls' @ os') = mset [0..<length claimed] \<and> list_all A ls' \<and> list_all R os')"
  using assms(1,3)
proof (induction k arbitrary: level w ls os n)
  case 0
  then have "level_ranges level = []"
    by (cases "level_ranges level") (auto simp: search_ok_def range_ok_def)
  then have "level = []" by (cases level) auto
  with 0 search_ok_done show ?case by (subst level_loop.simps) fastforce
next
  case (Suc k)
  show ?case
  proof (cases "level = []")
    case True
    with Suc.prems search_ok_done show ?thesis by (subst level_loop.simps) fastforce
  next
    case False
    define out where "out = probe_ranges sinks claimed (level_ranges level) w ls os n []"
    have step: "case out of
        Inl _ \<Rightarrow> PROBE_WRITES \<le> 2 * length claimed - 1
      | Inr (w', ls', os', n', next') \<Rightarrow>
          search_ok (length claimed) A R (level_ranges next') ls' os' n'
          \<and> (\<forall>r\<in>set (level_ranges next'). snd r - fst r \<le> k)"
      by (rule probe_ranges_ok [OF _ out_def [symmetric] sound Suc.prems(2)]) (use Suc.prems(1) in simp_all)
    show ?thesis
    proof (cases out)
      case (Inl w')
      with step False show ?thesis by (subst level_loop.simps) (simp add: out_def [symmetric])
    next
      case (Inr x)
      obtain w' ls' os' n' next' where x: "x = (w', ls', os', n', next')" by (metis prod_cases5)
      with step Inr have "search_ok (length claimed) A R (level_ranges next') ls' os' n'"
        and "\<forall>r\<in>set (level_ranges next'). snd r - fst r \<le> k" by simp_all
      from Suc.IH [OF this, of w'] Inr x False show ?thesis
        by (subst level_loop.simps) (simp add: out_def [symmetric])
    qed
  qed
qed

lemma delivered_spec:
  assumes "claimed \<noteq> []"
    and sound: "sound sinks claimed A R"
  obtains w' d where "deliver_durably sinks w claimed = Some (w', d)"
    and "landed d = [] \<longrightarrow> refused d = [] \<and> (PROBE_WRITES \<le> 2 * length claimed - 1 \<or> (\<forall>i<length claimed. R i))"
    and "landed d \<noteq> [] \<longrightarrow> mset (landed d @ refused d) = mset [0..<length claimed]"
    and "list_all A (landed d)" and "list_all R (refused d)"
proof -
  let ?m = "length claimed"
  obtain w1 accepted where w: "worker_write sinks w claimed = (w1, accepted)" by (cases "worker_write sinks w claimed")
  have whole: "range_ok ?m (0, ?m)" using assms(1) by (simp add: range_ok_def)
  consider "accepted" | "\<not> accepted" "?m = 1" | "\<not> accepted" "?m \<noteq> 1" by blast
  then show ?thesis
  proof cases
    case 1
    with w have "worker_write sinks w (subrange claimed (0, ?m)) = (w1, True)" by simp
    then have "list_all A [0..<?m]" using soundD(1) [OF sound whole] by (auto simp: list_all_iff)
    with 1 w assms(1) show ?thesis
      by (intro that [of w1 "\<lparr>landed = [0..<?m], refused = []\<rparr>"]) (simp_all add: deliver_durably_def)
  next
    case 2
    then obtain x where "claimed = [x]" by (cases claimed) auto
    with 2 w soundD(2) [OF sound, of 0 w w1] have "\<forall>i<?m. R i" by simp
    with 2 w show ?thesis
      by (intro that [of w1 delivered_default]) (simp_all add: deliver_durably_def delivered_default_def)
  next
    case 3
    have "search_ok ?m A R [(0, ?m)] [] [] 0" using whole by (simp add: search_ok_def)
    then have start: "search_ok ?m A R (level_ranges [halve (0, ?m)]) [] [] 1"
      using 3(2) search_ok_halve [of ?m A R "(0, ?m)" "[]"] by simp
    obtain l l' where h: "halve (0, ?m) = (l, l')" by (cases "halve (0, ?m)")
    then have narrow: "\<forall>r\<in>set (level_ranges [halve (0, ?m)]). snd r - fst r \<le> ?m"
      using halve_splits(5,6) [OF whole _ h] 3(2) by simp
    obtain out where out: "level_loop sinks claimed [halve (0, ?m)] w1 [] [] 1 = Some out"
      "case out of
         Inl _ \<Rightarrow> PROBE_WRITES \<le> 2 * ?m - 1
       | Inr (w', ls', os') \<Rightarrow> mset (ls' @ os') = mset [0..<?m] \<and> list_all A ls' \<and> list_all R os'"
      using level_loop_ok [OF start sound narrow, of w1] by blast
    show ?thesis
    proof (cases out)
      case (Inl w')
      with out 3 w show ?thesis
        by (intro that [of w' delivered_default]) (simp_all add: deliver_durably_def delivered_default_def)
    next
      case (Inr x)
      obtain w' ls os where x: "x = (w', ls, os)" by (cases x)
      have all: "\<forall>i<?m. R i" if "ls = []"
      proof -
        have "set os = {0..<?m}"
          using out(2) Inr x that mset_eq_setD [of os "[0..<?m]"] by simp
        with out(2) Inr x show ?thesis by (simp add: list_all_iff)
      qed
      show ?thesis
        using out Inr x 3 w all
        by (intro that [of w' "if ls = [] then delivered_default else \<lparr>landed = ls, refused = os\<rparr>"])
          (simp_all add: deliver_durably_def delivered_default_def split: if_splits)
    qed
  qed
qed

section \<open>Properties\<close>

lemma verdicts_sound: "sound sinks claimed (was_accepted sinks claimed) (was_refused_alone sinks claimed)"
  unfolding sound_def was_accepted_def was_refused_alone_def range_ok_def by (metis prod.collapse)

lemma delivered_partition:
  assumes "claimed \<noteq> []"
  obtains w' d where "deliver_durably sinks w claimed = Some (w', d)"
    and "distinct (landed d @ refused d)" and "set (landed d @ refused d) \<subseteq> {..<length claimed}"
    and "landed d = [] \<longrightarrow> refused d = []" and "list_all (was_accepted sinks claimed) (landed d)"
proof -
  obtain w' d where d: "deliver_durably sinks w claimed = Some (w', d)"
    and none: "landed d = [] \<longrightarrow> refused d = [] \<and> (PROBE_WRITES \<le> 2 * length claimed - 1
           \<or> (\<forall>i<length claimed. was_refused_alone sinks claimed i))"
    and some: "landed d \<noteq> [] \<longrightarrow> mset (landed d @ refused d) = mset [0..<length claimed]"
    and acc: "list_all (was_accepted sinks claimed) (landed d)"
    by (rule delivered_spec [OF assms verdicts_sound])
  have "distinct (landed d @ refused d) \<and> set (landed d @ refused d) \<subseteq> {..<length claimed}"
  proof (cases "landed d = []")
    case True
    with none show ?thesis by simp
  next
    case False
    with some have eq: "mset (landed d @ refused d) = mset [0..<length claimed]" by blast
    have "distinct (landed d @ refused d)" using mset_eq_imp_distinct_iff [OF eq] distinct_upt by blast
    moreover have "set (landed d @ refused d) = {..<length claimed}"
      using mset_eq_setD [OF eq] by (simp add: atLeast0LessThan del: mset_append)
    ultimately show ?thesis by blast
  qed
  with d none acc show ?thesis by (intro that) blast+
qed

lemma delivered_down:
  assumes "claimed \<noteq> []" and "\<forall>w batch. \<not> snd (write_batch sinks w batch)"
  shows "\<exists>w' d. deliver_durably sinks w claimed = Some (w', d) \<and> landed d = [] \<and> refused d = []"
proof -
  obtain w' d where d: "deliver_durably sinks w claimed = Some (w', d)" "landed d = [] \<longrightarrow> refused d = []"
    "list_all (was_accepted sinks claimed) (landed d)"
    by (rule delivered_partition [OF assms(1)])
  have "\<not> was_accepted sinks claimed i" for i
    using assms(2) by (metis was_accepted_def worker_write_def snd_conv)
  with d show ?thesis by (cases "landed d") auto
qed

lemma all_landed:
  assumes "distinct (landed d @ refused d)" and "set (landed d @ refused d) \<subseteq> {..<n}"
    and "\<not> length (landed d) < n"
  shows "set (landed d) = {..<n}" and "refused d = []"
proof -
  have "card (set (landed d)) = length (landed d)" using assms(1) by (simp add: distinct_card)
  moreover have "set (landed d) \<subseteq> {..<n}" using assms(2) by simp
  ultimately show eq: "set (landed d) = {..<n}"
    using assms(3) card_mono [of "{..<n}" "set (landed d)"] by (intro card_subset_eq) auto
  have "set (refused d) \<inter> set (landed d) = {}" using assms(1) by (simp add: Int_commute)
  moreover have "set (refused d) \<subseteq> set (landed d)" using assms(2) by (simp add: eq)
  ultimately have "set (refused d) = {}" using Int_absorb2 by metis
  then show "refused d = []" by simp
qed

text \<open>
  C11. A delivery pass over a claimed batch ends, whatever the destinations do.  What it reports
  landed was in a batch every destination accepted, what it reports refused was refused alone,
  and if anything landed then every event of the batch is reported exactly once, landed or
  refused.  If nothing landed nobody is refused: an outage condemns no one.
\<close>

theorem refusal_is_attributed:
  "claimed \<noteq> [] \<longrightarrow>
     (\<exists>w' d. deliver_durably sinks w claimed = Some (w', d)
        \<and> (landed d = [] \<longrightarrow> refused d = [])
        \<and> (landed d \<noteq> [] \<longrightarrow> mset (landed d @ refused d) = mset [0..<length claimed])
        \<and> (\<forall>i\<in>set (landed d). was_accepted sinks claimed i)
        \<and> (\<forall>i\<in>set (refused d). was_refused_alone sinks claimed i))"
proof
  assume "claimed \<noteq> []"
  then obtain w' d where "deliver_durably sinks w claimed = Some (w', d)"
    and "landed d = [] \<longrightarrow> refused d = [] \<and> (PROBE_WRITES \<le> 2 * length claimed - 1
           \<or> (\<forall>i<length claimed. was_refused_alone sinks claimed i))"
    and "landed d \<noteq> [] \<longrightarrow> mset (landed d @ refused d) = mset [0..<length claimed]"
    and "list_all (was_accepted sinks claimed) (landed d)"
    and "list_all (was_refused_alone sinks claimed) (refused d)"
    by (rule delivered_spec [OF _ verdicts_sound])
  then show "\<exists>w' d. deliver_durably sinks w claimed = Some (w', d)
        \<and> (landed d = [] \<longrightarrow> refused d = [])
        \<and> (landed d \<noteq> [] \<longrightarrow> mset (landed d @ refused d) = mset [0..<length claimed])
        \<and> (\<forall>i\<in>set (landed d). was_accepted sinks claimed i)
        \<and> (\<forall>i\<in>set (refused d). was_refused_alone sinks claimed i)"
    by (intro exI [of _ w'] exI [of _ d]) (simp add: list_all_iff)
qed

text \<open>Destinations whose verdict depends on the records alone: a batch is accepted iff every record is.\<close>

definition judges :: "('w, 'v) sink list \<Rightarrow> ('v observed_record \<Rightarrow> bool) \<Rightarrow> bool" where
  "judges sinks good \<longleftrightarrow> (\<forall>w batch. snd (write_batch sinks w batch) \<longleftrightarrow> list_all good batch)"

lemma judges_write:
  "judges sinks good \<Longrightarrow>
     snd (worker_write sinks w ds) \<longleftrightarrow> list_all (\<lambda>d. good (event_observed (delivered_event d))) ds"
  by (simp add: judges_def worker_write_def list.pred_map comp_def)

lemma nth_subrange: "range_ok (length xs) r \<Longrightarrow> fst r \<le> i \<Longrightarrow> i < snd r \<Longrightarrow> xs ! i \<in> set (subrange xs r)"
  unfolding subrange_def range_ok_def in_set_conv_nth by (rule exI [of _ "i - fst r"]) (auto simp: nth_take)

text \<open>
  C28. Against destinations that judge each record on its own, a batch of at most sixteen events
  with at least one acceptable event is sorted out exactly: the acceptable events land and the
  others are refused on their own account, however they are placed in the batch.
\<close>

theorem poison_is_isolated:
  assumes "judges sinks good" and "length claimed \<le> 16"
    and "j < length claimed" and "good (event_observed (delivered_event (claimed ! j)))"
  shows "\<exists>w' d. deliver_durably sinks w claimed = Some (w', d)
    \<and> set (landed d) = {i. i < length claimed \<and> good (event_observed (delivered_event (claimed ! i)))}
    \<and> set (refused d) = {i. i < length claimed \<and> \<not> good (event_observed (delivered_event (claimed ! i)))}"
proof -
  let ?g = "\<lambda>i. good (event_observed (delivered_event (claimed ! i)))"
  have "sound sinks claimed ?g (\<lambda>i. \<not> ?g i)"
    unfolding sound_def judges_write [OF assms(1)] by (auto simp: list_all_iff dest: nth_subrange)
  note spec = delivered_spec [OF _ this, of w]
  have "claimed \<noteq> []" using assms(3) by auto
  then obtain w' d where d: "deliver_durably sinks w claimed = Some (w', d)"
    and none: "landed d = [] \<longrightarrow> refused d = [] \<and> (PROBE_WRITES \<le> 2 * length claimed - 1 \<or> (\<forall>i<length claimed. \<not> ?g i))"
    and some: "landed d \<noteq> [] \<longrightarrow> mset (landed d @ refused d) = mset [0..<length claimed]"
    and good: "list_all ?g (landed d)" and bad: "list_all (\<lambda>i. \<not> ?g i) (refused d)"
    by (rule spec)
  have "landed d \<noteq> []" using none assms(2-4) by (auto simp: PROBE_WRITES_def)
  with some have "set (landed d @ refused d) = set [0..<length claimed]" by (intro mset_eq_setD) simp
  then have "set (landed d) \<union> set (refused d) = {..<length claimed}" by (simp add: atLeast0LessThan)
  with good bad have "set (landed d) = {i. i < length claimed \<and> ?g i}"
    "set (refused d) = {i. i < length claimed \<and> \<not> ?g i}"
    by (auto simp: list_all_iff set_eq_iff)
  with d show ?thesis by blast
qed

text \<open>A destination that is down, and counts the writes it refused.\<close>

definition down :: "string \<Rightarrow> (nat, 'v) sink" where
  "down e = (\<lambda>k batch. (Suc k, Inl e))"

lemma down_write [simp]: "worker_write [down e] k ds = (Suc k, False)"
  by (simp add: worker_write_def down_def)

lemma down_probe_ranges:
  assumes "probe_ranges [down e] claimed rs k [] os k next = out" and "k < PROBE_WRITES"
  shows "case out of Inl k' \<Rightarrow> k' = PROBE_WRITES
    | Inr (k', ls, os', n, next') \<Rightarrow> ls = [] \<and> n = k' \<and> k' < PROBE_WRITES"
  using assms
  by (induction rs arbitrary: k os "next") (auto simp: Let_def split: if_splits)

lemma down_level_loop:
  "level_loop sinks claimed level k ls os n = Some out \<Longrightarrow>
     sinks = [down e] \<and> ls = [] \<and> n = k \<and> k < PROBE_WRITES \<longrightarrow>
     (case out of Inl k' \<Rightarrow> k' \<le> PROBE_WRITES | Inr (k', ls', os') \<Rightarrow> ls' = [] \<and> k' \<le> PROBE_WRITES)"
proof (induction rule: level_loop.raw_induct [rotated, consumes 1, case_names unroll])
  case (unroll loop sinks claimed level k ls os n out)
  show ?case
  proof (intro impI, elim conjE)
    assume args: "sinks = [down e]" "ls = []" "n = k" "k < PROBE_WRITES"
    obtain x where x: "probe_ranges [down e] claimed (level_ranges level) k [] os k [] = x" by blast
    note step = down_probe_ranges [OF x args(4)]
    show "case out of Inl k' \<Rightarrow> k' \<le> PROBE_WRITES | Inr (k', ls', os') \<Rightarrow> ls' = [] \<and> k' \<le> PROBE_WRITES"
    proof (cases "level = []")
      case True
      with unroll(2) args show ?thesis by auto
    next
      case False
      with unroll(2) args x step show ?thesis
        by (cases x) (auto split: prod.split_asm dest!: unroll(1))
    qed
  qed
qed

text \<open>
  While a destination is down a delivery pass beats on it at most \<open>PROBE_WRITES\<close> times,
  however large the batch, and reports nothing landed and nobody refused.
\<close>

theorem outage_is_probed_boundedly:
  "claimed \<noteq> [] \<longrightarrow>
     (\<exists>k. deliver_durably [down e] 0 claimed = Some (k, delivered_default) \<and> k \<le> PROBE_WRITES)"
proof
  assume "claimed \<noteq> []"
  then obtain w' d where d: "deliver_durably [down e] 0 claimed = Some (w', d)"
    by (rule delivered_spec [OF _ verdicts_sound])
  show "\<exists>k. deliver_durably [down e] 0 claimed = Some (k, delivered_default) \<and> k \<le> PROBE_WRITES"
  proof (cases "length claimed = 1")
    case True
    then show ?thesis by (simp add: deliver_durably_def PROBE_WRITES_def)
  next
    case False
    with d obtain out where out: "level_loop [down e] claimed [halve (0, length claimed)] 1 [] [] 1 = Some out"
      by (auto simp: deliver_durably_def split: option.splits)
    show ?thesis
      using down_level_loop [OF out, of e] out False
      by (cases out) (auto simp: deliver_durably_def PROBE_WRITES_def)
  qed
qed

section \<open>A batch with one poison event\<close>

definition sample_batch :: "string list \<Rightarrow> unit delivery list" where
  "sample_batch names =
     map (\<lambda>who. \<lparr>delivery_id = \<lparr>delivery_consumer = ''billing'', delivery_event = [1], attempt = 1\<rparr>,
                  delivered_event = sample_event [1] who 5, lease_expires_at = 36\<rparr>) names"

definition healthy :: "unit observed_record \<Rightarrow> bool" where
  "healthy r \<longleftrightarrow> subject (observed_record_of r) \<noteq> ''mallory''"

definition picky :: "(nat, unit) sink" where
  "picky = (\<lambda>k batch. (Suc k, if list_all healthy batch then Inr () else Inl ''constraint violated''))"

lemma picky_judges: "judges [picky] healthy"
  by (auto simp: judges_def picky_def)

lemma sample_batch_sel [simp]:
  "length (sample_batch names) = length names"
  "i < length names \<Longrightarrow> healthy (event_observed (delivered_event (sample_batch names ! i))) \<longleftrightarrow> names ! i \<noteq> ''mallory''"
  by (simp_all add: sample_batch_def healthy_def event_observed_def sample_record_def)

lemma write_sample [simp]:
  "worker_write [picky] k (sample_batch names) = (Suc k, ''mallory'' \<notin> set names)"
  "take n (sample_batch names) = sample_batch (take n names)"
  "drop n (sample_batch names) = sample_batch (drop n names)"
  by (auto simp: worker_write_def picky_def sample_batch_def healthy_def event_observed_def
      sample_record_def list_all_iff take_map drop_map)

lemma deliver_sample:
  "deliver_durably [picky] 0 (sample_batch [''alice'', ''mallory'', ''bob'']) =
     Some (5, \<lparr>landed = [0, 2], refused = [1]\<rparr>)"
  by (simp add: deliver_durably_def level_loop.simps halve_def subrange_def PROBE_WRITES_def upt_conv_Cons)

theorem refusal_is_attributed_witness:
  "deliver_durably [picky] 0 (sample_batch [''alice'', ''mallory'', ''bob'']) =
     Some (5, \<lparr>landed = [0, 2], refused = [1]\<rparr>)
   \<and> was_refused_alone [picky] (sample_batch [''alice'', ''mallory'', ''bob'']) 1
   \<and> was_accepted [picky] (sample_batch [''alice'', ''mallory'', ''bob'']) 2"
proof -
  have "sample_batch [''alice'', ''mallory'', ''bob''] \<noteq> []" by (simp add: sample_batch_def)
  with refusal_is_attributed [of "sample_batch [''alice'', ''mallory'', ''bob'']" "[picky]" 0]
  show ?thesis by (simp add: deliver_sample)
qed

theorem poison_is_isolated_witness:
  "\<exists>w' d. deliver_durably [picky] 0 (sample_batch [''alice'', ''mallory'', ''bob'']) = Some (w', d)
     \<and> set (landed d) = {0, 2} \<and> set (refused d) = {1}"
proof -
  let ?names = "[''alice'', ''mallory'', ''bob'']"
  have "{i. i < length (sample_batch ?names) \<and> healthy (event_observed (delivered_event (sample_batch ?names ! i)))} = {0, 2}"
    "{i. i < length (sample_batch ?names) \<and> \<not> healthy (event_observed (delivered_event (sample_batch ?names ! i)))} = {1}"
    by (auto simp: less_Suc_eq numeral_2_eq_2)
  then show ?thesis using poison_is_isolated [OF picky_judges, of "sample_batch ?names" 0 0] by simp
qed

theorem outage_is_probed_boundedly_witness:
  "\<exists>k. deliver_durably [down ''refused''] 0 (sample_batch (replicate 100 ''alice'')) = Some (k, delivered_default)
     \<and> k \<le> PROBE_WRITES"
  using outage_is_probed_boundedly [of "sample_batch (replicate 100 ''alice'')" "''refused''"]
  by (simp add: sample_batch_def)

end
