(* ===== verification/Journal_Laws.thy ===== *)
theory Journal_Laws
  imports Journal
begin

text \<open>
  The invariant of the usage journal, that every operation keeps it, and what it gives: the
  bounded footprint, one event in flight per ordering key and that one the oldest, verdicts
  that exclude each other, and no event given up that was not delivered, dropped by an
  explicit policy, or both.
\<close>

section \<open>The invariant\<close>

abbreviation key_of :: "'v entry \<Rightarrow> ordering_key" where
  "key_of e \<equiv> event_ordering_key (entry_event e)"

definition unresolved :: "consumer_state \<Rightarrow> nat \<Rightarrow> bool" where
  "unresolved st p \<longleftrightarrow> p \<notin> acked st \<and> quarantined st p = None"

text \<open>The event at \<open>p\<close> is the oldest of its ordering key that the consumer has not resolved.\<close>

definition first_unresolved :: "consumer_state \<Rightarrow> 'v entry list \<Rightarrow> nat \<Rightarrow> bool" where
  "first_unresolved st es p \<longleftrightarrow>
     unresolved st p
     \<and> (\<exists>e\<in>set es. position e = p
          \<and> (\<forall>e'\<in>set es. key_of e' = key_of e \<and> unresolved st (position e') \<longrightarrow> p \<le> position e'))"

definition state_ok :: "capacity \<Rightarrow> 'v entry list \<Rightarrow> consumer_state \<Rightarrow> bool" where
  "state_ok cap es st \<longleftrightarrow>
     acked st \<union> dom (quarantined st) \<union> dom (attempts st) \<subseteq> position ` set es
     \<and> acked st \<inter> dom (quarantined st) = {}
     \<and> (\<forall>p n. attempts st p = Some n \<longrightarrow> n \<le> max_delivery_attempts cap)
     \<and> (\<forall>p. leases st p \<noteq> None \<longrightarrow> first_unresolved st es p)"

definition index_ok :: "'v storage \<Rightarrow> bool" where
  "index_ok s \<longleftrightarrow>
     (\<forall>k p. positions s k = Some p \<longleftrightarrow>
        (\<exists>e\<in>set (entries s). idempotency_key (entry_event e) = k \<and> position e = p))"

definition storage_ok :: "capacity \<Rightarrow> 'v storage \<Rightarrow> bool" where
  "storage_ok cap s \<longleftrightarrow>
     sorted_wrt (<) (map position (entries s))
     \<and> (\<forall>e\<in>set (entries s). position e < next_position s)
     \<and> index_ok s
     \<and> distinct (map fst (consumers s))
     \<and> (\<forall>st\<in>snd ` set (consumers s). state_ok cap (entries s) st)
     \<and> length (entries s) \<le> max_events cap"

lemma storage_okD:
  assumes "storage_ok cap s"
  shows "sorted_wrt (<) (map position (entries s))" and "distinct (map position (entries s))"
    and "inj_on position (set (entries s))"
    and "e \<in> set (entries s) \<Longrightarrow> position e < next_position s"
    and "index_ok s" and "distinct (map fst (consumers s))"
    and "(c, st) \<in> set (consumers s) \<Longrightarrow> state_ok cap (entries s) st"
    and "length (entries s) \<le> max_events cap"
proof -
  show s: "sorted_wrt (<) (map position (entries s))" using assms by (simp add: storage_ok_def)
  then show d: "distinct (map position (entries s))" using strict_sorted_iff by blast
  then show "inj_on position (set (entries s))" by (simp add: distinct_map)
  show "e \<in> set (entries s) \<Longrightarrow> position e < next_position s" "index_ok s"
    "distinct (map fst (consumers s))" "length (entries s) \<le> max_events cap"
    "(c, st) \<in> set (consumers s) \<Longrightarrow> state_ok cap (entries s) st"
    using assms by (force simp: storage_ok_def)+
qed

lemma stored_keys_inj:
  assumes ok: "storage_ok cap s"
  shows "inj_on (\<lambda>e. idempotency_key (entry_event e)) (set (entries s))"
proof (rule inj_onI)
  fix e e' assume e: "e \<in> set (entries s)" "e' \<in> set (entries s)"
    "idempotency_key (entry_event e) = idempotency_key (entry_event e')"
  then have "Some (position e) = Some (position e')"
    using storage_okD(5) [OF ok] unfolding index_ok_def by metis
  with storage_okD(3) [OF ok] e show "e = e'" by (simp add: inj_on_def)
qed

lemma storage_default_ok: "storage_ok cap storage_default"
  by (simp add: storage_ok_def storage_default_def index_ok_def)

section \<open>Forgetting\<close>

lemma remove_entry_filter:
  "distinct (map position es) \<Longrightarrow> remove_entry p es = filter (\<lambda>e. position e \<noteq> p) es"
proof (induction es)
  case (Cons e es)
  then have "position e \<notin> position ` set es" by simp
  then have "filter (\<lambda>e'. position e' \<noteq> position e) es = es"
    by (intro filter_True ballI) (metis imageI)
  with Cons show ?case by auto
qed simp

lemma find_entry_Some: "find_entry s p = Some e \<Longrightarrow> e \<in> set (entries s) \<and> position e = p"
  by (auto simp: find_entry_def find_Some_iff)

lemma find_entry_None: "find_entry s p = None \<longleftrightarrow> p \<notin> position ` set (entries s)"
  by (auto simp: find_entry_def find_None_iff)

lemma find_entry_position:
  "storage_ok cap s \<Longrightarrow> e \<in> set (entries s) \<Longrightarrow> find_entry s (position e) = Some e"
  unfolding find_entry_def by (rule find_by_key [OF storage_okD(3)])

lemma forget_sel [simp]:
  "next_position (forget s p) = next_position s" "dropped (forget s p) = dropped s"
  "map fst (consumers (forget s p)) = map fst (consumers s)"
  by (auto simp: forget_def comp_def case_prod_beta split: option.splits)

lemma entries_forget:
  assumes "storage_ok cap s"
  shows "entries (forget s p) = filter (\<lambda>e. position e \<noteq> p) (entries s)"
proof (cases "find_entry s p")
  case None
  then have "filter (\<lambda>e. position e \<noteq> p) (entries s) = entries s"
    by (intro filter_True) (auto simp: find_entry_None)
  with None show ?thesis by (simp add: forget_def)
next
  case (Some r)
  with remove_entry_filter [OF storage_okD(2) [OF assms], of p] show ?thesis by (simp add: forget_def)
qed

lemma unresolved_forget [simp]:
  "q \<noteq> p \<Longrightarrow> unresolved (forget_state p st) q = unresolved st q"
  by (auto simp: unresolved_def forget_state_def)

lemma first_unresolved_filter:
  assumes "first_unresolved st es q" and "q \<noteq> p"
  shows "first_unresolved (forget_state p st) (filter (\<lambda>e. position e \<noteq> p) es) q"
  using assms by (auto simp: first_unresolved_def)

lemma state_ok_forget:
  assumes "state_ok cap es st" and "quarantined st p = None"
  shows "state_ok cap (filter (\<lambda>e. position e \<noteq> p) es) (forget_state p st)"
proof -
  have "position ` set (filter (\<lambda>e. position e \<noteq> p) es) = position ` set es - {p}" by auto
  moreover have "first_unresolved (forget_state p st) (filter (\<lambda>e. position e \<noteq> p) es) q"
    if "leases (forget_state p st) q \<noteq> None" for q
    using assms(1) that by (intro first_unresolved_filter) (auto simp: state_ok_def forget_state_def split: if_splits)
  ultimately show ?thesis
    using assms by (auto simp: state_ok_def forget_state_def split: if_splits)
qed

lemma index_ok_forget:
  assumes ok: "storage_ok cap s" and found: "find_entry s p = Some r"
  shows "index_ok (forget s p)"
proof -
  have r: "r \<in> set (entries s)" "position r = p" using find_entry_Some [OF found] by auto
  have index: "positions s k = Some q \<longleftrightarrow>
      (\<exists>e\<in>set (entries s). idempotency_key (entry_event e) = k \<and> position e = q)" for k q
    using storage_okD(5) [OF ok] by (simp add: index_ok_def)
  have key: "positions s (idempotency_key (entry_event r)) = Some p" using index r by blast
  have pos: "positions (forget s p) = (positions s)(idempotency_key (entry_event r) := None)"
    by (simp add: forget_def found)
  show ?thesis
    unfolding index_ok_def
  proof (intro allI)
    fix k q
    show "positions (forget s p) k = Some q \<longleftrightarrow>
      (\<exists>e\<in>set (entries (forget s p)). idempotency_key (entry_event e) = k \<and> position e = q)"
    proof (cases "k = idempotency_key (entry_event r)")
      case True
      then have "position e = p" if "e \<in> set (entries s)" "idempotency_key (entry_event e) = k" for e
        using index [of k "position e"] key that by auto
      with True show ?thesis by (auto simp: pos entries_forget [OF ok])
    next
      case False
      have "e = r" if "e \<in> set (entries s)" "position e = p" for e
        using storage_okD(3) [OF ok] that r by (auto simp: inj_on_def)
      with False index [of k q] show ?thesis by (auto simp: pos entries_forget [OF ok])
    qed
  qed
qed

lemma is_quarantined_iff: "is_quarantined s p \<longleftrightarrow> (\<exists>c st. (c, st) \<in> set (consumers s) \<and> quarantined st p \<noteq> None)"
  by (auto simp: is_quarantined_def list_ex_iff)

lemma consumers_forget:
  "find_entry s p = Some r \<Longrightarrow> consumers (forget s p) = map (\<lambda>(c, st). (c, forget_state p st)) (consumers s)"
  by (simp add: forget_def)

lemma storage_ok_forget:
  assumes ok: "storage_ok cap s" and nq: "\<not> is_quarantined s p"
  shows "storage_ok cap (forget s p)"
proof (cases "find_entry s p")
  case None
  with ok show ?thesis by (simp add: forget_def)
next
  case (Some r)
  have sorted: "sorted_wrt (<) (map position (filter (\<lambda>e. position e \<noteq> p) (entries s)))"
    using storage_okD(1) [OF ok] by (simp add: sorted_wrt_map sorted_wrt_filter)
  have "state_ok cap (filter (\<lambda>e. position e \<noteq> p) (entries s)) st"
    if "st \<in> snd ` set (consumers (forget s p))" for st
    using that storage_okD(7) [OF ok] nq
    by (fastforce simp: consumers_forget [OF Some] is_quarantined_iff intro: state_ok_forget)
  with sorted index_ok_forget [OF ok Some] storage_okD(4,6,8) [OF ok] show ?thesis
    unfolding storage_ok_def entries_forget [OF ok]
    by (auto intro: order_trans [OF length_filter_le])
qed

text \<open>Forgetting leaves the quarantine table of every consumer alone.\<close>

lemma is_quarantined_forget [simp]: "is_quarantined (forget s p) q = is_quarantined s q"
  by (cases "find_entry s p") (force simp: forget_def is_quarantined_iff forget_state_def)+

section \<open>Making room\<close>

lemma fold_forget:
  assumes "storage_ok cap s" and "\<forall>p\<in>set ps. \<not> is_quarantined s p"
  shows "storage_ok cap (fold (\<lambda>p s. forget s p) ps s)
    \<and> entries (fold (\<lambda>p s. forget s p) ps s) = filter (\<lambda>e. position e \<notin> set ps) (entries s)
    \<and> next_position (fold (\<lambda>p s. forget s p) ps s) = next_position s
    \<and> dropped (fold (\<lambda>p s. forget s p) ps s) = dropped s
    \<and> map fst (consumers (fold (\<lambda>p s. forget s p) ps s)) = map fst (consumers s)"
  using assms
proof (induction ps arbitrary: s)
  case (Cons p ps)
  let ?s = "forget s p"
  have ok: "storage_ok cap ?s" using Cons.prems by (intro storage_ok_forget) simp_all
  note IH = Cons.IH [OF ok]
  have "filter (\<lambda>e. position e \<notin> set ps) (entries ?s) = filter (\<lambda>e. position e \<notin> set (p # ps)) (entries s)"
    unfolding entries_forget [OF Cons.prems(1)] by (auto intro: filter_cong)
  with IH Cons.prems(2) show ?case by simp
qed simp

lemma deliveredD:
  assumes "p \<in> set (delivered s)"
  shows "\<not> is_quarantined s p" and "consumers s \<noteq> []"
    and "(c, st) \<in> set (consumers s) \<Longrightarrow> p \<in> acked st" and "p \<in> position ` set (entries s)"
  using assms by (auto simp: delivered_def list_all_iff split: if_splits)

text \<open>What pruning and reclaiming do: forget some of the delivered events, and nothing else.\<close>

definition gives_up_delivered :: "'v storage \<Rightarrow> 'v storage \<Rightarrow> bool" where
  "gives_up_delivered s s' \<longleftrightarrow>
     (\<exists>ps. set ps \<subseteq> set (delivered s) \<and> s' = fold (\<lambda>p s. forget s p) ps s)"

lemma gives_up_delivered_ok:
  assumes "gives_up_delivered s s'" and "storage_ok cap s"
  obtains ps where "set ps \<subseteq> set (delivered s)" "storage_ok cap s'"
    "entries s' = filter (\<lambda>e. position e \<notin> set ps) (entries s)"
    "next_position s' = next_position s" "dropped s' = dropped s"
    "map fst (consumers s') = map fst (consumers s)"
proof -
  obtain ps where ps: "set ps \<subseteq> set (delivered s)" "s' = fold (\<lambda>p s. forget s p) ps s"
    using assms(1) by (auto simp: gives_up_delivered_def)
  then have "\<forall>p\<in>set ps. \<not> is_quarantined s p" using deliveredD(1) by blast
  from fold_forget [OF assms(2) this] ps show thesis by (intro that [of ps]) auto
qed

lemma prune_gives_up: "gives_up_delivered s (prune_acknowledged s retain now)"
  unfolding gives_up_delivered_def prune_acknowledged_def by (rule exI, rule conjI [OF _ refl]) auto

lemma reclaim_loop_fold:
  "\<exists>qs. set qs \<subseteq> set ps \<and> reclaim_loop ps n s = fold (\<lambda>p s. forget s p) qs s"
proof (induction ps arbitrary: s)
  case (Cons p ps)
  show ?case
  proof (cases "length (entries s) < n")
    case True
    then show ?thesis by (intro exI [of _ "[]"]) simp
  next
    case False
    obtain qs where "set qs \<subseteq> set ps" "reclaim_loop ps n (forget s p) = fold (\<lambda>p s. forget s p) qs (forget s p)"
      using Cons.IH by blast
    with False show ?thesis by (intro exI [of _ "p # qs"]) auto
  qed
qed simp

lemma reclaim_gives_up: "gives_up_delivered s (reclaim_delivered s n)"
  using reclaim_loop_fold [of "delivered s" n s] by (auto simp: gives_up_delivered_def reclaim_delivered_def)

lemma gives_up_refl: "gives_up_delivered s s"
  unfolding gives_up_delivered_def by (rule exI [of _ "[]"]) simp

section \<open>Appending\<close>

lemma state_ok_snoc:
  assumes "state_ok cap es st" and "\<forall>e\<in>set es. position e < position e'"
  shows "state_ok cap (es @ [e']) st"
proof -
  have "first_unresolved st (es @ [e']) p" if "first_unresolved st es p" for p
    using that assms(2) by (fastforce simp: first_unresolved_def)
  with assms(1) show ?thesis by (auto simp: state_ok_def)
qed

lemma storage_ok_push:
  assumes ok: "storage_ok cap s" and room: "length (entries s) < max_events cap"
    and fresh: "positions s (idempotency_key ev) = None"
  shows "storage_ok cap (push_entry s ev)"
proof -
  let ?e = "\<lparr>position = next_position s, entry_event = ev\<rparr>"
  have new: "\<forall>e\<in>set (entries s). position e < position ?e" using storage_okD(4) [OF ok] by simp
  have index: "positions s k = Some q \<longleftrightarrow>
      (\<exists>e\<in>set (entries s). idempotency_key (entry_event e) = k \<and> position e = q)" for k q
    using storage_okD(5) [OF ok] by (simp add: index_ok_def)
  have "index_ok (push_entry s ev)"
    unfolding index_ok_def
  proof (intro allI)
    fix k q
    have "idempotency_key (entry_event e) \<noteq> idempotency_key ev" if "e \<in> set (entries s)" for e
      using index [of "idempotency_key ev" "position e"] fresh that by auto
    with index [of k q] show "positions (push_entry s ev) k = Some q \<longleftrightarrow>
        (\<exists>e\<in>set (entries (push_entry s ev)). idempotency_key (entry_event e) = k \<and> position e = q)"
      by (auto simp: push_entry_def)
  qed
  moreover have "state_ok cap (entries s @ [?e]) st" if "st \<in> snd ` set (consumers s)" for st
    using that storage_okD(7) [OF ok] new by (intro state_ok_snoc) auto
  moreover have "sorted_wrt (<) (map position (entries s @ [?e]))"
    using storage_okD(1) [OF ok] new by (auto simp: sorted_wrt_append)
  ultimately show ?thesis
    using ok room new by (auto simp: storage_ok_def push_entry_def less_Suc_eq)
qed

lemma positions_forget_None:
  "positions s k = None \<Longrightarrow> positions (forget s p) k = None"
  by (auto simp: forget_def split: option.splits)

lemma positions_gives_up_None:
  assumes "gives_up_delivered s s'" and "positions s k = None"
  shows "positions s' k = None"
proof -
  obtain ps where "s' = fold (\<lambda>p s. forget s p) ps s" using assms(1) by (auto simp: gives_up_delivered_def)
  moreover have "positions (fold (\<lambda>p s. forget s p) ps s) k = None" if "positions s k = None" for s :: "'a storage"
    using that by (induction ps arbitrary: s) (simp_all add: positions_forget_None)
  ultimately show ?thesis using assms(2) by simp
qed

text \<open>
  Every way an append can end.  \<open>s1\<close> is the storage after pruning and, in a full journal,
  reclaiming.
\<close>

lemma append_cases:
  assumes ok: "storage_ok cap s"
  obtains (present) s1 stored where "gives_up_delivered s s1" "storage_ok cap s1" "stored \<in> set (entries s1)"
      "idempotency_key (entry_event stored) = idempotency_key ev"
      "append cap s ev now = Some (s1, if is_same_fact_as (entry_event stored) ev
         then Inr (AlreadyPresent (position stored)) else Inl (Conflict (idempotency_key ev)))"
  | (refused) s0 s1 where "gives_up_delivered s s0" "storage_ok cap s0" "gives_up_delivered s0 s1"
      "storage_ok cap s1" "length (entries s1) = max_events cap"
      "append cap s ev now = Some (s1, Inl (AtCapacity (length (entries s1)) cap))"
  | (dropped) s0 s1 oldest where "gives_up_delivered s s0" "storage_ok cap s0" "gives_up_delivered s0 s1"
      "storage_ok cap s1" "policy cap = DropOldest" "oldest \<in> position ` set (entries s1)"
      "\<not> is_quarantined s1 oldest" "length (entries s1) = max_events cap"
      "positions s1 (idempotency_key ev) = None"
      "append cap s ev now = Some (push_entry ((forget s1 oldest)\<lparr>dropped := Suc (dropped s1)\<rparr>) ev,
         Inr (Accepted (next_position s1)))"
  | (accepted) s0 s1 where "gives_up_delivered s s0" "storage_ok cap s0" "gives_up_delivered s0 s1"
      "storage_ok cap s1" "length (entries s1) < max_events cap"
      "positions s1 (idempotency_key ev) = None"
      "append cap s ev now = Some (push_entry s1 ev, Inr (Accepted (next_position s1)))"
proof -
  let ?s0 = "prune_acknowledged s (retain_acknowledged cap) now"
  let ?s1 = "if max_events cap \<le> length (entries ?s0) then reclaim_delivered ?s0 (max_events cap) else ?s0"
  have g0: "gives_up_delivered s ?s0" by (rule prune_gives_up)
  have ok0: "storage_ok cap ?s0" by (rule gives_up_delivered_ok [OF g0 ok])
  have g1: "gives_up_delivered ?s0 ?s1" by (simp add: reclaim_gives_up gives_up_refl)
  have ok1: "storage_ok cap ?s1" by (rule gives_up_delivered_ok [OF g1 ok0])
  have len: "length (entries ?s1) = max_events cap" if "max_events cap \<le> length (entries ?s1)"
    using storage_okD(8) [OF ok1] that by linarith
  show thesis
  proof (cases "positions ?s0 (idempotency_key ev)")
    case (Some p)
    then obtain e where e: "e \<in> set (entries ?s0)" "idempotency_key (entry_event e) = idempotency_key ev" "position e = p"
      using storage_okD(5) [OF ok0] by (auto simp: index_ok_def)
    have "find_entry ?s0 p = Some e" using find_entry_position [OF ok0 e(1)] e(3) by simp
    with Some e show thesis
      by (intro present [OF g0 ok0 e(1,2)]) (simp add: append_def Let_def)
  next
    case None
    have none: "positions ?s1 (idempotency_key ev) = None" by (rule positions_gives_up_None [OF g1 None])
    show thesis
    proof (cases "max_events cap \<le> length (entries ?s1)")
      case False
      then show thesis
        using None by (intro accepted [OF g0 ok0 g1 ok1 _ none]) (simp_all add: append_def Let_def)
    next
      case full: True
      show thesis
      proof (cases "policy cap = DropOldest \<and>
          find (\<lambda>p. \<not> is_quarantined ?s1 p) (map position (entries ?s1)) \<noteq> None")
        case True
        then obtain oldest where find: "find (\<lambda>p. \<not> is_quarantined ?s1 p) (map position (entries ?s1)) = Some oldest"
          by auto
        then have o: "oldest \<in> position ` set (entries ?s1)" "\<not> is_quarantined ?s1 oldest"
          by (auto simp: find_Some_iff)
        show thesis
          using None full find True
          by (intro dropped [OF g0 ok0 g1 ok1 _ o len [OF full] none])
            (simp_all add: append_def Let_def)
      next
        case False
        show thesis
          using None full False
          by (intro refused [OF g0 ok0 g1 ok1 len [OF full]])
            (cases "policy cap", auto simp: append_def Let_def split: option.splits)
      qed
    qed
  qed
qed

lemma storage_ok_dropped [simp]: "storage_ok cap (s\<lparr>dropped := n\<rparr>) = storage_ok cap s"
  by (simp add: storage_ok_def index_ok_def)

lemma forget_shortens:
  assumes "storage_ok cap s" and "p \<in> position ` set (entries s)"
  shows "length (entries (forget s p)) < length (entries s)"
proof -
  obtain e where "e \<in> set (entries s)" "position e = p" using assms(2) by auto
  then show ?thesis unfolding entries_forget [OF assms(1)] by (intro length_filter_less [of e]) simp_all
qed

lemma storage_ok_append:
  assumes "storage_ok cap s"
  obtains s' r where "append cap s ev now = Some (s', r)" "storage_ok cap s'"
  using assms
proof (cases rule: append_cases [where ev = ev and now = now])
  case (dropped s0 s1 oldest)
  have "storage_ok cap (forget s1 oldest)" by (rule storage_ok_forget [OF dropped(4,7)])
  moreover have "length (entries (forget s1 oldest)) < max_events cap"
    using forget_shortens [OF dropped(4,6)] dropped(8) by simp
  moreover have "positions (forget s1 oldest) (idempotency_key ev) = None"
    by (rule positions_forget_None [OF dropped(9)])
  ultimately show thesis by (intro that [OF dropped(10)] storage_ok_push) simp_all
next
  case (accepted s0 s1)
  then show thesis by (intro that [OF accepted(7)] storage_ok_push)
qed (blast intro: that)+

section \<open>Claiming\<close>

text \<open>
  What holds while \<open>claim\<close> walks the entries: \<open>ds\<close> are the entries it has passed, \<open>cs\<close> the ones
  it has claimed.  A passed event that is still open and not set aside has its key busy, and
  a lease is only ever held by the oldest open event of its key.
\<close>

definition open_in :: "consumer_state \<Rightarrow> nat list \<Rightarrow> nat \<Rightarrow> bool" where
  "open_in st poisoned p \<longleftrightarrow> unresolved st p \<and> p \<notin> set poisoned"

definition first_open :: "consumer_state \<Rightarrow> nat list \<Rightarrow> 'v entry list \<Rightarrow> nat \<Rightarrow> bool" where
  "first_open st poisoned es p \<longleftrightarrow>
     open_in st poisoned p
     \<and> (\<exists>e\<in>set es. position e = p
          \<and> (\<forall>e'\<in>set es. key_of e' = key_of e \<and> open_in st poisoned (position e') \<longrightarrow> p \<le> position e'))"

definition delivers :: "consumer_id \<Rightarrow> consumer_state \<Rightarrow> consumer_state \<Rightarrow> 'v entry \<Rightarrow> 'v delivery \<Rightarrow> bool" where
  "delivers c st0 st e d \<longleftrightarrow>
     (\<exists>n expiry. n = Suc (case attempts st0 (position e) of Some k \<Rightarrow> k | None \<Rightarrow> 0)
        \<and> attempts st (position e) = Some n \<and> leases st (position e) = Some expiry
        \<and> d = \<lparr>delivery_id = \<lparr>delivery_consumer = c, delivery_event = event_id (entry_event e), attempt = n\<rparr>,
               delivered_event = entry_event e, lease_expires_at = expiry\<rparr>)"

definition live :: "consumer_state \<Rightarrow> instant \<Rightarrow> nat \<Rightarrow> bool" where
  "live st now p \<longleftrightarrow> (case leases st p of Some expiry \<Rightarrow> now < expiry | None \<Rightarrow> False)"

definition loop_ok ::
  "capacity \<Rightarrow> consumer_id \<Rightarrow> claim \<Rightarrow> 'v entry list \<Rightarrow> consumer_state \<Rightarrow> 'v entry list
     \<Rightarrow> consumer_state \<Rightarrow> ordering_key set \<Rightarrow> 'v entry list \<Rightarrow> 'v delivery list \<Rightarrow> nat list \<Rightarrow> bool" where
  "loop_ok cap c cl es st0 ds st busy cs claimed poisoned \<longleftrightarrow>
     acked st = acked st0 \<and> quarantined st = quarantined st0
     \<and> set poisoned \<subseteq> position ` set ds \<and> (\<forall>p\<in>set poisoned. unresolved st p \<and> leases st p = None)
     \<and> (\<forall>p. leases st p \<noteq> None \<longrightarrow> first_open st poisoned es p)
     \<and> dom (attempts st) \<subseteq> position ` set es
     \<and> (\<forall>p n. attempts st p = Some n \<longrightarrow> n \<le> max_delivery_attempts cap)
     \<and> (\<forall>e\<in>set es - set ds. attempts st (position e) = attempts st0 (position e))
     \<and> (\<forall>e\<in>set es - set ds. leases st (position e) = leases st0 (position e))
     \<and> (\<forall>e\<in>set ds. open_in st poisoned (position e) \<longrightarrow> key_of e \<in> busy)
     \<and> (\<forall>k\<in>busy. \<exists>e\<in>set ds. key_of e = k \<and> (live st (claim_now cl) (position e) \<or> e \<in> set cs))
     \<and> set cs \<subseteq> set ds \<and> sorted_wrt (<) (map position cs)
     \<and> list_all2 (delivers c st0 st) cs claimed
     \<and> (\<forall>e\<in>set cs. \<not> live st0 (claim_now cl) (position e))"

lemma unresolved_update [simp]:
  "unresolved (st\<lparr>leases := x\<rparr>) p = unresolved st p" "unresolved (st\<lparr>attempts := y\<rparr>) p = unresolved st p"
  by (simp_all add: unresolved_def)

lemma open_in_update [simp]:
  "open_in (st\<lparr>leases := x\<rparr>) ps p = open_in st ps p" "open_in (st\<lparr>attempts := y\<rparr>) ps p = open_in st ps p"
  by (simp_all add: open_in_def)

lemma first_open_update [simp]:
  "first_open (st\<lparr>leases := x\<rparr>) ps es p = first_open st ps es p"
  "first_open (st\<lparr>attempts := y\<rparr>) ps es p = first_open st ps es p"
  by (simp_all add: first_open_def)

lemma delivers_cong:
  assumes "list_all2 (delivers c st0 st) cs claimed"
    and "\<And>e. e \<in> set cs \<Longrightarrow> attempts st' (position e) = attempts st (position e)"
    and "\<And>e. e \<in> set cs \<Longrightarrow> leases st' (position e) = leases st (position e)"
  shows "list_all2 (delivers c st0 st') cs claimed"
  using assms(1) by (rule list.rel_mono_strong) (simp add: delivers_def assms(2,3))

lemma first_open_poison:
  "first_open st ps es q \<Longrightarrow> q \<noteq> p \<Longrightarrow> first_open st (ps @ [p]) es q"
  by (auto simp: first_open_def open_in_def)

lemma live_update: "q \<noteq> p \<Longrightarrow> live (st\<lparr>leases := (leases st)(p := x)\<rparr>) now q = live st now q"
  by (simp add: live_def)

lemma live_attempts [simp]: "live (st\<lparr>attempts := y\<rparr>) now q = live st now q"
  by (simp add: live_def)

lemma entries_before:
  "es = ds @ e # rest \<Longrightarrow> sorted_wrt (<) (map position es) \<Longrightarrow>
     (\<forall>d\<in>set ds. position d < position e) \<and> (\<forall>r\<in>set rest. position e < position r)"
  by (auto simp: sorted_wrt_append)

lemma loop_okD:
  assumes "loop_ok cap c cl es st0 ds st busy cs claimed poisoned"
  shows "acked st = acked st0" and "quarantined st = quarantined st0"
    and "set poisoned \<subseteq> position ` set ds"
    and "\<forall>p\<in>set poisoned. unresolved st p \<and> leases st p = None"
    and "\<forall>p. leases st p \<noteq> None \<longrightarrow> first_open st poisoned es p"
    and "dom (attempts st) \<subseteq> position ` set es"
    and "\<forall>p n. attempts st p = Some n \<longrightarrow> n \<le> max_delivery_attempts cap"
    and "\<forall>e\<in>set es - set ds. attempts st (position e) = attempts st0 (position e)"
    and "\<forall>e\<in>set es - set ds. leases st (position e) = leases st0 (position e)"
    and "\<forall>e\<in>set ds. open_in st poisoned (position e) \<longrightarrow> key_of e \<in> busy"
    and "\<forall>k\<in>busy. \<exists>e\<in>set ds. key_of e = k \<and> (live st (claim_now cl) (position e) \<or> e \<in> set cs)"
    and "set cs \<subseteq> set ds" and "sorted_wrt (<) (map position cs)"
    and "list_all2 (delivers c st0 st) cs claimed"
    and "\<forall>e\<in>set cs. \<not> live st0 (claim_now cl) (position e)"
  using assms unfolding loop_ok_def by - ((elim conjE)?, assumption)+

lemma loop_okI:
  assumes "acked st = acked st0" and "quarantined st = quarantined st0"
    and "set poisoned \<subseteq> position ` set ds"
    and "\<forall>p\<in>set poisoned. unresolved st p \<and> leases st p = None"
    and "\<forall>p. leases st p \<noteq> None \<longrightarrow> first_open st poisoned es p"
    and "dom (attempts st) \<subseteq> position ` set es"
    and "\<forall>p n. attempts st p = Some n \<longrightarrow> n \<le> max_delivery_attempts cap"
    and "\<forall>e\<in>set es - set ds. attempts st (position e) = attempts st0 (position e)"
    and "\<forall>e\<in>set es - set ds. leases st (position e) = leases st0 (position e)"
    and "\<forall>e\<in>set ds. open_in st poisoned (position e) \<longrightarrow> key_of e \<in> busy"
    and "\<forall>k\<in>busy. \<exists>e\<in>set ds. key_of e = k \<and> (live st (claim_now cl) (position e) \<or> e \<in> set cs)"
    and "set cs \<subseteq> set ds" and "sorted_wrt (<) (map position cs)"
    and "list_all2 (delivers c st0 st) cs claimed"
    and "\<forall>e\<in>set cs. \<not> live st0 (claim_now cl) (position e)"
  shows "loop_ok cap c cl es st0 ds st busy cs claimed poisoned"
  unfolding loop_ok_def by (intro conjI assms)

lemma walk_resolved:
  assumes es: "es = ds @ e # rest" and inv: "loop_ok cap c cl es st0 ds st busy cs claimed poisoned"
    and resolved: "\<not> unresolved st (position e)"
  shows "loop_ok cap c cl es st0 (ds @ [e]) st busy cs claimed poisoned"
  by (rule loop_okI) (use loop_okD [OF inv] resolved in \<open>auto simp: open_in_def\<close>)

lemma walk_live:
  assumes es: "es = ds @ e # rest" and inv: "loop_ok cap c cl es st0 ds st busy cs claimed poisoned"
    and leased: "live st (claim_now cl) (position e)"
  shows "loop_ok cap c cl es st0 (ds @ [e]) st (insert (key_of e) busy) cs claimed poisoned"
  by (rule loop_okI) (use loop_okD [OF inv] leased in auto)

lemma walk_expire:
  assumes es: "es = ds @ e # rest" and sorted: "sorted_wrt (<) (map position es)"
    and inv: "loop_ok cap c cl es st0 ds st busy cs claimed poisoned"
    and covered: "unresolved st (position e) \<Longrightarrow> position e \<notin> set ps \<Longrightarrow> key_of e \<in> busy"
    and ps: "ps = poisoned \<or> ps = poisoned @ [position e] \<and> unresolved st (position e)"
    and st': "st' = st\<lparr>leases := (leases st)(position e := None)\<rparr>"
  shows "loop_ok cap c cl es st0 (ds @ [e]) st' busy cs claimed ps"
proof -
  let ?p = "position e"
  note order = entries_before [OF es sorted] and I = loop_okD [OF inv]
  have before: "position d \<noteq> ?p" if "d \<in> set ds" for d using order that by force
  have sel: "acked st' = acked st" "quarantined st' = quarantined st" "attempts st' q = attempts st q"
    "leases st' q = (if q = ?p then None else leases st q)" "unresolved st' q = unresolved st q"
    "open_in st' qs q = open_in st qs q" "first_open st' qs es q = first_open st qs es q" for q qs
    by (simp_all add: st')
  have live: "live st' now (position d) = live st now (position d)" if "d \<in> set ds" for d now
    using before [OF that] by (simp add: live_def sel)
  show ?thesis
  proof (rule loop_okI)
    show "list_all2 (delivers c st0 st') cs claimed"
      using I(12) before by (intro delivers_cong [OF I(14)]) (auto simp: sel)
    show "\<forall>k\<in>busy. \<exists>d\<in>set (ds @ [e]). key_of d = k \<and> (live st' (claim_now cl) (position d) \<or> d \<in> set cs)"
    proof
      fix k assume "k \<in> busy"
      with I(11) obtain d where d: "d \<in> set ds" "key_of d = k" "live st (claim_now cl) (position d) \<or> d \<in> set cs"
        by blast
      with live [OF d(1)] show "\<exists>d\<in>set (ds @ [e]). key_of d = k \<and> (live st' (claim_now cl) (position d) \<or> d \<in> set cs)"
        by auto
    qed
    show "\<forall>q. leases st' q \<noteq> None \<longrightarrow> first_open st' ps es q"
      using I(5) ps by (auto simp: sel intro: first_open_poison)
    show "\<forall>d\<in>set (ds @ [e]). open_in st' ps (position d) \<longrightarrow> key_of d \<in> busy"
      using I(10) covered ps by (auto simp: open_in_def sel)
    show "\<forall>q\<in>set ps. unresolved st' q \<and> leases st' q = None" using I(4) ps by (auto simp: sel)
    show "set ps \<subseteq> position ` set (ds @ [e])" using I(3) ps by auto
    show "\<forall>d\<in>set es - set (ds @ [e]). leases st' (position d) = leases st0 (position d)"
      using I(9) order es by (auto simp: sel)
    show "dom (attempts st') \<subseteq> position ` set es" using I(6) by (simp add: st')
    show "\<forall>d\<in>set es - set (ds @ [e]). attempts st' (position d) = attempts st0 (position d)"
      using I(8) by (simp add: sel)
  qed (use I(1,2,7,12,13,15) in \<open>auto simp: sel\<close>)
qed

lemma walk_claim:
  assumes es: "es = ds @ e # rest" and sorted: "sorted_wrt (<) (map position es)"
    and inv: "loop_ok cap c cl es st0 ds st busy cs claimed poisoned"
    and dead: "\<not> live st (claim_now cl) (position e)" and unres: "unresolved st (position e)"
    and idle: "key_of e \<notin> busy"
    and n: "n = (case attempts st (position e) of Some k \<Rightarrow> k | None \<Rightarrow> 0) + 1" "n \<le> max_delivery_attempts cap"
    and st': "st' = st\<lparr>attempts := (attempts st)(position e \<mapsto> n), leases := (leases st)(position e \<mapsto> expiry)\<rparr>"
    and d: "d = \<lparr>delivery_id = \<lparr>delivery_consumer = c, delivery_event = event_id (entry_event e), attempt = n\<rparr>,
                 delivered_event = entry_event e, lease_expires_at = expiry\<rparr>"
  shows "loop_ok cap c cl es st0 (ds @ [e]) st' (insert (key_of e) busy) (cs @ [e]) (claimed @ [d]) poisoned"
proof -
  let ?p = "position e"
  note order = entries_before [OF es sorted] and I = loop_okD [OF inv]
  have before: "position x \<noteq> ?p" if "x \<in> set ds" for x using order that by force
  have same: "e \<in> set es - set ds" using es order by auto
  have old: "attempts st ?p = attempts st0 ?p" "leases st ?p = leases st0 ?p" using I(8,9) same by blast+
  have fresh: "?p \<notin> set poisoned"
  proof
    assume "?p \<in> set poisoned"
    with I(3) have "?p \<in> position ` set ds" by (rule subsetD)
    then obtain x where "?p = position x" "x \<in> set ds" by (rule imageE)
    with before [of x] show False by simp
  qed
  have sel: "acked st' = acked st" "quarantined st' = quarantined st"
    "attempts st' q = (if q = ?p then Some n else attempts st q)"
    "leases st' q = (if q = ?p then Some expiry else leases st q)" "unresolved st' q = unresolved st q"
    "open_in st' poisoned q = open_in st poisoned q" "first_open st' poisoned es q = first_open st poisoned es q" for q
    by (simp_all add: st')
  have live: "live st' now (position x) = live st now (position x)" if "x \<in> set ds" for x now
    using before [OF that] by (simp add: live_def sel)
  have "?p \<le> position x" if "x \<in> set es" "key_of x = key_of e" "open_in st poisoned (position x)" for x
  proof (cases "x \<in> set ds")
    case True
    with I(10) that idle show ?thesis by auto
  next
    case False
    with that(1) es order show ?thesis by auto
  qed
  then have first: "first_open st poisoned es ?p"
    using unres fresh es unfolding first_open_def open_in_def [of st poisoned ?p] by auto
  show ?thesis
  proof (rule loop_okI)
    have "list_all2 (delivers c st0 st') cs claimed"
      using I(12) before by (intro delivers_cong [OF I(14)]) (auto simp: sel)
    moreover have "delivers c st0 st' e d" using old n by (simp add: delivers_def sel d)
    ultimately show "list_all2 (delivers c st0 st') (cs @ [e]) (claimed @ [d])"
      by (simp add: list_all2_appendI)
    show "\<forall>k\<in>insert (key_of e) busy. \<exists>x\<in>set (ds @ [e]). key_of x = k
        \<and> (live st' (claim_now cl) (position x) \<or> x \<in> set (cs @ [e]))"
    proof
      fix k assume k: "k \<in> insert (key_of e) busy"
      show "\<exists>x\<in>set (ds @ [e]). key_of x = k \<and> (live st' (claim_now cl) (position x) \<or> x \<in> set (cs @ [e]))"
      proof (cases "k = key_of e")
        case False
        with k I(11) obtain x where x: "x \<in> set ds" "key_of x = k" "live st (claim_now cl) (position x) \<or> x \<in> set cs"
          by blast
        with live [OF x(1)] show ?thesis by auto
      qed simp
    qed
    show "sorted_wrt (<) (map position (cs @ [e]))" using I(12,13) order by (auto simp: sorted_wrt_append)
    show "\<forall>x\<in>set (cs @ [e]). \<not> live st0 (claim_now cl) (position x)"
      using I(15) dead old by (auto simp: live_def)
    have "dom (attempts st') = insert ?p (dom (attempts st))" by (auto simp: st')
    with I(6) es show "dom (attempts st') \<subseteq> position ` set es" by simp
    show "\<forall>q\<in>set poisoned. unresolved st' q \<and> leases st' q = None" using I(4) fresh by (auto simp: sel)
    show "\<forall>x\<in>set es - set (ds @ [e]). attempts st' (position x) = attempts st0 (position x)"
      "\<forall>x\<in>set es - set (ds @ [e]). leases st' (position x) = leases st0 (position x)"
      using I(8,9) order es by (auto simp: sel)
    show "\<forall>q. leases st' q \<noteq> None \<longrightarrow> first_open st' poisoned es q" using I(5) first by (auto simp: sel)
    show "\<forall>q k. attempts st' q = Some k \<longrightarrow> k \<le> max_delivery_attempts cap" using I(7) n(2) by (auto simp: sel)
    show "\<forall>x\<in>set (ds @ [e]). open_in st' poisoned (position x) \<longrightarrow> key_of x \<in> insert (key_of e) busy"
      using I(10) by (auto simp: sel)
  qed (use I(1,2,3,12) in \<open>auto simp: sel\<close>)
qed

lemma claim_loop_ok:
  assumes "es = ds @ rest" and "sorted_wrt (<) (map position es)"
    and "loop_ok cap c cl es st0 ds st busy cs claimed poisoned"
    and "claim_loop cap c cl rest st busy claimed poisoned = (st', claimed', poisoned')"
  shows "\<exists>ds' busy' cs'. loop_ok cap c cl es st0 ds' st' busy' cs' claimed' poisoned' \<and> set ds' \<subseteq> set es
    \<and> (set ds' = set es \<or> claimed' \<noteq> [])"
  using assms
proof (induction rest arbitrary: ds st busy cs claimed poisoned)
  case Nil
  then show ?case by force
next
  case (Cons e rest)
  let ?p = "position e"
  note es = Cons.prems(1) and sorted = Cons.prems(2) and inv = Cons.prems(3) and loop = Cons.prems(4)
  have es': "es = (ds @ [e]) @ rest" using es by simp
  note IH = Cons.IH [OF es' sorted]
  let ?st1 = "st\<lparr>leases := (leases st)(?p := None)\<rparr>"
  let ?n = "(case attempts st ?p of Some k \<Rightarrow> k | None \<Rightarrow> 0) + 1"
  consider (resolved) "\<not> unresolved st ?p"
    | (live) "unresolved st ?p" "live st (claim_now cl) ?p"
    | (busy) "unresolved st ?p" "\<not> live st (claim_now cl) ?p" "key_of e \<in> busy"
    | (poison) "unresolved st ?p" "\<not> live st (claim_now cl) ?p" "key_of e \<notin> busy"
        "max_delivery_attempts cap < ?n"
    | (claim) "unresolved st ?p" "\<not> live st (claim_now cl) ?p" "key_of e \<notin> busy"
        "?n \<le> max_delivery_attempts cap"
    by linarith
  then show ?case
  proof cases
    case resolved
    then show ?thesis
      using loop by (intro IH [OF walk_resolved [OF es inv resolved]]) (auto simp: unresolved_def)
  next
    case live
    then show ?thesis
      using loop by (intro IH [OF walk_live [OF es inv live(2)]]) (auto simp: unresolved_def live_def)
  next
    case busy
    have "loop_ok cap c cl es st0 (ds @ [e]) ?st1 busy cs claimed poisoned"
      by (rule walk_expire [OF es sorted inv]) (use busy in auto)
    then show ?thesis
      using loop busy by (intro IH) (auto simp: unresolved_def live_def Let_def)
  next
    case poison
    have "loop_ok cap c cl es st0 (ds @ [e]) ?st1 busy cs claimed (poisoned @ [?p])"
      by (rule walk_expire [OF es sorted inv]) (use poison in auto)
    then show ?thesis
      using loop poison by (intro IH) (auto simp: unresolved_def live_def Let_def)
  next
    case claim
    define n where "n = ?n"
    let ?expiry = "claim_now cl + lease cl"
    define st2 where "st2 = st\<lparr>attempts := (attempts st)(?p \<mapsto> n), leases := (leases st)(?p \<mapsto> ?expiry)\<rparr>"
    define d where "d = \<lparr>delivery_id = \<lparr>delivery_consumer = c, delivery_event = event_id (entry_event e), attempt = n\<rparr>,
        delivered_event = entry_event e, lease_expires_at = ?expiry\<rparr>"
    have inv': "loop_ok cap c cl es st0 (ds @ [e]) st2 (insert (key_of e) busy) (cs @ [e]) (claimed @ [d]) poisoned"
      by (rule walk_claim [OF es sorted inv claim(2,1,3) _ _ st2_def d_def]) (use claim n_def in auto)
    have step: "claim_loop cap c cl (e # rest) st busy claimed poisoned =
        (if claim_max_events cl \<le> length (claimed @ [d]) then (st2, claimed @ [d], poisoned)
         else claim_loop cap c cl rest st2 (insert (key_of e) busy) (claimed @ [d]) poisoned)"
      using claim by (simp add: unresolved_def live_def Let_def st2_def d_def n_def fun_upd_def [symmetric])
    show ?thesis
    proof (cases "claim_max_events cl \<le> length (claimed @ [d])")
      case True
      with loop step inv' have "loop_ok cap c cl es st0 (ds @ [e]) st' (insert (key_of e) busy) (cs @ [e]) claimed' poisoned'"
        "claimed' \<noteq> []"
        by auto
      then show ?thesis using es by (intro exI conjI) auto
    next
      case False
      with loop step show ?thesis by (intro IH [OF inv']) simp
    qed
  qed
qed

lemma claim_loop_bound:
  "length claimed < max 1 (claim_max_events cl) \<Longrightarrow>
     claim_loop cap c cl es st busy claimed poisoned = (st', claimed', poisoned') \<Longrightarrow>
     length claimed' \<le> max 1 (claim_max_events cl)"
proof (induction es arbitrary: st busy claimed poisoned)
  case (Cons e es)
  show ?case
    using Cons.prems(2)
    by (simp only: claim_loop.simps Let_def split: if_splits)
      (use Cons.prems(1) in \<open>auto dest: Cons.IH [rotated]\<close>)
qed simp

lemma loop_start: "state_ok cap es st \<Longrightarrow> loop_ok cap c cl es st [] st {} [] [] []"
  by (rule loop_okI) (auto simp: state_ok_def first_unresolved_def first_open_def open_in_def)

lemma poison_fold:
  "acked (fold (\<lambda>p st. poison st p) ps st) = acked st"
  "attempts (fold (\<lambda>p st. poison st p) ps st) = attempts st"
  "quarantined (fold (\<lambda>p st. poison st p) ps st) p = (if p \<in> set ps then Some AttemptsExhausted else quarantined st p)"
  "leases (fold (\<lambda>p st. poison st p) ps st) p = (if p \<in> set ps then None else leases st p)"
  by (induction ps arbitrary: st) (simp_all add: poison_def)

lemma unresolved_poison: "unresolved (fold (\<lambda>p st. poison st p) ps st) p = open_in st ps p"
  by (auto simp: unresolved_def open_in_def poison_fold)

lemma first_unresolved_poison:
  "first_unresolved (fold (\<lambda>p st. poison st p) ps st) es p = first_open st ps es p"
  by (simp add: first_unresolved_def first_open_def unresolved_poison)

lemma state_ok_default: "state_ok cap es consumer_default"
  by (simp add: state_ok_def consumer_default_def)

lemma state_ok_consumer: "storage_ok cap s \<Longrightarrow> state_ok cap (entries s) (consumer_entry s c)"
  by (auto simp: consumer_entry_def state_ok_default dest: storage_okD(7) map_of_SomeD split: option.splits)

lemma values_update: "snd ` set (AList.update k v al) \<subseteq> insert v (snd ` set al)"
  by (induction al) auto

lemma storage_ok_put:
  assumes "storage_ok cap s" and "state_ok cap (entries s) st"
  shows "storage_ok cap (put_consumer s c st)"
proof -
  have "state_ok cap (entries s) x" if "x \<in> snd ` set (AList.update c st (consumers s))" for x
    using subsetD [OF values_update that] assms by (auto simp: storage_ok_def)
  then show ?thesis
    using assms(1) by (simp add: storage_ok_def put_consumer_def index_ok_def distinct_update)
qed

lemma consumer_entry_put [simp]:
  "consumer_entry (put_consumer s c st) c' = (if c' = c then st else consumer_entry s c')"
  by (simp add: consumer_entry_def put_consumer_def update_conv')

lemma put_consumer_sel [simp]:
  "entries (put_consumer s c st) = entries s" "positions (put_consumer s c st) = positions s"
  "next_position (put_consumer s c st) = next_position s" "dropped (put_consumer s c st) = dropped s"
  by (simp_all add: put_consumer_def)

text \<open>Everything the properties need to know about one claim.\<close>

lemma claim_spec:
  assumes ok: "storage_ok cap s" and claim: "claim_events cap s c cl = (s', claimed)"
  shows "storage_ok cap s' \<and> entries s' = entries s \<and> length claimed \<le> max 1 (claim_max_events cl)
    \<and> (\<exists>cs. set cs \<subseteq> set (entries s) \<and> sorted_wrt (<) (map position cs)
         \<and> list_all2 (delivers c (consumer_entry s c) (consumer_entry s' c)) cs claimed
         \<and> (\<forall>e\<in>set cs. \<not> live (consumer_entry s c) (claim_now cl) (position e)
              \<and> unresolved (consumer_entry s c) (position e)
              \<and> first_unresolved (consumer_entry s' c) (entries s) (position e)))
    \<and> (claimed = [] \<longrightarrow> (\<forall>e\<in>set (entries s). unresolved (consumer_entry s' c) (position e) \<longrightarrow>
          (\<exists>e'\<in>set (entries s). key_of e' = key_of e \<and> live (consumer_entry s' c) (claim_now cl) (position e'))))"
proof -
  let ?es = "entries s" and ?st0 = "consumer_entry s c"
  obtain st xs ps where loop: "claim_loop cap c cl ?es ?st0 {} [] [] = (st, xs, ps)"
    by (metis prod_cases3)
  define st' where "st' = fold (\<lambda>p st. poison st p) ps st"
  have s': "s' = put_consumer s c st'" and xs: "claimed = xs"
    using claim by (auto simp: claim_events_def loop st'_def)
  have sorted: "sorted_wrt (<) (map position ?es)" by (rule storage_okD(1) [OF ok])
  have start: "loop_ok cap c cl ?es ?st0 [] ?st0 {} [] [] []"
    by (rule loop_start [OF state_ok_consumer [OF ok]])
  obtain ds busy cs where inv: "loop_ok cap c cl ?es ?st0 ds st busy cs xs ps"
    and ds: "set ds \<subseteq> set ?es" "set ds = set ?es \<or> xs \<noteq> []"
    using claim_loop_ok [OF _ sorted start loop] by auto
  note I = loop_okD [OF inv]
  have lease_first: "first_unresolved st' ?es p" if "leases st' p \<noteq> None" for p
    using I(5) that unfolding st'_def first_unresolved_poison by (auto simp: poison_fold split: if_splits)
  have "acked st' \<union> dom (quarantined st') \<union> dom (attempts st') \<subseteq> position ` set ?es"
  proof -
    have "acked st' \<union> dom (quarantined st) \<subseteq> position ` set ?es"
      using state_ok_consumer [OF ok, of c] I(1,2) by (auto simp: state_ok_def st'_def poison_fold)
    moreover have "dom (quarantined st') \<subseteq> dom (quarantined st) \<union> set ps"
      by (auto simp: st'_def poison_fold split: if_splits)
    moreover have "set ps \<subseteq> position ` set ?es" using I(3) ds(1) by blast
    moreover have "dom (attempts st') \<subseteq> position ` set ?es" using I(6) by (simp add: st'_def poison_fold)
    ultimately show ?thesis by blast
  qed
  moreover have "acked st' \<inter> dom (quarantined st') = {}"
    using state_ok_consumer [OF ok, of c] I(1,2,4)
    by (auto simp: state_ok_def st'_def poison_fold unresolved_def split: if_splits)
  ultimately have st_ok: "state_ok cap ?es st'"
    using I(7) lease_first by (simp add: state_ok_def) (simp add: st'_def poison_fold)
  have not_poisoned: "position e \<notin> set ps" if e: "e \<in> set cs" for e
  proof -
    obtain d where "delivers c ?st0 st e d" using list_all2_left [OF I(14) e] by blast
    then have "leases st (position e) \<noteq> None" by (auto simp: delivers_def)
    with I(4) show ?thesis by auto
  qed
  have deliv: "list_all2 (delivers c ?st0 st') cs xs"
    using not_poisoned by (intro delivers_cong [OF I(14)]) (simp_all add: st'_def poison_fold)
  have first: "first_unresolved st' ?es (position e)" if e: "e \<in> set cs" for e
  proof (rule lease_first)
    obtain d where "delivers c ?st0 st' e d" using list_all2_left [OF deliv e] by blast
    then show "leases st' (position e) \<noteq> None" by (auto simp: delivers_def)
  qed
  have was_open: "unresolved ?st0 (position e)" if "e \<in> set cs" for e
    using first [OF that] I(1,2) unfolding st'_def first_unresolved_poison
    by (simp add: first_open_def open_in_def unresolved_def)
  have none: "\<exists>e'\<in>set ?es. key_of e' = key_of e \<and> live st' (claim_now cl) (position e')"
    if "xs = []" "e \<in> set ?es" "unresolved st' (position e)" for e
  proof -
    have "e \<in> set ds" "cs = []" using ds that I(14) by auto
    moreover have "open_in st ps (position e)" using that(3) by (simp add: st'_def unresolved_poison)
    ultimately obtain e' where e': "e' \<in> set ds" "key_of e' = key_of e" "live st (claim_now cl) (position e')"
      using I(10,11) by fastforce
    have "position e' \<notin> set ps" using e'(3) I(4) by (auto simp: live_def)
    then have "live st' (claim_now cl) (position e')" using e'(3) by (simp add: live_def st'_def poison_fold)
    with e' ds(1) show ?thesis by blast
  qed
  have bound: "length xs \<le> max 1 (claim_max_events cl)" by (rule claim_loop_bound [OF _ loop]) simp
  have new: "consumer_entry s' c = st'" by (simp add: s')
  show ?thesis
    unfolding new xs
    using storage_ok_put [OF ok st_ok, of c] I(12,13,15) ds(1) deliv first was_open none bound
    by (intro conjI exI [of _ cs]) (auto simp: s')
qed

section \<open>Verdicts\<close>

lemma first_unresolved_resolve:
  assumes "first_unresolved st es q" and "q \<noteq> p" and "\<And>r. unresolved st' r \<longleftrightarrow> unresolved st r \<and> r \<noteq> p"
  shows "first_unresolved st' es q"
  using assms(1,2) unfolding first_unresolved_def assms(3) by blast

lemma state_ok_ack:
  assumes "state_ok cap es st" and "attempts st p \<noteq> None" and "quarantined st p = None"
  shows "state_ok cap es (st\<lparr>acked := insert p (acked st), leases := (leases st)(p := None)\<rparr>)"
proof -
  have "first_unresolved (st\<lparr>acked := insert p (acked st), leases := (leases st)(p := None)\<rparr>) es q"
    if "first_unresolved st es q" "q \<noteq> p" for q
    using that by (rule first_unresolved_resolve) (auto simp: unresolved_def)
  with assms show ?thesis by (auto simp: state_ok_def)
qed

lemma state_ok_quarantine:
  assumes "state_ok cap es st" and "attempts st p \<noteq> None" and "p \<notin> acked st"
  shows "state_ok cap es (st\<lparr>quarantined := (quarantined st)(p \<mapsto> reason), leases := (leases st)(p := None)\<rparr>)"
proof -
  have "first_unresolved (st\<lparr>quarantined := (quarantined st)(p \<mapsto> reason), leases := (leases st)(p := None)\<rparr>) es q"
    if "first_unresolved st es q" "q \<noteq> p" for q
    using that by (rule first_unresolved_resolve) (auto simp: unresolved_def)
  with assms show ?thesis by (auto simp: state_ok_def)
qed

lemma state_ok_refund:
  assumes "state_ok cap es st" and "attempts st p = Some n"
  shows "state_ok cap es (st\<lparr>attempts := (attempts st)(p \<mapsto> n - 1)\<rparr>)"
proof -
  have "first_unresolved (st\<lparr>attempts := (attempts st)(p \<mapsto> n - 1)\<rparr>) es q = first_unresolved st es q" for q
    by (simp add: first_unresolved_def)
  moreover have "p \<in> position ` set es" "n - 1 \<le> max_delivery_attempts cap"
    using assms by (auto simp: state_ok_def intro: order_trans [OF diff_le_self])
  ultimately show ?thesis using assms(1) by (simp add: state_ok_def)
qed

lemma state_ok_of:
  "storage_ok cap s \<Longrightarrow> map_of (consumers s) c = Some st \<Longrightarrow> state_ok cap (entries s) st"
  by (auto dest: storage_okD(7) map_of_SomeD)

lemma storage_ok_ack: "storage_ok cap s \<Longrightarrow> ack s d = (s', r) \<Longrightarrow> storage_ok cap s'"
  by (auto simp: ack_def intro!: storage_ok_put state_ok_ack dest: state_ok_of split: option.splits if_splits)

lemma storage_ok_relinquish: "storage_ok cap s \<Longrightarrow> relinquish s d = (s', r) \<Longrightarrow> storage_ok cap s'"
  by (auto simp: relinquish_def intro!: storage_ok_put state_ok_refund [simplified] dest: state_ok_of
      split: option.splits if_splits)

lemma storage_ok_quarantine: "storage_ok cap s \<Longrightarrow> quarantine s d reason = (s', r) \<Longrightarrow> storage_ok cap s'"
  by (auto simp: quarantine_def intro!: storage_ok_put state_ok_quarantine dest: state_ok_of
      split: option.splits if_splits)

section \<open>Runs\<close>

inductive journal_step :: "capacity \<Rightarrow> 'v storage \<Rightarrow> 'v storage \<Rightarrow> bool" for cap where
  step_append: "append cap s ev now = Some (s', r) \<Longrightarrow> journal_step cap s s'"
| step_claim: "claim_events cap s c cl = (s', claimed) \<Longrightarrow> journal_step cap s s'"
| step_ack: "ack s d = (s', r) \<Longrightarrow> journal_step cap s s'"
| step_relinquish: "relinquish s d = (s', r) \<Longrightarrow> journal_step cap s s'"
| step_quarantine: "quarantine s d reason = (s', r) \<Longrightarrow> journal_step cap s s'"

lemma storage_ok_step:
  assumes "storage_ok cap s" and "journal_step cap s s'"
  shows "storage_ok cap s'"
  using assms(2)
proof cases
  case (step_append ev now r)
  obtain s2 r2 where "append cap s ev now = Some (s2, r2)" "storage_ok cap s2"
    using assms(1) by (rule storage_ok_append)
  with step_append show ?thesis by simp
next
  case (step_claim c cl claimed)
  with claim_spec [OF assms(1) this] show ?thesis by blast
qed (use assms(1) in \<open>auto dest: storage_ok_ack storage_ok_relinquish storage_ok_quarantine\<close>)

interpretation journal: inductive_invariant "journal_step cap" "storage_ok cap" for cap
  by unfold_locales (rule storage_ok_step)

definition journal_run :: "capacity \<Rightarrow> 'v storage \<Rightarrow> bool" where
  "journal_run cap s \<longleftrightarrow> reaches (journal_step cap) storage_default s"

lemma journal_run_ok: "journal_run cap s \<Longrightarrow> storage_ok cap s"
  unfolding journal_run_def using journal.reachable_good storage_default_ok by blast

section \<open>Properties\<close>

lemma first_unresolved_unique:
  assumes "first_unresolved st es (position e)" and "first_unresolved st es (position e')"
    and "e \<in> set es" and "e' \<in> set es" and inj: "inj_on position (set es)" and "key_of e = key_of e'"
  shows "position e = position e'"
proof -
  obtain x where x: "x \<in> set es" "position x = position e" "unresolved st (position e)"
    "\<forall>y\<in>set es. key_of y = key_of x \<and> unresolved st (position y) \<longrightarrow> position e \<le> position y"
    using assms(1) by (auto simp: first_unresolved_def)
  obtain x' where x': "x' \<in> set es" "position x' = position e'" "unresolved st (position e')"
    "\<forall>y\<in>set es. key_of y = key_of x' \<and> unresolved st (position y) \<longrightarrow> position e' \<le> position y"
    using assms(2) by (auto simp: first_unresolved_def)
  have "x = e" "x' = e'" using x x' assms(3,4) by (auto intro: inj_onD [OF inj])
  with x x' assms(3,4,6) show ?thesis by (intro le_antisym) auto
qed

text \<open>
  C1. Whatever sequence of appends, claims, acknowledgements, refunds and verdicts a journal has
  seen: it stores at most its capacity, under distinct positions and distinct keys; no consumer
  has both acknowledged and quarantined an event, or has more attempts than allowed on one; and
  per consumer and ordering key at most one event is leased, the oldest one not yet resolved.
  The next append does not panic.
\<close>

theorem journal_invariants:
  "journal_run cap s \<longrightarrow>
     length (entries s) \<le> max_events cap
     \<and> sorted_wrt (<) (map position (entries s))
     \<and> distinct (map (\<lambda>e. idempotency_key (entry_event e)) (entries s))
     \<and> (\<forall>c. let st = consumer_entry s c in
          acked st \<inter> dom (quarantined st) = {}
          \<and> (\<forall>p n. attempts st p = Some n \<longrightarrow> n \<le> max_delivery_attempts cap)
          \<and> (\<forall>p. leases st p \<noteq> None \<longrightarrow> first_unresolved st (entries s) p))
     \<and> append cap s ev now \<noteq> None"
proof
  assume "journal_run cap s"
  then have ok: "storage_ok cap s" by (rule journal_run_ok)
  have "inj_on (\<lambda>e. idempotency_key (entry_event e)) (set (entries s))" by (rule stored_keys_inj [OF ok])
  moreover have "distinct (entries s)" using storage_okD(2) [OF ok] by (simp add: distinct_map)
  ultimately have "distinct (map (\<lambda>e. idempotency_key (entry_event e)) (entries s))"
    by (simp add: distinct_map)
  moreover obtain s' r where "append cap s ev now = Some (s', r)" using ok by (rule storage_ok_append)
  ultimately show "length (entries s) \<le> max_events cap
     \<and> sorted_wrt (<) (map position (entries s))
     \<and> distinct (map (\<lambda>e. idempotency_key (entry_event e)) (entries s))
     \<and> (\<forall>c. let st = consumer_entry s c in
          acked st \<inter> dom (quarantined st) = {}
          \<and> (\<forall>p n. attempts st p = Some n \<longrightarrow> n \<le> max_delivery_attempts cap)
          \<and> (\<forall>p. leases st p \<noteq> None \<longrightarrow> first_unresolved st (entries s) p))
     \<and> append cap s ev now \<noteq> None"
    using storage_okD(1,8) [OF ok] state_ok_consumer [OF ok] by (simp add: state_ok_def Let_def)
qed

text \<open>
  C2. A claim delivers, in append order, events with pairwise different ordering keys, each the
  oldest of its key that the consumer has not resolved, none of them acknowledged, quarantined
  or under an unexpired lease before, each with the next attempt number and within the attempt
  budget.  A claim that returns nothing leaves nothing deliverable: every event still open has
  an event of its key under a live lease.
\<close>

theorem claim_delivers_in_order:
  "journal_run cap s \<and> claim_events cap s c cl = (s', claimed) \<longrightarrow>
     (\<exists>cs. set cs \<subseteq> set (entries s) \<and> sorted_wrt (<) (map position cs) \<and> distinct (map key_of cs)
        \<and> list_all2 (delivers c (consumer_entry s c) (consumer_entry s' c)) cs claimed
        \<and> (\<forall>e\<in>set cs. unresolved (consumer_entry s c) (position e)
             \<and> \<not> live (consumer_entry s c) (claim_now cl) (position e)
             \<and> first_unresolved (consumer_entry s' c) (entries s') (position e)))
     \<and> (\<forall>d\<in>set claimed. attempt (delivery_id d) \<le> max_delivery_attempts cap)
     \<and> length claimed \<le> max 1 (claim_max_events cl)
     \<and> (claimed = [] \<longrightarrow> (\<forall>e\<in>set (entries s). unresolved (consumer_entry s' c) (position e) \<longrightarrow>
          (\<exists>e'\<in>set (entries s). key_of e' = key_of e \<and> live (consumer_entry s' c) (claim_now cl) (position e'))))"
proof (intro impI, elim conjE)
  assume "journal_run cap s" and claim: "claim_events cap s c cl = (s', claimed)"
  then have ok: "storage_ok cap s" by (blast intro: journal_run_ok)
  note spec = claim_spec [OF ok claim]
  then obtain cs where cs: "set cs \<subseteq> set (entries s)" "sorted_wrt (<) (map position cs)"
    "list_all2 (delivers c (consumer_entry s c) (consumer_entry s' c)) cs claimed"
    "\<forall>e\<in>set cs. \<not> live (consumer_entry s c) (claim_now cl) (position e)
        \<and> unresolved (consumer_entry s c) (position e)
        \<and> first_unresolved (consumer_entry s' c) (entries s) (position e)"
    by blast
  have ok': "storage_ok cap s'" and es: "entries s' = entries s" using spec by blast+
  have "inj_on key_of (set cs)"
  proof (rule inj_onI)
    fix e e' assume e: "e \<in> set cs" "e' \<in> set cs" "key_of e = key_of e'"
    then have "position e = position e'"
      using cs(1,4) by (intro first_unresolved_unique [OF _ _ _ _ storage_okD(3) [OF ok]]) auto
    with storage_okD(3) [OF ok] cs(1) e show "e = e'" by (auto simp: inj_on_def)
  qed
  moreover have "distinct (map position cs)" using cs(2) strict_sorted_iff by blast
  then have "distinct cs" by (simp add: distinct_map)
  ultimately have keys: "distinct (map key_of cs)" by (simp add: distinct_map)
  have within: "\<forall>d\<in>set claimed. attempt (delivery_id d) \<le> max_delivery_attempts cap"
  proof
    fix d assume "d \<in> set claimed"
    from list_all2_right [OF cs(3) this] state_ok_consumer [OF ok', of c]
    show "attempt (delivery_id d) \<le> max_delivery_attempts cap" by (auto simp: delivers_def state_ok_def)
  qed
  have found: "\<exists>cs. set cs \<subseteq> set (entries s) \<and> sorted_wrt (<) (map position cs) \<and> distinct (map key_of cs)
        \<and> list_all2 (delivers c (consumer_entry s c) (consumer_entry s' c)) cs claimed
        \<and> (\<forall>e\<in>set cs. unresolved (consumer_entry s c) (position e)
             \<and> \<not> live (consumer_entry s c) (claim_now cl) (position e)
             \<and> first_unresolved (consumer_entry s' c) (entries s') (position e))"
    by (rule exI [of _ cs]) (simp add: cs keys es)
  show "(\<exists>cs. set cs \<subseteq> set (entries s) \<and> sorted_wrt (<) (map position cs) \<and> distinct (map key_of cs)
        \<and> list_all2 (delivers c (consumer_entry s c) (consumer_entry s' c)) cs claimed
        \<and> (\<forall>e\<in>set cs. unresolved (consumer_entry s c) (position e)
             \<and> \<not> live (consumer_entry s c) (claim_now cl) (position e)
             \<and> first_unresolved (consumer_entry s' c) (entries s') (position e)))
     \<and> (\<forall>d\<in>set claimed. attempt (delivery_id d) \<le> max_delivery_attempts cap)
     \<and> length claimed \<le> max 1 (claim_max_events cl)
     \<and> (claimed = [] \<longrightarrow> (\<forall>e\<in>set (entries s). unresolved (consumer_entry s' c) (position e) \<longrightarrow>
          (\<exists>e'\<in>set (entries s). key_of e' = key_of e \<and> live (consumer_entry s' c) (claim_now cl) (position e'))))"
    using spec by (intro conjI found within) (elim conjE, assumption)+
qed

section \<open>Giving events up\<close>

lemma delivered_forget:
  assumes ok: "storage_ok cap s"
  shows "set (delivered (forget s p)) \<subseteq> set (delivered s)"
proof (cases "find_entry s p")
  case None
  then show ?thesis by (simp add: forget_def)
next
  case (Some r)
  show ?thesis
  proof
    fix q assume q: "q \<in> set (delivered (forget s p))"
    then have "q \<in> position ` set (entries s)" "q \<noteq> p" "\<not> is_quarantined s q" "consumers s \<noteq> []"
      using deliveredD [OF q] by (auto simp: entries_forget [OF ok] consumers_forget [OF Some])
    moreover have "q \<in> acked st" if "(c, st) \<in> set (consumers s)" for c st
      using deliveredD(3) [OF q, of c "forget_state p st"] that
      by (force simp: consumers_forget [OF Some] forget_state_def)
    ultimately show "q \<in> set (delivered s)" by (auto simp: delivered_def list_all_iff)
  qed
qed

lemma delivered_gives_up:
  assumes "gives_up_delivered s s'" and "storage_ok cap s"
  shows "set (delivered s') \<subseteq> set (delivered s)"
proof -
  have "set (delivered (fold (\<lambda>p s. forget s p) ps s)) \<subseteq> set (delivered s)"
    if "storage_ok cap s" "\<forall>p\<in>set ps. \<not> is_quarantined s p" for ps and s :: "'a storage"
    using that
  proof (induction ps arbitrary: s)
    case (Cons p ps)
    have "storage_ok cap (forget s p)" using Cons.prems by (intro storage_ok_forget) simp_all
    with Cons delivered_forget [OF Cons.prems(1), of p] show ?case by fastforce
  qed simp
  with assms deliveredD(1) show ?thesis unfolding gives_up_delivered_def by blast
qed

text \<open>What an append keeps: the entries that some consumer still needs.\<close>

lemma gives_up_keeps:
  assumes "gives_up_delivered s s'" and "storage_ok cap s"
    and "e \<in> set (entries s)" and "position e \<notin> set (delivered s)"
  shows "e \<in> set (entries s') \<and> position e \<notin> set (delivered s')"
proof -
  obtain ps where "set ps \<subseteq> set (delivered s)" "entries s' = filter (\<lambda>e. position e \<notin> set ps) (entries s)"
    using assms(1,2) by (rule gives_up_delivered_ok)
  with assms(3,4) delivered_gives_up [OF assms(1,2)] show ?thesis by auto
qed

lemma is_quarantined_gives_up: "gives_up_delivered s s' \<Longrightarrow> is_quarantined s' p = is_quarantined s p"
proof -
  have "is_quarantined (fold (\<lambda>p s. forget s p) ps s) p = is_quarantined s p" for ps and s :: "'a storage"
    by (induction ps arbitrary: s) simp_all
  then show "gives_up_delivered s s' \<Longrightarrow> is_quarantined s' p = is_quarantined s p"
    by (auto simp: gives_up_delivered_def)
qed

text \<open>The entries an append gave up although some consumer had not acknowledged them.\<close>

definition lost :: "'v storage \<Rightarrow> 'v storage \<Rightarrow> 'v entry list" where
  "lost s s' = filter (\<lambda>e. e \<notin> set (entries s') \<and> position e \<notin> set (delivered s)) (entries s)"

lemma lost_nothing:
  assumes "\<And>e. e \<in> set (entries s) \<Longrightarrow> position e \<notin> set (delivered s) \<Longrightarrow> e \<in> set (entries s')"
  shows "lost s s' = []"
  using assms by (auto simp: lost_def filter_empty_conv)

lemma kept_twice:
  assumes "gives_up_delivered s s0" "storage_ok cap s" "gives_up_delivered s0 s1" "storage_ok cap s0"
    and "e \<in> set (entries s)" "position e \<notin> set (delivered s)"
  shows "e \<in> set (entries s1)"
  using gives_up_keeps [OF assms(1,2,5,6)] gives_up_keeps [OF assms(3,4)] by blast

lemma dropped_twice:
  assumes "gives_up_delivered s s0" "storage_ok cap s" "gives_up_delivered s0 s1" "storage_ok cap s0"
  shows "dropped s1 = dropped s"
proof -
  have "dropped s0 = dropped s" by (rule gives_up_delivered_ok [OF assms(1,2)])
  moreover have "dropped s1 = dropped s0" by (rule gives_up_delivered_ok [OF assms(3,4)])
  ultimately show ?thesis by simp
qed

text \<open>
  C3. No accepted event is lost in silence.  Under the refusing policy an append gives up only
  events that every registered consumer has acknowledged, and drops none; under the dropping
  policy at most one other event goes, it is counted, and it is not one an operator was asked
  to look at.
\<close>

theorem append_loses_nothing_uncounted:
  "journal_run cap s \<and> append cap s ev now = Some (s', r) \<longrightarrow>
     length (lost s s') \<le> dropped s' - dropped s \<and> dropped s' - dropped s \<le> 1
     \<and> (policy cap = Refuse \<longrightarrow> lost s s' = [] \<and> dropped s' = dropped s)
     \<and> filter (\<lambda>e. is_quarantined s (position e)) (lost s s') = []"
proof (intro impI, elim conjE)
  assume "journal_run cap s" and app: "append cap s ev now = Some (s', r)"
  then have ok: "storage_ok cap s" by (blast intro: journal_run_ok)
  then show "length (lost s s') \<le> dropped s' - dropped s \<and> dropped s' - dropped s \<le> 1
     \<and> (policy cap = Refuse \<longrightarrow> lost s s' = [] \<and> dropped s' = dropped s)
     \<and> filter (\<lambda>e. is_quarantined s (position e)) (lost s s') = []"
  proof (cases rule: append_cases [where ev = ev and now = now])
    case (present s1 stored)
    then have s': "s' = s1" using app by simp
    have "lost s s' = []" using gives_up_keeps [OF present(1) ok] by (intro lost_nothing) (simp add: s')
    moreover have "dropped s1 = dropped s" by (rule gives_up_delivered_ok [OF present(1) ok])
    ultimately show ?thesis by (simp add: s')
  next
    case (refused s0 s1)
    then have s': "s' = s1" using app by simp
    have "lost s s' = []" using kept_twice [OF refused(1) ok refused(3,2)] by (intro lost_nothing) (simp add: s')
    with dropped_twice [OF refused(1) ok refused(3,2)] show ?thesis by (simp add: s')
  next
    case (accepted s0 s1)
    then have s': "s' = push_entry s1 ev" using app by simp
    have "lost s s' = []"
      using kept_twice [OF accepted(1) ok accepted(3,2)] by (intro lost_nothing) (simp add: s' push_entry_def)
    with dropped_twice [OF accepted(1) ok accepted(3,2)] show ?thesis by (simp add: s' push_entry_def)
  next
    case (dropped s0 s1 oldest)
    then have s': "s' = push_entry ((forget s1 oldest)\<lparr>dropped := Suc (dropped s1)\<rparr>) ev" using app by simp
    have d: "dropped s' = Suc (dropped s)"
      using dropped_twice [OF dropped(1) ok dropped(3,2)] by (simp add: s' push_entry_def)
    have at: "position e = oldest" if "e \<in> set (lost s s')" for e
      using that kept_twice [OF dropped(1) ok dropped(3,2), of e]
      by (auto simp: lost_def s' push_entry_def entries_forget [OF dropped(4)])
    have "distinct (map position (lost s s'))"
      using storage_okD(2) [OF ok] by (simp add: lost_def distinct_map_filter)
    moreover have "set (map position (lost s s')) \<subseteq> {oldest}" using at by auto
    ultimately have "length (map position (lost s s')) \<le> 1"
      using card_mono [of "{oldest}" "set (map position (lost s s'))"]
      by (simp only: distinct_card [symmetric]) simp
    moreover have "\<not> is_quarantined s oldest"
      using dropped(7) is_quarantined_gives_up [OF dropped(1)] is_quarantined_gives_up [OF dropped(3)] by blast
    ultimately show ?thesis using d at dropped(5) by (auto simp: filter_empty_conv)
  qed
qed

lemma append_accepted:
  assumes ok: "storage_ok cap s" and app: "append cap s ev now = Some (s', Inr (Accepted p))"
  shows "\<exists>e\<in>set (entries s'). entry_event e = ev \<and> position e = p \<and> Suc p = next_position s'
    \<and> (\<forall>c st. (c, st) \<in> set (consumers s') \<longrightarrow> p \<notin> acked st)"
proof -
  obtain s1 where s1: "storage_ok cap s1" "s' = push_entry s1 ev" "p = next_position s1"
    using ok
  proof (cases rule: append_cases [where ev = ev and now = now])
    case (dropped s0 s1 oldest)
    have "storage_ok cap ((forget s1 oldest)\<lparr>dropped := Suc (dropped s1)\<rparr>)"
      using storage_ok_forget [OF dropped(4,7)] by simp
    from that [OF this] app dropped(10) show thesis by simp
  next
    case (accepted s0 s1)
    then show thesis using app by (intro that [of s1]) auto
  qed (use app in \<open>auto split: if_splits\<close>)
  have "p \<notin> acked st" if "(c, st) \<in> set (consumers s1)" for c st
    using storage_okD(7) [OF s1(1) that] storage_okD(4) [OF s1(1)] s1(3) by (force simp: state_ok_def)
  then show ?thesis by (auto simp: s1 push_entry_def)
qed

text \<open>What an append gives up although a consumer still needs it is a counted drop.\<close>

lemma append_gives_up:
  assumes ok: "storage_ok cap s" and app: "append cap s ev now = Some (s', r)"
    and e: "e \<in> set (entries s)" "e \<notin> set (entries s')" "position e \<notin> set (delivered s)"
  shows "policy cap = DropOldest \<and> dropped s' = Suc (dropped s)"
  using ok
proof (cases rule: append_cases [where ev = ev and now = now])
  case (present s1 stored)
  with app gives_up_keeps [OF present(1) ok e(1,3)] e(2) show ?thesis by simp
next
  case (refused s0 s1)
  with app kept_twice [OF refused(1) ok refused(3,2) e(1,3)] e(2) show ?thesis by simp
next
  case (dropped s0 s1 oldest)
  with app dropped_twice [OF dropped(1) ok dropped(3,2)] show ?thesis by (auto simp: push_entry_def)
next
  case (accepted s0 s1)
  with app kept_twice [OF accepted(1) ok accepted(3,2) e(1,3)] e(2) show ?thesis by (auto simp: push_entry_def)
qed

lemma verdict_entries:
  "ack s d = (s', r) \<Longrightarrow> entries s' = entries s"
  "relinquish s d = (s', r) \<Longrightarrow> entries s' = entries s"
  "quarantine s d reason = (s', r) \<Longrightarrow> entries s' = entries s"
  by (auto simp: ack_def relinquish_def quarantine_def split: option.splits if_splits)

lemma step_gives_up:
  assumes ok: "storage_ok cap s" and "journal_step cap s t"
    and "e \<in> set (entries s)" "e \<notin> set (entries t)" "position e \<notin> set (delivered s)"
  shows "policy cap = DropOldest \<and> dropped t = Suc (dropped s)"
  using assms(2)
proof cases
  case (step_append ev now r)
  show ?thesis by (rule append_gives_up [OF ok step_append assms(3-5)])
next
  case (step_claim c cl claimed)
  with claim_spec [OF ok this] assms(3,4) show ?thesis by simp
qed (use assms(3,4) verdict_entries in metis)+

text \<open>
  How the journal can come to no longer hold an event at \<open>p\<close> between two states of a run: every
  consumer had acknowledged it, or the dropping policy dropped it and counted the drop.
\<close>

definition given_up :: "capacity \<Rightarrow> 'v storage \<Rightarrow> 'v storage \<Rightarrow> nat \<Rightarrow> bool" where
  "given_up cap s t p \<longleftrightarrow>
     (\<exists>u. reaches (journal_step cap) s u \<and> reaches (journal_step cap) u t \<and> p \<in> set (delivered u))
     \<or> policy cap = DropOldest
       \<and> (\<exists>u v. reaches (journal_step cap) s u \<and> journal_step cap u v \<and> reaches (journal_step cap) v t
            \<and> p \<in> position ` set (lost u v) \<and> dropped v = Suc (dropped u))"

lemma given_up_step: "given_up cap s t p \<Longrightarrow> journal_step cap t t' \<Longrightarrow> given_up cap s t' p"
  unfolding given_up_def by (blast intro: reaches_step)

lemma entry_kept_or_given_up:
  assumes "reaches (journal_step cap) s t" and ok: "storage_ok cap s" and e: "e \<in> set (entries s)"
  shows "e \<in> set (entries t) \<or> given_up cap s t (position e)"
  using assms(1)
proof induction
  case reaches_refl
  with e show ?case by blast
next
  case (reaches_step t t')
  have ok_t: "storage_ok cap t" by (rule journal.reachable_good [OF reaches_step.hyps(1) ok])
  consider (given) "given_up cap s t (position e)" | (kept) "e \<in> set (entries t')"
    | (delivered) "e \<in> set (entries t)" "position e \<in> set (delivered t)"
    | (lost) "e \<in> set (entries t)" "e \<notin> set (entries t')" "position e \<notin> set (delivered t)"
    using reaches_step.IH by blast
  then show ?case
  proof cases
    case given
    with given_up_step reaches_step.hyps(2) show ?thesis by blast
  next
    case delivered
    moreover have "reaches (journal_step cap) t t'"
      by (rule reaches.reaches_step [where step = "journal_step cap", OF reaches.reaches_refl reaches_step.hyps(2)])
    ultimately show ?thesis using reaches_step.hyps(1) unfolding given_up_def by blast
  next
    case lost
    then have "position e \<in> position ` set (lost t t')" by (simp add: lost_def)
    with step_gives_up [OF ok_t reaches_step.hyps(2) lost] reaches_step.hyps
    show ?thesis unfolding given_up_def by (blast intro: reaches.reaches_refl)
  qed blast
qed

text \<open>An append under the key of an event that is stored and still needed.\<close>

lemma append_recognises:
  assumes ok: "storage_ok cap t" and e: "e \<in> set (entries t)" "position e \<notin> set (delivered t)"
    and key: "idempotency_key ev' = idempotency_key (entry_event e)"
  shows "\<exists>t'. append cap t ev' now' =
    Some (t', if event_record ev' = event_record (entry_event e) then Inr (AlreadyPresent (position e))
              else Inl (Conflict (idempotency_key ev')))"
proof -
  let ?s0 = "prune_acknowledged t (retain_acknowledged cap) now'"
  have e0: "e \<in> set (entries ?s0)" using gives_up_keeps [OF prune_gives_up ok e] by blast
  have ok0: "storage_ok cap ?s0" by (rule gives_up_delivered_ok [OF prune_gives_up ok])
  have "positions ?s0 (idempotency_key ev') = Some (position e)"
    using storage_okD(5) [OF ok0, unfolded index_ok_def, rule_format, of "idempotency_key ev'" "position e"] e0 key
    by auto
  with find_entry_position [OF ok0 e0] show ?thesis by (auto simp: append_def is_same_fact_as_def)
qed

text \<open>
  C20. Appending is idempotent on the event's key for as long as the journal holds the event.
  Once an event is accepted, then after any later appends, claims and verdicts, appending it
  again at any time, in an envelope rebuilt with another observation time, recognises the
  stored event at its position, and appending different content under its key is refused; unless
  by then every registered consumer had acknowledged the event, or the dropping policy had
  dropped it and counted the drop.
\<close>

theorem append_retry_is_recognised:
  "journal_run cap s \<and> append cap s ev now = Some (s', Inr (Accepted p))
     \<and> reaches (journal_step cap) s' t \<and> idempotency_key ev' = idempotency_key ev \<longrightarrow>
     (\<exists>t'. append cap t ev' now' =
        Some (t', if event_record ev' = event_record ev then Inr (AlreadyPresent p)
                  else Inl (Conflict (idempotency_key ev))))
     \<or> given_up cap s' t p"
proof (intro impI, elim conjE)
  assume run: "journal_run cap s" and app: "append cap s ev now = Some (s', Inr (Accepted p))"
    and later: "reaches (journal_step cap) s' t" and key: "idempotency_key ev' = idempotency_key ev"
  then have "journal_run cap s'"
    unfolding journal_run_def by (blast intro: reaches_step step_append)
  then have ok': "storage_ok cap s'" by (rule journal_run_ok)
  obtain e where e: "e \<in> set (entries s')" "entry_event e = ev" "position e = p"
    using append_accepted [OF journal_run_ok [OF run] app] by blast
  have ok: "storage_ok cap t" by (rule journal.reachable_good [OF later ok'])
  have "given_up cap s' t p" if "p \<in> set (delivered t)"
    unfolding given_up_def using that later reaches_refl [of "journal_step cap" t] by blast
  with entry_kept_or_given_up [OF later ok' e(1)] append_recognises [OF ok, of e ev' now'] e key
  show "(\<exists>t'. append cap t ev' now' =
        Some (t', if event_record ev' = event_record ev then Inr (AlreadyPresent p)
                  else Inl (Conflict (idempotency_key ev))))
     \<or> given_up cap s' t p"
    by (cases "position e \<in> set (delivered t)") auto
qed

text \<open>
  The event at \<open>p\<close> is settled with a consumer: no later event takes its position, and while it
  is stored the consumer has it acknowledged.
\<close>

definition settled_with :: "consumer_id \<Rightarrow> nat \<Rightarrow> 'v storage \<Rightarrow> bool" where
  "settled_with c p s \<longleftrightarrow>
     p < next_position s \<and> (p \<in> position ` set (entries s) \<longrightarrow> p \<in> acked (consumer_entry s c))"

lemma settled_forget:
  assumes "storage_ok cap s" and "settled_with c p s"
  shows "settled_with c p (forget s q)"
proof (cases "find_entry s q")
  case None
  with assms(2) show ?thesis by (simp add: forget_def)
next
  case (Some r)
  have "consumer_entry (forget s q) c = forget_state q (consumer_entry s c)"
    by (cases "map_of (consumers s) c")
      (simp_all add: consumer_entry_def consumers_forget [OF Some] map_of_map
        forget_state_def consumer_default_def)
  with assms show ?thesis by (auto simp: settled_with_def entries_forget [OF assms(1)] forget_state_def)
qed

lemma settled_gives_up:
  assumes "gives_up_delivered s s'" and "storage_ok cap s" and "settled_with c p s"
  shows "settled_with c p s'"
proof -
  have "settled_with c p (fold (\<lambda>p s. forget s p) ps s)"
    if "storage_ok cap s" "\<forall>p\<in>set ps. \<not> is_quarantined s p" "settled_with c p s" for ps and s :: "'a storage"
    using that
  proof (induction ps arbitrary: s)
    case (Cons q ps)
    have "storage_ok cap (forget s q)" using Cons.prems by (intro storage_ok_forget) simp_all
    with Cons settled_forget [OF Cons.prems(1,3)] show ?case by simp
  qed simp
  with assms deliveredD(1) show ?thesis unfolding gives_up_delivered_def by blast
qed

lemma settled_push: "settled_with c p s \<Longrightarrow> settled_with c p (push_entry s ev)"
  by (auto simp: settled_with_def push_entry_def consumer_entry_def)

lemma settled_append:
  assumes ok: "storage_ok cap s" and "settled_with c p s" and "append cap s ev now = Some (s', r)"
  shows "settled_with c p s'"
  using ok
proof (cases rule: append_cases [where ev = ev and now = now])
  case (present s1 stored)
  with assms(3) settled_gives_up [OF present(1) ok assms(2)] show ?thesis by simp
next
  case (refused s0 s1)
  with assms(3) settled_gives_up [OF refused(3,2) settled_gives_up [OF refused(1) ok assms(2)]]
  show ?thesis by simp
next
  case (dropped s0 s1 oldest)
  have "settled_with c p (forget s1 oldest)"
    using settled_forget [OF dropped(4) settled_gives_up [OF dropped(3,2) settled_gives_up [OF dropped(1) ok assms(2)]]] .
  then have "settled_with c p ((forget s1 oldest)\<lparr>dropped := Suc (dropped s1)\<rparr>)"
    by (simp add: settled_with_def consumer_entry_def)
  with dropped(10) assms(3) settled_push show ?thesis by fastforce
next
  case (accepted s0 s1)
  have "settled_with c p s1"
    by (rule settled_gives_up [OF accepted(3,2) settled_gives_up [OF accepted(1) ok assms(2)]])
  with accepted(7) assms(3) settled_push show ?thesis by fastforce
qed

lemma claim_acked:
  assumes ok: "storage_ok cap s" and claim: "claim_events cap s c cl = (s', ds)"
  shows "acked (consumer_entry s' c') = acked (consumer_entry s c')" and "next_position s' = next_position s"
proof -
  obtain st ps where loop: "claim_loop cap c cl (entries s) (consumer_entry s c) {} [] [] = (st, ds, ps)"
    and s': "s' = put_consumer s c (fold (\<lambda>p st. poison st p) ps st)"
    using claim by (auto simp: claim_events_def split: prod.splits)
  obtain ds' busy cs where "loop_ok cap c cl (entries s) (consumer_entry s c) ds' st busy cs ds ps"
    using claim_loop_ok [OF _ storage_okD(1) [OF ok] loop_start [OF state_ok_consumer [OF ok]] loop] by auto
  from loop_okD(1) [OF this] show "acked (consumer_entry s' c') = acked (consumer_entry s c')"
    by (simp add: s' poison_fold)
  show "next_position s' = next_position s" by (simp add: s')
qed

lemma settled_verdict:
  assumes "settled_with c p s"
  shows "ack s d = (s', r) \<Longrightarrow> settled_with c p s'"
    and "relinquish s d = (s', r) \<Longrightarrow> settled_with c p s'"
    and "quarantine s d reason = (s', r) \<Longrightarrow> settled_with c p s'"
  using assms
  by (auto simp: settled_with_def ack_def relinquish_def quarantine_def consumer_entry_def put_consumer_def
      update_conv' split: option.splits if_splits)

lemma settled_step:
  assumes "storage_ok cap s" "settled_with c p s" and "journal_step cap s t"
  shows "settled_with c p t"
  using assms(3)
proof cases
  case (step_append ev now r)
  show ?thesis by (rule settled_append [OF assms(1,2) step_append])
next
  case (step_claim c' cl claimed)
  with claim_acked [OF assms(1) this] claim_spec [OF assms(1) this] assms(2) show ?thesis
    by (simp add: settled_with_def)
qed (use settled_verdict [OF assms(2)] in blast)+

interpretation settled: inductive_invariant "journal_step cap" "\<lambda>s. storage_ok cap s \<and> settled_with c p s"
  for cap c p
  by unfold_locales (blast intro: storage_ok_step settled_step)

lemma ack_settles:
  assumes ok: "storage_ok cap s" and ack: "ack s d = (s', Inr ())"
    and p: "positions s (idempotency_key_from (delivery_event d)) = Some p"
  shows "settled_with (delivery_consumer d) p s'"
proof -
  have "p < next_position s"
    using storage_okD(4,5) [OF ok] p by (auto simp: index_ok_def)
  with ack p show ?thesis
    by (auto simp: settled_with_def ack_def consumer_entry_def update_conv' put_consumer_def
        split: option.splits if_splits)
qed

text \<open>A claim delivers no event that the consumer has resolved.\<close>

lemma claim_skips_resolved:
  assumes ok: "storage_ok cap s" and p: "positions s k = Some p" and "\<not> unresolved (consumer_entry s c) p"
    and x: "x \<in> set (snd (claim_events cap s c cl))"
  shows "idempotency_key (delivered_event x) \<noteq> k"
proof
  assume k: "idempotency_key (delivered_event x) = k"
  obtain s2 claimed where claim: "claim_events cap s c cl = (s2, claimed)" by fastforce
  obtain cs where cs: "set cs \<subseteq> set (entries s)"
    "list_all2 (delivers c (consumer_entry s c) (consumer_entry s2 c)) cs claimed"
    "\<forall>e\<in>set cs. unresolved (consumer_entry s c) (position e)"
    using claim_spec [OF ok claim] by blast
  obtain e where e: "e \<in> set cs" "delivered_event x = entry_event e"
    using list_all2_right [OF cs(2), of x] x claim by (auto simp: delivers_def)
  with cs(1) k have "positions s k = Some (position e)"
    using storage_okD(5) [OF ok] by (auto simp: index_ok_def)
  with p e cs(3) assms(3) show False by auto
qed

text \<open>
  C21. The acknowledgement of an event the journal holds is final and repeatable: in every later
  state of the journal that still holds the event, whatever appends, claims and verdicts of any
  consumer came between, acknowledging the delivery again succeeds and changes nothing,
  relinquishing it changes nothing, a quarantine is refused as already acknowledged and changes
  nothing, and no claim of that consumer delivers the event again.
\<close>

theorem ack_is_final:
  "journal_run cap s \<and> ack s d = (s', Inr ()) \<and> positions s (idempotency_key_from (delivery_event d)) = Some p
     \<and> reaches (journal_step cap) s' t \<and> positions t (idempotency_key_from (delivery_event d)) = Some p
     \<and> delivery_consumer d' = delivery_consumer d \<and> delivery_event d' = delivery_event d \<longrightarrow>
     ack t d' = (t, Inr ()) \<and> relinquish t d' = (t, Inr ())
     \<and> quarantine t d' reason = (t, Inl (AlreadyAcknowledged d'))
     \<and> list_all (\<lambda>x. idempotency_key (delivered_event x) \<noteq> idempotency_key_from (delivery_event d))
         (snd (claim_events cap t (delivery_consumer d) cl))"
proof (intro impI, elim conjE)
  let ?k = "idempotency_key_from (delivery_event d)" and ?c = "delivery_consumer d"
  assume run: "journal_run cap s" and ack: "ack s d = (s', Inr ())" and p: "positions s ?k = Some p"
    and later: "reaches (journal_step cap) s' t" and pt: "positions t ?k = Some p"
    and d': "delivery_consumer d' = ?c" "delivery_event d' = delivery_event d"
  have ok: "storage_ok cap s" by (rule journal_run_ok [OF run])
  have t: "storage_ok cap t" "settled_with ?c p t"
    using settled.reachable_good [OF later] storage_ok_ack [OF ok ack] ack_settles [OF ok ack p] by blast+
  have "p \<in> position ` set (entries t)" using storage_okD(5) [OF t(1)] pt by (auto simp: index_ok_def)
  with t(2) have acked: "p \<in> acked (consumer_entry t ?c)" by (simp add: settled_with_def)
  then obtain st where st: "map_of (consumers t) ?c = Some st" "consumer_entry t ?c = st"
    by (auto simp: consumer_entry_def consumer_default_def split: option.splits)
  have "quarantined st p = None"
    using state_ok_consumer [OF t(1), of ?c] acked st by (auto simp: state_ok_def)
  with acked st pt d' claim_skips_resolved [OF t(1) pt, of ?c]
  show "ack t d' = (t, Inr ()) \<and> relinquish t d' = (t, Inr ())
     \<and> quarantine t d' reason = (t, Inl (AlreadyAcknowledged d'))
     \<and> list_all (\<lambda>x. idempotency_key (delivered_event x) \<noteq> ?k) (snd (claim_events cap t ?c cl))"
    by (auto simp: ack_def relinquish_def quarantine_def list_all_iff unresolved_def)
qed

section \<open>Statistics and identity\<close>

lemma stats_loop_counts:
  "stats_quarantined (fst (stats_loop (Some st) now es stats oldest))
     = stats_quarantined stats + length (filter (\<lambda>e. quarantined st (position e) \<noteq> None) es)"
  "in_flight (fst (stats_loop (Some st) now es stats oldest))
     = in_flight stats + length (filter (\<lambda>e. \<not> quarantined st (position e) \<noteq> None
         \<and> \<not> position e \<in> acked st \<and> live st now (position e)) es)"
  "pending (fst (stats_loop (Some st) now es stats oldest))
     = pending stats + length (filter (\<lambda>e. \<not> quarantined st (position e) \<noteq> None
         \<and> \<not> position e \<in> acked st \<and> \<not> live st now (position e)) es)"
  by (induction es arbitrary: stats oldest) (simp_all add: Let_def live_def)

lemma three_way_split:
  "length (filter q es) + length (filter (\<lambda>e. \<not> q e \<and> a e) es)
     + length (filter (\<lambda>e. \<not> q e \<and> \<not> a e \<and> l e) es) + length (filter (\<lambda>e. \<not> q e \<and> \<not> a e \<and> \<not> l e) es)
   = length es"
  by (induction es) auto

lemma journal_stats_sel:
  "pending (journal_stats_of cap s c now) =
     pending (fst (stats_loop (map_of (consumers s) c) now (entries s)
       \<lparr>pending = 0, in_flight = 0, stats_quarantined = 0, oldest_pending_age = None,
        stats_dropped = dropped s, stats_capacity = cap\<rparr> None))"
  "in_flight (journal_stats_of cap s c now) =
     in_flight (fst (stats_loop (map_of (consumers s) c) now (entries s)
       \<lparr>pending = 0, in_flight = 0, stats_quarantined = 0, oldest_pending_age = None,
        stats_dropped = dropped s, stats_capacity = cap\<rparr> None))"
  "stats_quarantined (journal_stats_of cap s c now) =
     stats_quarantined (fst (stats_loop (map_of (consumers s) c) now (entries s)
       \<lparr>pending = 0, in_flight = 0, stats_quarantined = 0, oldest_pending_age = None,
        stats_dropped = dropped s, stats_capacity = cap\<rparr> None))"
  by (simp_all add: journal_stats_of_def case_prod_beta Let_def)

text \<open>
  C27. A consumer's statistics account for every stored event exactly once: pending, in flight,
  quarantined or acknowledged; and it is drained exactly when every stored event has a verdict
  from it.
\<close>

theorem stats_account_for_every_event:
  "journal_run cap s \<and> map_of (consumers s) c = Some st \<longrightarrow>
     (let x = journal_stats_of cap s c now in
      pending x + in_flight x + stats_quarantined x
        + length (filter (\<lambda>e. position e \<in> acked st) (entries s)) = length (entries s)
      \<and> (is_drained x \<longleftrightarrow> filter (\<lambda>e. unresolved st (position e)) (entries s) = []))"
proof (intro impI, elim conjE)
  assume "journal_run cap s" and st: "map_of (consumers s) c = Some st"
  then have "state_ok cap (entries s) st" using state_ok_of journal_run_ok by blast
  then have excl: "quarantined st p = None" if "p \<in> acked st" for p
    using that by (auto simp: state_ok_def)
  let ?q = "\<lambda>e. quarantined st (position e) \<noteq> None" and ?a = "\<lambda>e. position e \<in> acked st"
    and ?l = "\<lambda>e. live st now (position e)"
  have acked: "filter (\<lambda>e. \<not> ?q e \<and> ?a e) (entries s) = filter ?a (entries s)"
    using excl by (auto intro: filter_cong)
  note counts = stats_loop_counts [of st now "entries s"]
  have "filter (\<lambda>e. unresolved st (position e)) (entries s) = [] \<longleftrightarrow>
      filter (\<lambda>e. \<not> ?q e \<and> \<not> ?a e \<and> ?l e) (entries s) = []
      \<and> filter (\<lambda>e. \<not> ?q e \<and> \<not> ?a e \<and> \<not> ?l e) (entries s) = []"
    by (auto simp: filter_empty_conv unresolved_def)
  with three_way_split [of ?q "entries s" ?a ?l] acked counts st
  show "let x = journal_stats_of cap s c now in
      pending x + in_flight x + stats_quarantined x
        + length (filter (\<lambda>e. position e \<in> acked st) (entries s)) = length (entries s)
      \<and> (is_drained x \<longleftrightarrow> filter (\<lambda>e. unresolved st (position e)) (entries s) = [])"
    unfolding Let_def is_drained_def journal_stats_sel by (simp add: conj_commute)
qed

lemma usage_event_new_Inr:
  "usage_event_new a = Inr x \<Longrightarrow>
     length (event_id x) = 16 \<and> idempotency_key x = request_id_display (event_id x)
     \<and> request_id_text (observed_record_of a) = request_id_display (event_id x)
     \<and> event_record x = observed_record_of a
     \<and> event_ordering_key x = ordering_key_of (observed_record_of a)"
  using request_id_text_is_canonical
  by (auto simp: usage_event_new_def idempotency_key_from_def Let_def split: sum.splits)

text \<open>
  The identity of an event is that of its request, and the key it is deduplicated on is the
  text of the record's own request id: a record becomes an event exactly when that text is a
  request identity, and two events share a key exactly when they have the same identity.
\<close>

theorem event_identity_is_the_request:
  "(is_ok (usage_event_new a) \<longleftrightarrow> is_ok (request_id_parse (request_id_text (observed_record_of a))))
   \<and> (usage_event_new a = Inr x \<and> usage_event_new b = Inr y \<longrightarrow>
        idempotency_key x = request_id_text (observed_record_of a)
        \<and> event_record x = observed_record_of a
        \<and> event_ordering_key x = ordering_key_of (observed_record_of a)
        \<and> (idempotency_key x = idempotency_key y \<longleftrightarrow> event_id x = event_id y))"
proof -
  have inj: "u = v" if "request_id_display u = request_id_display v" "length u = 16" "length v = 16" for u v
    using that uuid7_display_inj by (simp add: request_id_display_def)
  have "is_ok (usage_event_new a) \<longleftrightarrow> is_ok (request_id_parse (request_id_text (observed_record_of a)))"
    by (simp add: usage_event_new_def Let_def split: sum.splits)
  with usage_event_new_Inr [of a x] usage_event_new_Inr [of b y] inj [of "event_id x" "event_id y"]
  show ?thesis by auto
qed

section \<open>Examples\<close>

definition one_stored :: "unit storage" where
  "one_stored = push_entry storage_default (sample_event [1] ''alice'' 5)"

definition sample_claim :: claim where
  "sample_claim = \<lparr>claim_max_events = 10, lease = 30, claim_now = 6\<rparr>"

definition sample_delivery :: "unit delivery" where
  "sample_delivery =
     \<lparr>delivery_id = \<lparr>delivery_consumer = ''billing'', delivery_event = [1], attempt = 1\<rparr>,
      delivered_event = sample_event [1] ''alice'' 5, lease_expires_at = 36\<rparr>"

definition one_leased :: "unit storage" where
  "one_leased = put_consumer one_stored ''billing''
     \<lparr>acked = {}, quarantined = Map.empty, attempts = [0 \<mapsto> 1], leases = [0 \<mapsto> 36]\<rparr>"

lemma append_first:
  "append BILLING_GRADE storage_default (sample_event [1] ''alice'' 5) 5 = Some (one_stored, Inr (Accepted 0))"
  by (simp add: append_def prune_acknowledged_def delivered_def storage_default_def BILLING_GRADE_def
      one_stored_def Let_def)

lemma claim_first:
  "claim_events BILLING_GRADE one_stored ''billing'' sample_claim = (one_leased, [sample_delivery])"
  by (simp add: claim_events_def one_stored_def push_entry_def storage_default_def consumer_entry_def
      consumer_default_def sample_claim_def BILLING_GRADE_def one_leased_def sample_delivery_def Let_def)

lemma run_one_stored: "journal_run BILLING_GRADE one_stored"
  unfolding journal_run_def by (rule reaches_step [where step = "journal_step BILLING_GRADE",
      OF reaches_refl step_append [OF append_first]])

lemma run_one_leased: "journal_run BILLING_GRADE one_leased"
  using run_one_stored step_claim [OF claim_first] unfolding journal_run_def
  by (rule reaches_step [where step = "journal_step BILLING_GRADE"])

theorem journal_invariants_witness:
  "journal_run BILLING_GRADE one_leased
   \<and> first_unresolved (consumer_entry one_leased ''billing'') (entries one_leased) 0"
proof -
  have "leases (consumer_entry one_leased ''billing'') 0 \<noteq> None"
    by (simp add: one_leased_def)
  with journal_invariants [of BILLING_GRADE one_leased] run_one_leased show ?thesis by (auto simp: Let_def)
qed

theorem claim_delivers_in_order_witness:
  "claim_events BILLING_GRADE one_stored ''billing'' sample_claim = (one_leased, [sample_delivery])
   \<and> attempt (delivery_id sample_delivery) \<le> max_delivery_attempts BILLING_GRADE"
  using claim_delivers_in_order [of BILLING_GRADE one_stored "''billing''" sample_claim one_leased "[sample_delivery]"]
    run_one_stored claim_first
  by simp

theorem append_loses_nothing_uncounted_witness:
  "append BILLING_GRADE storage_default (sample_event [1] ''alice'' 5) 5 = Some (one_stored, Inr (Accepted 0))
   \<and> lost storage_default one_stored = []"
proof -
  have "journal_run BILLING_GRADE (storage_default :: unit storage)"
    unfolding journal_run_def by (rule reaches_refl)
  moreover have "policy BILLING_GRADE = Refuse" by (simp add: BILLING_GRADE_def)
  ultimately show ?thesis
    using append_loses_nothing_uncounted [of BILLING_GRADE storage_default "sample_event [1] ''alice'' 5" 5 one_stored "Inr (Accepted 0)"]
      append_first
    by simp
qed

theorem append_retry_is_recognised_witness:
  "reaches (journal_step BILLING_GRADE) one_stored one_leased
   \<and> ((\<exists>t'. append BILLING_GRADE one_leased (sample_event [1] ''alice'' 99) (10 ^ 20) = Some (t', Inr (AlreadyPresent 0)))
      \<or> given_up BILLING_GRADE one_stored one_leased 0)"
proof -
  have "journal_run BILLING_GRADE (storage_default :: unit storage)"
    unfolding journal_run_def by (rule reaches_refl)
  moreover have "reaches (journal_step BILLING_GRADE) one_stored one_leased"
    by (rule reaches_step [where step = "journal_step BILLING_GRADE", OF reaches_refl step_claim [OF claim_first]])
  ultimately show ?thesis
    using append_retry_is_recognised
      [of BILLING_GRADE storage_default "sample_event [1] ''alice'' 5" 5 one_stored 0 one_leased
        "sample_event [1] ''alice'' 99" "10 ^ 20"]
      append_first
    by simp
qed

definition one_acked :: "unit storage" where
  "one_acked = fst (ack one_leased (delivery_id sample_delivery))"

lemma ack_first: "ack one_leased (delivery_id sample_delivery) = (one_acked, Inr ())"
  by (simp add: one_acked_def ack_def one_leased_def one_stored_def push_entry_def storage_default_def
      put_consumer_def sample_delivery_def)

lemma one_acked_positions: "positions one_acked (idempotency_key_from [1]) = Some 0"
  "positions one_leased (idempotency_key_from [1]) = Some 0"
  by (simp_all add: one_acked_def ack_def one_leased_def one_stored_def push_entry_def storage_default_def
      put_consumer_def sample_delivery_def)

theorem ack_is_final_witness:
  "ack one_leased (delivery_id sample_delivery) = (one_acked, Inr ())
   \<and> ack one_acked (delivery_id sample_delivery) = (one_acked, Inr ())
   \<and> fst (quarantine one_acked (delivery_id sample_delivery) Rejected) = one_acked"
proof -
  have "reaches (journal_step BILLING_GRADE) one_acked one_acked" by (rule reaches_refl)
  moreover have "idempotency_key_from (delivery_event (delivery_id sample_delivery)) = idempotency_key_from [1]"
    by (simp add: sample_delivery_def)
  ultimately show ?thesis
    using ack_is_final [of BILLING_GRADE one_leased "delivery_id sample_delivery" one_acked 0 one_acked
        "delivery_id sample_delivery" Rejected]
      run_one_leased ack_first one_acked_positions
    by simp
qed

theorem stats_account_for_every_event_witness:
  "\<exists>st. map_of (consumers one_leased) ''billing'' = Some st
     \<and> (let x = journal_stats_of BILLING_GRADE one_leased ''billing'' 10 in
        pending x + in_flight x + stats_quarantined x
          + length (filter (\<lambda>e. position e \<in> acked st) (entries one_leased)) = length (entries one_leased))"
proof -
  obtain st where "map_of (consumers one_leased) ''billing'' = Some st"
    by (auto simp: one_leased_def put_consumer_def update_conv')
  with stats_account_for_every_event [of BILLING_GRADE one_leased "''billing''" st 10] run_one_leased
  show ?thesis by (auto simp: Let_def)
qed

definition sample_uuid :: uuid7 where
  "sample_uuid = [1, 2, 3, 4, 5, 6, 0x70, 8, 0x80, 10, 11, 12, 13, 14, 15, 16]"

theorem event_identity_is_the_request_witness:
  "\<exists>x. usage_event_new \<lparr>observed_record_of = sample_record (request_id_display sample_uuid) ''alice'',
         observed_record_at = 3\<rparr> = Inr x \<and> idempotency_key x = request_id_display sample_uuid"
proof -
  let ?a = "\<lparr>observed_record_of = sample_record (request_id_display sample_uuid) ''alice'', observed_record_at = 3\<rparr>"
  have "from_bytes sample_uuid = Inr sample_uuid" "length sample_uuid = 16"
    by (simp_all add: from_bytes_def sample_uuid_def)
  then have "request_id_parse (request_id_display sample_uuid) = Inr sample_uuid"
    by (simp add: request_id_text_is_canonical)
  then obtain x where x: "usage_event_new ?a = Inr x"
    by (simp add: usage_event_new_def sample_record_def Let_def)
  with event_identity_is_the_request [of ?a x ?a x] show ?thesis by (auto simp: sample_record_def)
qed

end
