(* ===== verification/Worker.thy ===== *)
theory Worker
  imports Bisection Journal_Laws
begin

text \<open>
  The delivery worker, \<open>crates/gateway/src/usage/journal/worker.rs\<close>: one pass of claim, write
  and acknowledge, and the report a drain hands back.  The worker sees its journal as a
  \<open>dyn UsageJournal\<close>; here that is a record of operations, its contract is a locale, and the
  in-memory oracle is the interpretation.  Clock readings are arguments; counters are natural
  numbers; metrics and log lines are left out.
\<close>

section \<open>The journal as the worker sees it\<close>

record ('s, 'v) usage_journal =
  journal_append :: "'s \<Rightarrow> 'v usage_event \<Rightarrow> instant \<Rightarrow> ('s \<times> (journal_error, appended) result) option"
  journal_claim :: "'s \<Rightarrow> consumer_id \<Rightarrow> claim \<Rightarrow> 's \<times> (journal_error, 'v delivery list) result"
  journal_ack :: "'s \<Rightarrow> delivery_id \<Rightarrow> 's \<times> (journal_error, unit) result"
  journal_quarantine :: "'s \<Rightarrow> delivery_id \<Rightarrow> poison_reason \<Rightarrow> 's \<times> (journal_error, unit) result"
  journal_relinquish :: "'s \<Rightarrow> delivery_id \<Rightarrow> 's \<times> (journal_error, unit) result"
  journal_stats_read :: "'s \<Rightarrow> consumer_id \<Rightarrow> instant \<Rightarrow> (journal_error, journal_stats) result"
  journal_capacity :: capacity

text \<open>The default method of the trait: one acknowledgement after another.\<close>

fun ack_all ::
  "('s, 'v) usage_journal \<Rightarrow> 's \<Rightarrow> delivery_id list \<Rightarrow> 's \<times> (journal_error, unit) result list" where
  "ack_all J s [] = (s, [])"
| "ack_all J s (d # ds) =
     (let (s1, verdict) = journal_ack J s d; (s2, verdicts) = ack_all J s1 ds in (s2, verdict # verdicts))"

record worker_settings =
  settings_consumer :: consumer_id
  claim_batch :: nat
  settings_lease :: duration
  poll_interval :: duration
  maintain_interval :: duration

definition settings_default :: worker_settings where
  "settings_default =
     \<lparr>settings_consumer = ''billing'', claim_batch = 256, settings_lease = from_secs 30,
      poll_interval = from_millis 250, maintain_interval = from_secs 60\<rparr>"

section \<open>The drain report\<close>

record drain_report =
  report_delivered :: nat
  report_failed :: nat
  report_undelivered :: nat
  report_quarantined :: nat
  report_drained :: bool
  reported :: bool
  counted :: bool
  unwaited :: bool

definition report_default :: drain_report where
  "report_default =
     \<lparr>report_delivered = 0, report_failed = 0, report_undelivered = 0, report_quarantined = 0,
      report_drained = False, reported = False, counted = False, unwaited = False\<rparr>"

definition caught_up :: "drain_report \<Rightarrow> bool option" where
  "caught_up r = (if counted r then Some (report_drained r) else None)"

definition report_observe :: "drain_report \<Rightarrow> journal_stats \<Rightarrow> drain_report" where
  "report_observe r stats =
     r\<lparr>report_undelivered := pending stats + in_flight stats, report_quarantined := stats_quarantined stats,
       report_drained := is_drained stats, counted := True\<rparr>"

section \<open>One pass\<close>

record ('s, 'w, 'v) delivery_worker =
  worker_journal :: "('s, 'v) usage_journal"
  worker_sinks :: "('w, 'v) sink list"
  advisory :: "('w, 'v) sink list"
  worker_settings :: worker_settings

definition worker_new ::
  "('s, 'v) usage_journal \<Rightarrow> ('w, 'v) sink list \<Rightarrow> worker_settings \<Rightarrow> ('s, 'w, 'v) delivery_worker" where
  "worker_new J sinks settings =
     \<lparr>worker_journal = J, worker_sinks = sinks, advisory = [], worker_settings = settings\<rparr>"

definition also_telling ::
  "('s, 'w, 'v) delivery_worker \<Rightarrow> ('w, 'v) sink list \<Rightarrow> ('s, 'w, 'v) delivery_worker" where
  "also_telling W sinks = W\<lparr>advisory := sinks\<rparr>"

definition tell_advisory ::
  "('s, 'w, 'v) delivery_worker \<Rightarrow> 'v delivery list \<Rightarrow> nat list \<Rightarrow> 'w \<Rightarrow> 'w" where
  "tell_advisory W claimed ls w =
     (if advisory W = [] \<or> ls = [] then w
      else fold (\<lambda>sink w. fst (sink w (map (\<lambda>i. event_observed (delivered_event (claimed ! i))) ls)))
             (advisory W) w)"

definition worker_deliver ::
  "('s, 'w, 'v) delivery_worker \<Rightarrow> 'w \<Rightarrow> 'v delivery list \<Rightarrow> ('w \<times> worker_delivered) option" where
  "worker_deliver W w claimed =
     (case deliver_durably (worker_sinks W) w claimed of
        None \<Rightarrow> None
      | Some (w', outcome) \<Rightarrow> Some (tell_advisory W claimed (landed outcome) w', outcome))"

text \<open>
  The two loops after a short delivery: a refused event that has used up its attempts is
  quarantined, and an event nobody accepted and nobody refused gets its attempt back.  Errors
  of either call are logged and skipped.
\<close>

fun condemn_refused :: "('s, 'v) usage_journal \<Rightarrow> 'v delivery list \<Rightarrow> nat list \<Rightarrow> 's \<Rightarrow> 's" where
  "condemn_refused J claimed [] s = s"
| "condemn_refused J claimed (i # is) s =
     (let d = delivery_id (claimed ! i) in
      if attempt d < max_delivery_attempts (journal_capacity J) then condemn_refused J claimed is s
      else condemn_refused J claimed is (fst (journal_quarantine J s d Rejected)))"

fun return_attempts ::
  "('s, 'v) usage_journal \<Rightarrow> worker_delivered \<Rightarrow> (nat \<times> 'v delivery) list \<Rightarrow> 's \<Rightarrow> 's" where
  "return_attempts J outcome [] s = s"
| "return_attempts J outcome ((i, d) # ds) s =
     (if i \<in> set (landed outcome) \<or> i \<in> set (refused outcome) then return_attempts J outcome ds s
      else return_attempts J outcome ds (fst (journal_relinquish J s (delivery_id d))))"

definition pass_claim :: "worker_settings \<Rightarrow> instant \<Rightarrow> claim" where
  "pass_claim settings now =
     \<lparr>claim_max_events = claim_batch settings, lease = settings_lease settings, claim_now = now\<rparr>"

definition pump ::
  "('s, 'w, 'v) delivery_worker \<Rightarrow> instant \<Rightarrow> 's \<Rightarrow> 'w \<Rightarrow> drain_report
     \<Rightarrow> ('s \<times> 'w \<times> drain_report \<times> (journal_error, nat) result) option" where
  "pump W now s w report =
     (let J = worker_journal W; settings = worker_settings W in
      case journal_claim J s (settings_consumer settings) (pass_claim settings now) of
        (s1, Inl e) \<Rightarrow> Some (s1, w, report, Inl e)
      | (s1, Inr claimed) \<Rightarrow>
          if claimed = [] then Some (s1, w, report, Inr 0)
          else
            (case worker_deliver W w claimed of
               None \<Rightarrow> None
             | Some (w1, outcome) \<Rightarrow>
                 (let short = length (landed outcome) < length claimed;
                      report1 = (if short then report\<lparr>report_failed := report_failed report + 1\<rparr> else report);
                      s2 = (if short
                            then return_attempts J outcome (enumerate 0 claimed)
                                   (condemn_refused J claimed (refused outcome) s1)
                            else s1)
                  in if landed outcome = [] then Some (s2, w1, report1, Inr 0)
                     else
                       (let ids = map (\<lambda>i. delivery_id (claimed ! i)) (landed outcome);
                            (s3, verdicts) = ack_all J s2 ids;
                            acknowledged = length (filter (\<lambda>(d, verdict). is_ok verdict) (zip ids verdicts))
                        in Some (s3, w1, report1\<lparr>report_delivered := report_delivered report1 + acknowledged\<rparr>,
                                 Inr acknowledged)))))"

section \<open>Stopping\<close>

definition DRAIN_MARGIN :: duration where "DRAIN_MARGIN = from_secs 1"

definition CLOSING_READ :: duration where "CLOSING_READ = from_millis 500"

text \<open>How the awaited task ends inside its bound, and how a bounded backlog read ends.\<close>

datatype task_end = TaskReturned drain_report | TaskPanicked | TaskOverran

definition handle_abandon :: drain_report where
  "handle_abandon = report_default\<lparr>unwaited := True\<rparr>"

definition handle_unreported :: "journal_stats option \<Rightarrow> drain_report" where
  "handle_unreported closing_read =
     (let report = (case closing_read of
                      Some stats \<Rightarrow> report_observe report_default stats
                    | None \<Rightarrow> report_default)
      in report\<lparr>report_drained := False\<rparr>)"

fun handle_drain :: "task_end \<Rightarrow> journal_stats option \<Rightarrow> drain_report" where
  "handle_drain (TaskReturned report) _ = report"
| "handle_drain TaskPanicked closing_read = handle_unreported closing_read"
| "handle_drain TaskOverran closing_read = handle_unreported closing_read"

text \<open>What the worker's own task reports: its counters, and the closing read when it answered.\<close>

definition run_report :: "drain_report \<Rightarrow> journal_stats option \<Rightarrow> drain_report" where
  "run_report report closing_read =
     (case closing_read of Some stats \<Rightarrow> report_observe report stats | None \<Rightarrow> report)"

section \<open>The contract of a journal\<close>

text \<open>
  Where an event stands with a consumer.  The contract says what each call of the worker does
  to the standing of the event it names, and that it touches no other.
\<close>

datatype standing = Waiting nat | Acknowledged | SetAside

definition delivery_key :: "delivery_id \<Rightarrow> idempotency_key" where
  "delivery_key d = idempotency_key_from (delivery_event d)"

abbreviation claimed_key :: "'v delivery \<Rightarrow> idempotency_key" where
  "claimed_key d \<equiv> delivery_key (delivery_id d)"

definition put_standing ::
  "delivery_id \<Rightarrow> standing \<Rightarrow> (consumer_id \<Rightarrow> idempotency_key \<rightharpoonup> standing) \<Rightarrow> consumer_id \<Rightarrow> idempotency_key \<rightharpoonup> standing" where
  "put_standing d x v c k = (if c = delivery_consumer d \<and> k = delivery_key d then Some x else v c k)"

lemma fold_put_other:
  "\<forall>d\<in>set ds. \<not> (delivery_consumer d = c \<and> delivery_key d = k) \<Longrightarrow>
     fold (\<lambda>d. put_standing d (f d)) ds v c k = v c k"
  by (induction ds arbitrary: v) (auto simp: put_standing_def)

lemma fold_put_in:
  "distinct (map delivery_key ds) \<Longrightarrow> d \<in> set ds \<Longrightarrow>
     fold (\<lambda>d. put_standing d (f d)) ds v (delivery_consumer d) (delivery_key d) = Some (f d)"
proof (induction ds arbitrary: v)
  case (Cons x ds)
  show ?case
  proof (cases "d = x")
    case True
    then have "\<forall>e\<in>set ds. delivery_key e \<noteq> delivery_key d" using Cons.prems(1) by simp (metis imageI)
    then have "fold (\<lambda>d. put_standing d (f d)) ds (put_standing x (f x) v) (delivery_consumer d) (delivery_key d)
        = put_standing x (f x) v (delivery_consumer d) (delivery_key d)"
      by (intro fold_put_other) blast
    with True show ?thesis by (simp add: put_standing_def [of x])
  next
    case False
    with Cons show ?thesis by simp
  qed
qed simp

text \<open>Where a pass leaves the claimed event \<open>i\<close>, claimed as attempt \<open>n\<close> of at most \<open>budget\<close>.\<close>

definition settled :: "nat \<Rightarrow> worker_delivered \<Rightarrow> nat \<Rightarrow> nat \<Rightarrow> standing" where
  "settled budget outcome i n =
     (if i \<in> set (landed outcome) then Acknowledged
      else if i \<in> set (refused outcome) then (if n < budget then Waiting n else SetAside)
      else Waiting (n - 1))"

lemma enumerate_idx: "enumerate 0 xs = map (\<lambda>i. (i, xs ! i)) [0..<length xs]"
  by (rule nth_equalityI) (simp_all add: nth_enumerate_eq)

lemma return_attempts_none:
  "\<forall>(i, d)\<in>set ds. i \<in> set (landed outcome) \<or> i \<in> set (refused outcome) \<Longrightarrow> return_attempts J outcome ds s = s"
  by (induction J outcome ds s rule: return_attempts.induct) simp_all

lemma claimed_key_inj:
  assumes "distinct (map claimed_key claimed)" and "i < length claimed" and "j < length claimed"
    and "claimed_key (claimed ! i) = claimed_key (claimed ! j)"
  shows "i = j"
  using assms nth_eq_iff_index_eq [of "map claimed_key claimed" i j] by simp

lemma idx_keys_disjoint:
  assumes "distinct (map claimed_key claimed)" and "set js \<inter> set ks = {}"
    and "set js \<subseteq> {..<length claimed}" and "set ks \<subseteq> {..<length claimed}"
  shows "delivery_key ` set (map (\<lambda>i. delivery_id (claimed ! i)) js)
     \<inter> delivery_key ` set (map (\<lambda>i. delivery_id (claimed ! i)) ks) = {}"
proof -
  have "claimed_key (claimed ! j) \<noteq> claimed_key (claimed ! k)" if "j \<in> set js" "k \<in> set ks" for j k
    using claimed_key_inj [OF assms(1), of j k] that assms(2-4) by auto
  then show ?thesis by auto
qed

text \<open>Folds over deliveries named by their index in the claimed batch.\<close>

abbreviation ids_at :: "'v delivery list \<Rightarrow> nat list \<Rightarrow> delivery_id list" where
  "ids_at claimed js \<equiv> map (\<lambda>i. delivery_id (claimed ! i)) js"

lemma fold_idx_other:
  assumes "distinct (map claimed_key claimed)" and "set js \<subseteq> {..<length claimed}"
    and "i < length claimed" and "i \<notin> set js" and "set ds \<subseteq> set (ids_at claimed js)"
  shows "fold (\<lambda>d. put_standing d (f d)) ds v c (claimed_key (claimed ! i)) = v c (claimed_key (claimed ! i))"
proof -
  have "claimed_key (claimed ! i) \<notin> delivery_key ` set ds"
    using idx_keys_disjoint [OF assms(1), of "[i]" js] assms(2-5) by auto
  then show ?thesis by (intro fold_put_other) (metis imageI)
qed

lemma fold_idx_outside:
  assumes "\<forall>d\<in>set claimed. delivery_consumer (delivery_id d) = c" and "set js \<subseteq> {..<length claimed}"
    and "c' \<noteq> c \<or> k \<notin> claimed_key ` set claimed" and "set ds \<subseteq> set (ids_at claimed js)"
  shows "fold (\<lambda>d. put_standing d (f d)) ds v c' k = v c' k"
proof (rule fold_put_other, rule ballI)
  fix d assume "d \<in> set ds"
  then obtain x where "x \<in> set claimed" "d = delivery_id x" using assms(2,4) by force
  with assms(1,3) show "\<not> (delivery_consumer d = c' \<and> delivery_key d = k)" by auto
qed

lemma fold_idx_in:
  assumes "distinct (map claimed_key claimed)" and "\<forall>d\<in>set claimed. delivery_consumer (delivery_id d) = c"
    and "distinct js" and "set js \<subseteq> {..<length claimed}" and "i \<in> set js" and "P (delivery_id (claimed ! i))"
  shows "fold (\<lambda>d. put_standing d (f d)) (filter P (ids_at claimed js)) v c (claimed_key (claimed ! i))
    = Some (f (delivery_id (claimed ! i)))"
proof -
  have "inj_on (\<lambda>i. claimed_key (claimed ! i)) (set js)"
    using assms(4) claimed_key_inj [OF assms(1)] by (auto simp: inj_on_def)
  then have "distinct (map delivery_key (ids_at claimed js))" using assms(3) by (simp add: distinct_map comp_def)
  then have *: "distinct (map delivery_key (filter P (ids_at claimed js)))" by (rule distinct_map_filter)
  have "delivery_id (claimed ! i) \<in> set (filter P (ids_at claimed js))" using assms(5,6) by simp
  note put = fold_put_in [OF * this, of f v]
  have "delivery_consumer (delivery_id (claimed ! i)) = c" using assms(2,4,5) by auto
  with put show ?thesis by simp
qed

lemma fold_idx_filtered:
  assumes "distinct (map claimed_key claimed)" and "\<forall>d\<in>set claimed. delivery_consumer (delivery_id d) = c"
    and "distinct js" and "set js \<subseteq> {..<length claimed}" and "i \<in> set js"
  shows "fold (\<lambda>d. put_standing d (f d)) (filter P (ids_at claimed js)) v c (claimed_key (claimed ! i))
    = (if P (delivery_id (claimed ! i)) then Some (f (delivery_id (claimed ! i))) else v c (claimed_key (claimed ! i)))"
proof (cases "P (delivery_id (claimed ! i))")
  case True
  with fold_idx_in [OF assms, of P] show ?thesis by simp
next
  case False
  then have "set (filter P (ids_at claimed js)) \<subseteq> set (ids_at claimed (filter (\<lambda>j. j \<noteq> i) js))" by auto
  from fold_idx_other [OF assms(1) _ _ _ this, of i] assms(4,5) False show ?thesis by auto
qed

text \<open>
  What may differ between two standings when nothing but spent budgets was charged: an event
  stands where it stood, or the consumer's claim set it aside because its attempts were already
  spent.
\<close>

definition spares :: "nat \<Rightarrow> consumer_id \<Rightarrow> (consumer_id \<Rightarrow> idempotency_key \<rightharpoonup> standing)
    \<Rightarrow> (consumer_id \<Rightarrow> idempotency_key \<rightharpoonup> standing) \<Rightarrow> bool" where
  "spares budget c before after \<longleftrightarrow>
     (\<forall>c' k. after c' k = before c' k
        \<or> c' = c \<and> after c' k = Some SetAside \<and> (\<exists>n. before c' k = Some (Waiting n) \<and> budget \<le> n))"

lemma spares_trans: "spares b c f g \<Longrightarrow> spares b c g h \<Longrightarrow> spares b c f h"
  unfolding spares_def by (metis option.inject standing.distinct)

text \<open>A sequence of passes at the given instants, whatever each of them returns.\<close>

fun pump_passes ::
  "('s, 'w, 'v) delivery_worker \<Rightarrow> instant list \<Rightarrow> 's \<Rightarrow> 'w \<Rightarrow> drain_report \<Rightarrow> ('s \<times> 'w \<times> drain_report) option" where
  "pump_passes W [] s w report = Some (s, w, report)"
| "pump_passes W (now # nows) s w report =
     (case pump W now s w report of
        None \<Rightarrow> None
      | Some (s', w', report', _) \<Rightarrow> pump_passes W nows s' w' report')"

locale journal_contract =
  fixes J :: "('s, 'v) usage_journal"
    and good :: "'s \<Rightarrow> bool"
    and standing :: "'s \<Rightarrow> consumer_id \<Rightarrow> idempotency_key \<rightharpoonup> standing"
  assumes claim_good: "good s \<Longrightarrow> journal_claim J s c cl = (s', Inr ds) \<Longrightarrow> good s'"
    and claim_error: "good s \<Longrightarrow> journal_claim J s c cl = (s', Inl e) \<Longrightarrow> good s' \<and> standing s' = standing s"
    and claim_distinct: "good s \<Longrightarrow> journal_claim J s c cl = (s', Inr ds) \<Longrightarrow> distinct (map claimed_key ds)"
    and claim_charges: "good s \<Longrightarrow> journal_claim J s c cl = (s', Inr ds) \<Longrightarrow> dl \<in> set ds \<Longrightarrow>
        delivery_consumer (delivery_id dl) = c \<and> 0 < attempt (delivery_id dl)
        \<and> attempt (delivery_id dl) \<le> max_delivery_attempts (journal_capacity J)
        \<and> standing s c (claimed_key dl) = Some (Waiting (attempt (delivery_id dl) - 1))
        \<and> standing s' c (claimed_key dl) = Some (Waiting (attempt (delivery_id dl)))"
    and claim_others: "good s \<Longrightarrow> journal_claim J s c cl = (s', Inr ds) \<Longrightarrow> c' \<noteq> c \<or> k \<notin> claimed_key ` set ds \<Longrightarrow>
        standing s' c' k = standing s c' k
        \<or> c' = c \<and> standing s' c k = Some SetAside
          \<and> (\<exists>n. standing s c k = Some (Waiting n) \<and> max_delivery_attempts (journal_capacity J) \<le> n)"
    and ack_law: "good s \<Longrightarrow> standing s (delivery_consumer d) (delivery_key d) = Some (Waiting n) \<Longrightarrow> 0 < n \<Longrightarrow>
        journal_ack J s d = (s', r) \<Longrightarrow>
        good s' \<and> r = Inr () \<and> standing s' = put_standing d Acknowledged (standing s)"
    and quarantine_law: "good s \<Longrightarrow> standing s (delivery_consumer d) (delivery_key d) = Some (Waiting n) \<Longrightarrow> 0 < n \<Longrightarrow>
        journal_quarantine J s d reason = (s', r) \<Longrightarrow>
        good s' \<and> r = Inr () \<and> standing s' = put_standing d SetAside (standing s)"
    and relinquish_law: "good s \<Longrightarrow> standing s (delivery_consumer d) (delivery_key d) = Some (Waiting n) \<Longrightarrow> 0 < n \<Longrightarrow>
        n = attempt d \<Longrightarrow> journal_relinquish J s d = (s', r) \<Longrightarrow>
        good s' \<and> r = Inr () \<and> standing s' = put_standing d (Waiting (n - 1)) (standing s)"
begin

text \<open>The deliveries of a claim that are still outstanding, as the worker holds them.\<close>

definition outstanding :: "'s \<Rightarrow> delivery_id list \<Rightarrow> bool" where
  "outstanding s ds \<longleftrightarrow> good s \<and> distinct (map delivery_key ds)
     \<and> (\<forall>d\<in>set ds. 0 < attempt d \<and> standing s (delivery_consumer d) (delivery_key d) = Some (Waiting (attempt d)))"

lemma outstanding_Cons:
  assumes "outstanding s (d # ds)" and "good s'" and "standing s' = put_standing d x (standing s)"
  shows "outstanding s' ds"
proof -
  have "standing s' (delivery_consumer e) (delivery_key e) = standing s (delivery_consumer e) (delivery_key e)"
    if "e \<in> set ds" for e
  proof -
    have "delivery_key d \<notin> delivery_key ` set ds" using assms(1) by (simp add: outstanding_def)
    with that have "delivery_key e \<noteq> delivery_key d" by (metis imageI)
    then show ?thesis by (simp add: assms(3) put_standing_def)
  qed
  with assms(1,2) show ?thesis by (simp add: outstanding_def)
qed

lemma outstandingD:
  assumes "outstanding s (d # ds)"
  shows "good s" and "standing s (delivery_consumer d) (delivery_key d) = Some (Waiting (attempt d))"
    and "0 < attempt d" and "outstanding s ds"
  using assms by (simp_all add: outstanding_def)

lemma ack_all_standing:
  assumes "outstanding s ds" and "ack_all J s ds = (s', verdicts)"
  shows "good s' \<and> verdicts = map (\<lambda>_. Inr ()) ds
    \<and> standing s' = fold (\<lambda>d. put_standing d Acknowledged) ds (standing s)"
  using assms
proof (induction ds arbitrary: s verdicts)
  case Nil
  then show ?case by (simp add: outstanding_def)
next
  case (Cons d ds)
  obtain s1 r where s1: "journal_ack J s d = (s1, r)" by fastforce
  obtain vs where vs: "ack_all J s1 ds = (s', vs)" "verdicts = r # vs"
    using Cons.prems(2) s1 by (auto split: prod.splits)
  have law: "good s1 \<and> r = Inr () \<and> standing s1 = put_standing d Acknowledged (standing s)"
    by (rule ack_law [OF outstandingD(1-3) [OF Cons.prems(1)] s1])
  then have "outstanding s1 ds" by (blast intro: outstanding_Cons [OF Cons.prems(1)])
  from Cons.IH [OF this vs(1)] vs(2) law show ?case by simp
qed

lemma condemn_refused_standing:
  assumes "outstanding s (map (\<lambda>i. delivery_id (claimed ! i)) is)"
  shows "good (condemn_refused J claimed is s)
    \<and> standing (condemn_refused J claimed is s) =
        fold (\<lambda>d. put_standing d SetAside)
          (filter (\<lambda>d. max_delivery_attempts (journal_capacity J) \<le> attempt d)
             (map (\<lambda>i. delivery_id (claimed ! i)) is)) (standing s)"
  using assms
proof (induction "is" arbitrary: s)
  case Nil
  then show ?case by (simp add: outstanding_def)
next
  case (Cons i "is")
  let ?d = "delivery_id (claimed ! i)"
  have o: "outstanding s (?d # map (\<lambda>i. delivery_id (claimed ! i)) is)" using Cons.prems by simp
  obtain s1 r where s1: "journal_quarantine J s ?d Rejected = (s1, r)" by fastforce
  have law: "good s1 \<and> standing s1 = put_standing ?d SetAside (standing s)"
    using quarantine_law [OF outstandingD(1-3) [OF o] s1] by blast
  then have "outstanding s1 (map (\<lambda>i. delivery_id (claimed ! i)) is)" by (blast intro: outstanding_Cons [OF o])
  from Cons.IH [OF this] Cons.IH [OF outstandingD(4) [OF o]] law s1 show ?case by (simp add: Let_def not_less)
qed

lemma return_attempts_standing:
  assumes "outstanding s (map (\<lambda>x. delivery_id (snd x))
      (filter (\<lambda>(i, d). i \<notin> set (landed outcome) \<and> i \<notin> set (refused outcome)) ds))"
  shows "good (return_attempts J outcome ds s)
    \<and> standing (return_attempts J outcome ds s) =
        fold (\<lambda>d. put_standing d (Waiting (attempt d - 1)))
          (map (\<lambda>x. delivery_id (snd x))
            (filter (\<lambda>(i, d). i \<notin> set (landed outcome) \<and> i \<notin> set (refused outcome)) ds)) (standing s)"
  using assms
proof (induction ds arbitrary: s)
  case Nil
  then show ?case by (simp add: outstanding_def)
next
  case (Cons x ds)
  let ?rest = "map (\<lambda>x. delivery_id (snd x))
      (filter (\<lambda>(i, d). i \<notin> set (landed outcome) \<and> i \<notin> set (refused outcome)) ds)"
  obtain i d where x: "x = (i, d)" by fastforce
  show ?case
  proof (cases "i \<in> set (landed outcome) \<or> i \<in> set (refused outcome)")
    case True
    with Cons.IH [of s] Cons.prems x show ?thesis by auto
  next
    case False
    let ?d = "delivery_id d"
    have o: "outstanding s (?d # ?rest)" using Cons.prems x False by simp
    obtain s1 r where s1: "journal_relinquish J s ?d = (s1, r)" by fastforce
    have law: "good s1 \<and> standing s1 = put_standing ?d (Waiting (attempt ?d - 1)) (standing s)"
      using relinquish_law [OF outstandingD(1-3) [OF o] refl s1] by blast
    then have "outstanding s1 ?rest" by (blast intro: outstanding_Cons [OF o])
    from Cons.IH [OF this] law s1 x False show ?thesis by simp
  qed
qed

text \<open>Deliveries named by their index in the claimed batch.\<close>

lemma outstanding_idx:
  fixes claimed :: "'v delivery list"
  assumes "outstanding s (map delivery_id claimed)" and "distinct js" and "set js \<subseteq> {..<length claimed}"
  shows "outstanding s (map (\<lambda>i. delivery_id (claimed ! i)) js)"
proof -
  have "distinct (map claimed_key claimed)" using assms(1) by (simp add: outstanding_def comp_def)
  then have "inj_on (\<lambda>i. claimed_key (claimed ! i)) (set js)"
    using assms(3) by (auto simp: inj_on_def dest: claimed_key_inj)
  with assms show ?thesis by (auto simp: outstanding_def distinct_map comp_def)
qed

lemma outstanding_after:
  assumes "outstanding s ds" and "good s'"
    and "standing s' = fold (\<lambda>d. put_standing d (f d)) es (standing s)"
    and "delivery_key ` set ds \<inter> delivery_key ` set es = {}"
  shows "outstanding s' ds"
proof -
  have "standing s' (delivery_consumer d) (delivery_key d) = standing s (delivery_consumer d) (delivery_key d)"
    if "d \<in> set ds" for d
    unfolding assms(3) using assms(4) that by (intro fold_put_other) (metis disjoint_iff imageI)
  with assms(1,2) show ?thesis by (simp add: outstanding_def)
qed

text \<open>The three loops of a pass, as folds over the standing the claim left.\<close>

lemma pass_folds:
  fixes claimed :: "'v delivery list"
  assumes out: "outstanding s (map delivery_id claimed)"
    and "distinct (landed outcome)" "distinct (refused outcome)" "distinct rest"
    and sets: "set (landed outcome) \<inter> set (refused outcome) = {}" "set (landed outcome) \<inter> set rest = {}"
      "set rest \<inter> set (refused outcome) = {}"
      "set (landed outcome) \<subseteq> {..<length claimed}" "set (refused outcome) \<subseteq> {..<length claimed}"
      "set rest \<subseteq> {..<length claimed}"
    and rest: "rest = filter (\<lambda>i. i \<notin> set (landed outcome) \<and> i \<notin> set (refused outcome)) [0..<length claimed]"
    and s2: "s2 = return_attempts J outcome (enumerate 0 claimed) (condemn_refused J claimed (refused outcome) s)"
    and s3: "ack_all J s2 (ids_at claimed (landed outcome)) = (s3, verdicts)"
  shows "good s3 \<and> verdicts = map (\<lambda>_. Inr ()) (landed outcome) \<and> good s2
    \<and> standing s3 = fold (\<lambda>d. put_standing d Acknowledged) (ids_at claimed (landed outcome)) (standing s2)
    \<and> standing s2 = fold (\<lambda>d. put_standing d (Waiting (attempt d - 1))) (ids_at claimed rest)
         (fold (\<lambda>d. put_standing d SetAside)
           (filter (\<lambda>d. max_delivery_attempts (journal_capacity J) \<le> attempt d) (ids_at claimed (refused outcome)))
           (standing s))"
proof -
  define s1 where "s1 = condemn_refused J claimed (refused outcome) s"
  define poison where "poison = filter (\<lambda>d. max_delivery_attempts (journal_capacity J) \<le> attempt d) (ids_at claimed (refused outcome))"
  have keys: "distinct (map claimed_key claimed)" using out by (simp add: outstanding_def comp_def)
  note disj = idx_keys_disjoint [OF keys]
  have A: "outstanding s (ids_at claimed (landed outcome))" by (rule outstanding_idx [OF out assms(2) sets(4)])
  have B: "outstanding s (ids_at claimed (refused outcome))" by (rule outstanding_idx [OF out assms(3) sets(5)])
  have C: "outstanding s (ids_at claimed rest)" by (rule outstanding_idx [OF out assms(4) sets(6)])
  have rest_ids: "map (\<lambda>x. delivery_id (snd x))
      (filter (\<lambda>(i, d). i \<notin> set (landed outcome) \<and> i \<notin> set (refused outcome)) (enumerate 0 claimed))
      = ids_at claimed rest"
    by (simp add: enumerate_idx rest filter_map comp_def)
  have P: "good s1 \<and> standing s1 = fold (\<lambda>d. put_standing d SetAside) poison (standing s)"
    unfolding s1_def poison_def by (rule condemn_refused_standing [OF B])
  have sub: "delivery_key ` set poison \<subseteq> delivery_key ` set (ids_at claimed (refused outcome))"
    by (auto simp: poison_def)
  have C1: "outstanding s1 (ids_at claimed rest)"
    by (rule outstanding_after [OF C conjunct1 [OF P] conjunct2 [OF P]]) (use sub disj [OF sets(3,6,5)] in blast)
  have A1: "outstanding s1 (ids_at claimed (landed outcome))"
    by (rule outstanding_after [OF A conjunct1 [OF P] conjunct2 [OF P]]) (use sub disj [OF sets(1,4,5)] in blast)
  have R: "good s2 \<and> standing s2 = fold (\<lambda>d. put_standing d (Waiting (attempt d - 1))) (ids_at claimed rest) (standing s1)"
    using return_attempts_standing [of s1 outcome "enumerate 0 claimed", unfolded rest_ids, OF C1]
    unfolding s2 s1_def .
  have "outstanding s2 (ids_at claimed (landed outcome))"
    by (rule outstanding_after [OF A1 conjunct1 [OF R] conjunct2 [OF R] disj [OF sets(2,4,6)]])
  from ack_all_standing [OF this s3] R P show ?thesis by (simp add: comp_def poison_def)
qed

lemma pass_settles:
  fixes claimed :: "'v delivery list"
  assumes out: "outstanding s (map delivery_id claimed)"
    and c: "\<forall>d\<in>set claimed. delivery_consumer (delivery_id d) = c"
    and part: "distinct (landed outcome @ refused outcome)"
      "set (landed outcome @ refused outcome) \<subseteq> {..<length claimed}"
    and s2: "s2 = return_attempts J outcome (enumerate 0 claimed) (condemn_refused J claimed (refused outcome) s)"
    and s3: "ack_all J s2 (ids_at claimed (landed outcome)) = (s3, verdicts)"
  shows "good s3 \<and> verdicts = map (\<lambda>_. Inr ()) (landed outcome)"
    and "i < length claimed \<Longrightarrow> standing s3 c (claimed_key (claimed ! i)) =
        Some (settled (max_delivery_attempts (journal_capacity J)) outcome i (attempt (delivery_id (claimed ! i))))"
    and "c' \<noteq> c \<or> k \<notin> claimed_key ` set claimed \<Longrightarrow> standing s3 c' k = standing s c' k"
proof -
  define rest where "rest = filter (\<lambda>i. i \<notin> set (landed outcome) \<and> i \<notin> set (refused outcome)) [0..<length claimed]"
  have sets: "distinct (landed outcome)" "distinct (refused outcome)" "distinct rest"
    "set (landed outcome) \<inter> set (refused outcome) = {}" "set (landed outcome) \<inter> set rest = {}"
    "set rest \<inter> set (refused outcome) = {}" "set (landed outcome) \<subseteq> {..<length claimed}"
    "set (refused outcome) \<subseteq> {..<length claimed}" "set rest \<subseteq> {..<length claimed}"
    using part by (auto simp: rest_def)
  have keys: "distinct (map claimed_key claimed)" using out by (simp add: outstanding_def comp_def)
  note F = pass_folds [OF out sets rest_def s2 s3]
  show "good s3 \<and> verdicts = map (\<lambda>_. Inr ()) (landed outcome)" using F by blast
  show "standing s3 c' k = standing s c' k" if "c' \<noteq> c \<or> k \<notin> claimed_key ` set claimed"
    using F fold_idx_outside [OF c sets(7) that subset_refl] fold_idx_outside [OF c sets(9) that subset_refl]
      fold_idx_outside [OF c sets(8) that filter_is_subset]
    by simp
  show "standing s3 c (claimed_key (claimed ! i)) =
        Some (settled (max_delivery_attempts (journal_capacity J)) outcome i (attempt (delivery_id (claimed ! i))))"
    if i: "i < length claimed"
  proof -
    have before: "standing s c (claimed_key (claimed ! i)) = Some (Waiting (attempt (delivery_id (claimed ! i))))"
      using out i c by (auto simp: outstanding_def)
    consider (landed) "i \<in> set (landed outcome)" | (refused) "i \<in> set (refused outcome)" "i \<notin> set (landed outcome)" "i \<notin> set rest"
      | (rest) "i \<in> set rest" "i \<notin> set (landed outcome)" "i \<notin> set (refused outcome)"
      using i by (auto simp: rest_def)
    then show ?thesis
    proof cases
      case landed
      with fold_idx_in [OF keys c sets(1,7) landed, of "\<lambda>_. True"] F show ?thesis by (simp add: settled_def)
    next
      case refused
      with F before fold_idx_other [OF keys sets(7) i refused(2) subset_refl]
        fold_idx_other [OF keys sets(9) i refused(3) subset_refl] fold_idx_filtered [OF keys c sets(2,8) refused(1)]
      show ?thesis by (simp add: settled_def)
    next
      case rest
      with F fold_idx_other [OF keys sets(7) i rest(2) subset_refl] fold_idx_in [OF keys c sets(3,9) rest(1), of "\<lambda>_. True"]
      show ?thesis by (simp add: settled_def)
    qed
  qed
qed

lemma claim_outstanding:
  assumes "good s" and "journal_claim J s c cl = (s1, Inr claimed)"
  shows "outstanding s1 (map delivery_id claimed)" and "\<forall>d\<in>set claimed. delivery_consumer (delivery_id d) = c"
  using claim_good [OF assms] claim_distinct [OF assms] claim_charges [OF assms]
  by (auto simp: outstanding_def comp_def)

lemma pump_settles:
  assumes good: "good s" and J: "worker_journal W = J" and c: "settings_consumer (worker_settings W) = c"
    and claim: "journal_claim J s c (pass_claim (worker_settings W) now) = (s1, Inr claimed)" and some: "claimed \<noteq> []"
  obtains s' w' report' w1 outcome where "deliver_durably (worker_sinks W) w claimed = Some (w1, outcome)"
    and "pump W now s w report = Some (s', w', report', Inr (length (landed outcome)))"
    and "good s'"
    and "\<forall>i<length claimed. standing s' c (claimed_key (claimed ! i)) =
        Some (settled (max_delivery_attempts (journal_capacity J)) outcome i (attempt (delivery_id (claimed ! i))))"
    and "\<forall>c' k. c' \<noteq> c \<or> k \<notin> claimed_key ` set claimed \<longrightarrow> standing s' c' k = standing s1 c' k"
proof -
  obtain w1 outcome where d: "deliver_durably (worker_sinks W) w claimed = Some (w1, outcome)"
    and part: "distinct (landed outcome @ refused outcome)"
      "set (landed outcome @ refused outcome) \<subseteq> {..<length claimed}"
    using delivered_partition [OF some] by metis
  define s2 where "s2 = return_attempts J outcome (enumerate 0 claimed) (condemn_refused J claimed (refused outcome) s1)"
  obtain s3 verdicts where s3: "ack_all J s2 (ids_at claimed (landed outcome)) = (s3, verdicts)" by fastforce
  note settles = pass_settles [OF claim_outstanding [OF good claim] part s2_def s3]
  have s2: "s2 = s1" if "\<not> length (landed outcome) < length claimed"
    using all_landed [OF part that] by (simp add: s2_def return_attempts_none enumerate_idx)
  define report1 where "report1 =
      (if length (landed outcome) < length claimed then report\<lparr>report_failed := report_failed report + 1\<rparr> else report)"
  have acked: "length (filter (\<lambda>(d, verdict). is_ok verdict) (zip (ids_at claimed (landed outcome)) verdicts))
      = length (landed outcome)"
    using settles(1) by (simp add: zip_map1 zip_map2 comp_def zip_same_conv_map filter_map)
  show ?thesis
  proof (rule that [OF d])
    show "pump W now s w report =
        Some (if landed outcome = [] then s2 else s3, tell_advisory W claimed (landed outcome) w1,
              if landed outcome = [] then report1
              else report1\<lparr>report_delivered := report_delivered report1 + length (landed outcome)\<rparr>,
              Inr (length (landed outcome)))"
      using s3 acked claim some d s2
      by (cases "landed outcome = []"; cases "length (landed outcome) < length claimed")
        (simp_all add: pump_def J c worker_deliver_def Let_def report1_def s2_def [symmetric])
  next
    have "s3 = s2" if "landed outcome = []" using s3 that by simp
    then have s': "(if landed outcome = [] then s2 else s3) = s3" by simp
    show "good (if landed outcome = [] then s2 else s3)" unfolding s' using settles(1) by blast
    show "\<forall>i<length claimed. standing (if landed outcome = [] then s2 else s3) c (claimed_key (claimed ! i)) =
        Some (settled (max_delivery_attempts (journal_capacity J)) outcome i (attempt (delivery_id (claimed ! i))))"
      unfolding s' using settles(2) by blast
    show "\<forall>c' k. c' \<noteq> c \<or> k \<notin> claimed_key ` set claimed \<longrightarrow>
        standing (if landed outcome = [] then s2 else s3) c' k = standing s1 c' k"
      unfolding s' using settles(3) by blast
  qed
qed

lemma outage_pass:
  assumes good: "good s" and J: "worker_journal W = J"
    and down: "\<forall>w batch. \<not> snd (write_batch (worker_sinks W) w batch)"
  shows "\<exists>s' w' report' r. pump W now s w report = Some (s', w', report', r) \<and> good s'
    \<and> spares (max_delivery_attempts (journal_capacity J)) (settings_consumer (worker_settings W)) (standing s) (standing s')"
proof -
  define c where "c = settings_consumer (worker_settings W)"
  let ?cl = "pass_claim (worker_settings W) now"
  obtain s1 r where claim: "journal_claim J s c ?cl = (s1, r)" by fastforce
  show ?thesis
  proof (cases r)
    case (Inl e)
    with claim claim_error [OF good] show ?thesis by (simp add: pump_def J c_def Let_def spares_def)
  next
    case (Inr claimed)
    note claim = claim [unfolded Inr]
    note others = claim_others [OF good claim]
    show ?thesis
    proof (cases "claimed = []")
      case True
      then have "spares (max_delivery_attempts (journal_capacity J)) c (standing s) (standing s1)"
        using others by (simp add: spares_def) blast
      with claim claim_good [OF good claim] True show ?thesis by (simp add: pump_def J c_def Let_def)
    next
      case False
      obtain w1 outcome s' w' report' where d: "deliver_durably (worker_sinks W) w claimed = Some (w1, outcome)"
        and pump: "pump W now s w report = Some (s', w', report', Inr (length (landed outcome)))"
        and "good s'"
        and settled: "\<forall>i<length claimed. standing s' c (claimed_key (claimed ! i)) =
          Some (settled (max_delivery_attempts (journal_capacity J)) outcome i (attempt (delivery_id (claimed ! i))))"
        and rest: "\<forall>c' k. c' \<noteq> c \<or> k \<notin> claimed_key ` set claimed \<longrightarrow> standing s' c' k = standing s1 c' k"
        by (rule pump_settles [OF good J c_def [symmetric] claim False])
      have none: "landed outcome = [] \<and> refused outcome = []"
        using delivered_down [OF False down, of w] d by auto
      have "standing s' c k = standing s c k" if k: "k \<in> claimed_key ` set claimed" for k
      proof -
        obtain i where "i < length claimed" "k = claimed_key (claimed ! i)" using k by (auto simp: in_set_conv_nth)
        with settled none claim_charges [OF good claim, of "claimed ! i"] show ?thesis by (simp add: settled_def)
      qed
      then have "spares (max_delivery_attempts (journal_capacity J)) c (standing s) (standing s')"
        unfolding spares_def using rest others by metis
      with pump \<open>good s'\<close> show ?thesis by (auto simp: c_def)
    qed
  qed
qed

lemma outage_passes:
  assumes "good s" and "worker_journal W = J"
    and "\<forall>w batch. \<not> snd (write_batch (worker_sinks W) w batch)"
  shows "\<exists>s' w' report'. pump_passes W nows s w report = Some (s', w', report') \<and> good s'
    \<and> spares (max_delivery_attempts (journal_capacity J)) (settings_consumer (worker_settings W)) (standing s) (standing s')"
  using assms
proof (induction nows arbitrary: s w report)
  case Nil
  then show ?case by (simp add: spares_def)
next
  case (Cons now nows)
  let ?spares = "spares (max_delivery_attempts (journal_capacity J)) (settings_consumer (worker_settings W))"
  obtain s' w' report' r where step: "pump W now s w report = Some (s', w', report', r)" "good s'"
    "?spares (standing s) (standing s')"
    using outage_pass [OF Cons.prems] by blast
  then obtain s'' w'' report'' where "pump_passes W nows s' w' report' = Some (s'', w'', report'')" "good s''"
    "?spares (standing s') (standing s'')"
    using Cons.IH [of s' w' report'] Cons.prems by blast
  with step spares_trans [OF step(3)] show ?case by simp
qed

end

section \<open>The oracle keeps the contract\<close>

definition oracle_journal :: "capacity \<Rightarrow> ('v storage, 'v) usage_journal" where
  "oracle_journal cap =
     \<lparr>journal_append = append cap, journal_claim = (\<lambda>s c cl. let (s', ds) = claim_events cap s c cl in (s', Inr ds)),
      journal_ack = ack, journal_quarantine = quarantine, journal_relinquish = relinquish,
      journal_stats_read = (\<lambda>s c now. Inr (journal_stats_of cap s c now)), journal_capacity = cap\<rparr>"

text \<open>Every stored event is an envelope built by \<open>UsageEvent::new\<close>: its key is its identity.\<close>

definition keyed_by_identity :: "'v storage \<Rightarrow> bool" where
  "keyed_by_identity s \<longleftrightarrow>
     (\<forall>e\<in>set (entries s). idempotency_key (entry_event e) = idempotency_key_from (event_id (entry_event e)))"

definition standing_of :: "'v storage \<Rightarrow> consumer_id \<Rightarrow> idempotency_key \<rightharpoonup> standing" where
  "standing_of s c k =
     (case positions s k of
        None \<Rightarrow> None
      | Some p \<Rightarrow>
          (let st = consumer_entry s c in
           Some (if p \<in> acked st then Acknowledged
                 else if quarantined st p \<noteq> None then SetAside
                 else Waiting (case attempts st p of Some n \<Rightarrow> n | None \<Rightarrow> 0))))"

lemma standing_of_cong:
  "positions s' k = positions s k \<Longrightarrow> consumer_entry s' c = consumer_entry s c \<Longrightarrow> standing_of s' c k = standing_of s c k"
  by (simp add: standing_of_def Let_def split: option.splits)

lemma claim_loop_frame:
  assumes "distinct (map position es)"
    and "claim_loop cap c cl es st busy claimed poisoned = (st', claimed', poisoned')"
  shows "set claimed \<subseteq> set claimed'
    \<and> (\<forall>p. attempts st' p \<noteq> attempts st p \<longrightarrow>
        (\<exists>e\<in>set es. position e = p \<and> entry_event e \<in> delivered_event ` set claimed'))
    \<and> (\<forall>p\<in>set poisoned'. p \<in> set poisoned \<or>
        p \<in> position ` set es \<and> max_delivery_attempts cap \<le> (case attempts st p of Some n \<Rightarrow> n | None \<Rightarrow> 0))"
  using assms
proof (induction es arbitrary: st busy claimed poisoned)
  case Nil
  then show ?case by simp
next
  case (Cons e es)
  let ?p = "position e"
  have distinct: "distinct (map position es)" and fresh: "?p \<notin> position ` set es" using Cons.prems(1) by auto
  note IH = Cons.IH [OF distinct] and loop = Cons.prems(2)
  let ?st1 = "st\<lparr>leases := (leases st)(?p := None)\<rparr>"
  let ?n = "(case attempts st ?p of Some k \<Rightarrow> k | None \<Rightarrow> 0) + 1"
  consider (resolved) "\<not> unresolved st ?p"
    | (live) "unresolved st ?p" "live st (claim_now cl) ?p"
    | (busy) "unresolved st ?p" "\<not> live st (claim_now cl) ?p" "key_of e \<in> busy"
    | (poison) "unresolved st ?p" "\<not> live st (claim_now cl) ?p" "key_of e \<notin> busy" "max_delivery_attempts cap < ?n"
    | (claim) "unresolved st ?p" "\<not> live st (claim_now cl) ?p" "key_of e \<notin> busy" "?n \<le> max_delivery_attempts cap"
    by linarith
  then show ?case
  proof cases
    case resolved
    with loop IH [of st busy claimed poisoned] show ?thesis by (auto simp: unresolved_def)
  next
    case live
    with loop IH [of st "insert (key_of e) busy" claimed poisoned] show ?thesis
      by (auto simp: unresolved_def live_def)
  next
    case busy
    then have "claim_loop cap c cl es ?st1 busy claimed poisoned = (st', claimed', poisoned')"
      using loop by (auto simp: unresolved_def live_def Let_def)
    from IH [OF this] show ?thesis by auto
  next
    case poison
    then have "claim_loop cap c cl es ?st1 busy claimed (poisoned @ [?p]) = (st', claimed', poisoned')"
      using loop by (auto simp: unresolved_def live_def Let_def)
    from IH [OF this] poison(4) show ?thesis by auto
  next
    case claim
    define n where "n = ?n"
    define st2 where "st2 = st\<lparr>attempts := (attempts st)(?p \<mapsto> n), leases := (leases st)(?p \<mapsto> claim_now cl + lease cl)\<rparr>"
    define d where "d = \<lparr>delivery_id = \<lparr>delivery_consumer = c, delivery_event = event_id (entry_event e), attempt = n\<rparr>,
        delivered_event = entry_event e, lease_expires_at = claim_now cl + lease cl\<rparr>"
    have "claim_loop cap c cl (e # es) st busy claimed poisoned =
        (if claim_max_events cl \<le> length (claimed @ [d]) then (st2, claimed @ [d], poisoned)
         else claim_loop cap c cl es st2 (insert (key_of e) busy) (claimed @ [d]) poisoned)"
      using claim by (simp add: unresolved_def live_def Let_def st2_def d_def n_def fun_upd_def [symmetric])
    note step = this [unfolded loop, symmetric]
    have att: "attempts st2 q = attempts st q" if "q \<noteq> ?p" for q using that by (simp add: st2_def)
    have d: "entry_event e = delivered_event d" by (simp add: d_def)
    show ?thesis
    proof (cases "claim_max_events cl \<le> length (claimed @ [d])")
      case True
      with step att d show ?thesis by auto
    next
      case False
      with step have "claim_loop cap c cl es st2 (insert (key_of e) busy) (claimed @ [d]) poisoned = (st', claimed', poisoned')"
        by simp
      note rest = IH [OF this]
      then have "\<exists>x\<in>set (e # es). position x = q \<and> entry_event x \<in> delivered_event ` set claimed'"
        if "attempts st' q \<noteq> attempts st q" for q
        using that att [of q] d by (cases "q = ?p") auto
      moreover have "q \<in> set poisoned \<or> q \<in> position ` set (e # es)
          \<and> max_delivery_attempts cap \<le> (case attempts st q of Some n \<Rightarrow> n | None \<Rightarrow> 0)" if "q \<in> set poisoned'" for q
        using rest that att [of q] fresh by (cases "q = ?p") auto
      ultimately show ?thesis using rest by auto
    qed
  qed
qed

lemma claim_frame:
  assumes ok: "storage_ok cap s" and claim: "claim_events cap s c cl = (s', ds)"
  shows "positions s' = positions s" and "entries s' = entries s"
    and "c' \<noteq> c \<Longrightarrow> consumer_entry s' c' = consumer_entry s c'"
    and "acked (consumer_entry s' c) = acked (consumer_entry s c)"
    and "attempts (consumer_entry s' c) p \<noteq> attempts (consumer_entry s c) p \<Longrightarrow>
        \<exists>e\<in>set (entries s). position e = p \<and> entry_event e \<in> delivered_event ` set ds"
    and "quarantined (consumer_entry s' c) p = quarantined (consumer_entry s c) p
        \<or> quarantined (consumer_entry s' c) p \<noteq> None \<and> unresolved (consumer_entry s c) p
          \<and> max_delivery_attempts cap \<le> (case attempts (consumer_entry s c) p of Some n \<Rightarrow> n | None \<Rightarrow> 0)"
proof -
  let ?st0 = "consumer_entry s c"
  obtain st ps where loop: "claim_loop cap c cl (entries s) ?st0 {} [] [] = (st, ds, ps)"
    and s': "s' = put_consumer s c (fold (\<lambda>p st. poison st p) ps st)"
    using claim by (auto simp: claim_events_def split: prod.splits)
  obtain ds' busy cs where inv: "loop_ok cap c cl (entries s) ?st0 ds' st busy cs ds ps"
    using claim_loop_ok [OF _ storage_okD(1) [OF ok] loop_start [OF state_ok_consumer [OF ok]] loop] by auto
  note I = loop_okD [OF inv] and F = claim_loop_frame [OF storage_okD(2) [OF ok] loop]
  show "positions s' = positions s" "entries s' = entries s" by (simp_all add: s')
  show "c' \<noteq> c \<Longrightarrow> consumer_entry s' c' = consumer_entry s c'" by (simp add: s')
  show "acked (consumer_entry s' c) = acked ?st0" using I(1) by (simp add: s' poison_fold)
  show "attempts (consumer_entry s' c) p \<noteq> attempts ?st0 p \<Longrightarrow>
        \<exists>e\<in>set (entries s). position e = p \<and> entry_event e \<in> delivered_event ` set ds"
    using F by (simp add: s' poison_fold)
  have "unresolved ?st0 p" if "p \<in> set ps" using I(1,2,4) that by (simp add: unresolved_def)
  with F I(2) show "quarantined (consumer_entry s' c) p = quarantined ?st0 p
        \<or> quarantined (consumer_entry s' c) p \<noteq> None \<and> unresolved ?st0 p
          \<and> max_delivery_attempts cap \<le> (case attempts ?st0 p of Some n \<Rightarrow> n | None \<Rightarrow> 0)"
    by (auto simp: s' poison_fold)
qed

lemma keyed_position:
  assumes "storage_ok cap s" and "keyed_by_identity s" and "e \<in> set (entries s)"
  shows "positions s (idempotency_key_from (event_id (entry_event e))) = Some (position e)"
    and "idempotency_key_from (event_id (entry_event e)) = idempotency_key (entry_event e)"
  using assms storage_okD(5) [OF assms(1)] by (auto simp: keyed_by_identity_def index_ok_def)

text \<open>What one delivered event says about the standing of its key before and after the claim.\<close>

lemma claim_delivery:
  assumes ok: "storage_ok cap s" and keyed: "keyed_by_identity s"
    and claim: "claim_events cap s c cl = (s', ds)" and e: "e \<in> set (entries s)"
    and deliv: "delivers c (consumer_entry s c) (consumer_entry s' c) e d"
    and before: "unresolved (consumer_entry s c) (position e)"
    and after: "unresolved (consumer_entry s' c) (position e)"
  shows "delivery_consumer (delivery_id d) = c \<and> 0 < attempt (delivery_id d)
    \<and> claimed_key d = idempotency_key (entry_event e) \<and> delivered_event d = entry_event e
    \<and> standing_of s c (claimed_key d) = Some (Waiting (attempt (delivery_id d) - 1))
    \<and> standing_of s' c (claimed_key d) = Some (Waiting (attempt (delivery_id d)))"
  using deliv before after keyed_position [OF ok keyed e] claim_frame(1) [OF ok claim]
  by (auto simp: delivers_def standing_of_def delivery_key_def unresolved_def Let_def)

abbreviation oracle_good :: "capacity \<Rightarrow> 'v storage \<Rightarrow> bool" where
  "oracle_good cap s \<equiv> storage_ok cap s \<and> keyed_by_identity s"

lemma oracle_claim:
  assumes good: "oracle_good cap s" and claim: "claim_events cap s c cl = (s', ds)"
  shows "oracle_good cap s'" and "distinct (map claimed_key ds)"
    and "d \<in> set ds \<Longrightarrow> delivery_consumer (delivery_id d) = c \<and> 0 < attempt (delivery_id d)
        \<and> attempt (delivery_id d) \<le> max_delivery_attempts cap
        \<and> standing_of s c (claimed_key d) = Some (Waiting (attempt (delivery_id d) - 1))
        \<and> standing_of s' c (claimed_key d) = Some (Waiting (attempt (delivery_id d)))"
    and "d \<in> set ds \<Longrightarrow> claimed_key d = idempotency_key (delivered_event d)"
proof -
  have ok: "storage_ok cap s" and keyed: "keyed_by_identity s" using good by auto
  obtain cs where ok': "storage_ok cap s'" and es: "entries s' = entries s" and cs: "set cs \<subseteq> set (entries s)"
    "sorted_wrt (<) (map position cs)" "list_all2 (delivers c (consumer_entry s c) (consumer_entry s' c)) cs ds"
    "\<forall>e\<in>set cs. unresolved (consumer_entry s c) (position e)
        \<and> first_unresolved (consumer_entry s' c) (entries s) (position e)"
    using claim_spec [OF ok claim] by blast
  show "oracle_good cap s'" using ok' keyed es by (simp add: keyed_by_identity_def)
  have deliv: "\<forall>e d. e \<in> set cs \<and> delivers c (consumer_entry s c) (consumer_entry s' c) e d \<longrightarrow>
      delivery_consumer (delivery_id d) = c \<and> 0 < attempt (delivery_id d)
      \<and> claimed_key d = idempotency_key (entry_event e) \<and> delivered_event d = entry_event e
      \<and> standing_of s c (claimed_key d) = Some (Waiting (attempt (delivery_id d) - 1))
      \<and> standing_of s' c (claimed_key d) = Some (Waiting (attempt (delivery_id d)))"
    by (intro allI impI, elim conjE, rule claim_delivery [OF ok keyed claim])
      (use cs(1,4) in \<open>auto simp: first_unresolved_def\<close>)
  have within: "attempt (delivery_id d) \<le> max_delivery_attempts cap"
    if "delivers c (consumer_entry s c) (consumer_entry s' c) e d" for e d
    using state_ok_consumer [OF ok', of c] that by (auto simp: delivers_def state_ok_def)
  show "delivery_consumer (delivery_id d) = c \<and> 0 < attempt (delivery_id d)
        \<and> attempt (delivery_id d) \<le> max_delivery_attempts cap
        \<and> standing_of s c (claimed_key d) = Some (Waiting (attempt (delivery_id d) - 1))
        \<and> standing_of s' c (claimed_key d) = Some (Waiting (attempt (delivery_id d)))"
    and "claimed_key d = idempotency_key (delivered_event d)" if "d \<in> set ds"
    using list_all2_right [OF cs(3) that] deliv within by metis+
  have "list_all2 (\<lambda>e d. claimed_key d = idempotency_key (entry_event e)) cs ds"
    using cs(3) by (rule list.rel_mono_strong) (use deliv in blast)
  then have "map claimed_key ds = map (\<lambda>e. idempotency_key (entry_event e)) cs"
    by (auto simp: list_all2_conv_all_nth list_eq_iff_nth_eq)
  moreover have "distinct (map position cs)" using cs(2) strict_sorted_iff by blast
  then have "distinct (map (\<lambda>e. idempotency_key (entry_event e)) cs)"
    using inj_on_subset [OF stored_keys_inj [OF ok] cs(1)] by (simp add: distinct_map)
  ultimately show "distinct (map claimed_key ds)" by simp
qed

lemma oracle_claim_others:
  assumes good: "oracle_good cap s" and claim: "claim_events cap s c cl = (s', ds)"
    and k: "c' \<noteq> c \<or> k \<notin> claimed_key ` set ds"
  shows "standing_of s' c' k = standing_of s c' k
    \<or> c' = c \<and> standing_of s' c k = Some SetAside
      \<and> (\<exists>n. standing_of s c k = Some (Waiting n) \<and> max_delivery_attempts cap \<le> n)"
proof (cases "positions s k")
  case None
  moreover have "positions s' = positions s" by (rule claim_frame(1) [OF _ claim]) (use good in simp)
  ultimately show ?thesis by (simp add: standing_of_def)
next
  case (Some p)
  have ok: "storage_ok cap s" using good by simp
  note frame = claim_frame [OF ok claim]
  show ?thesis
  proof (cases "c' = c")
    case False
    with frame(1,3) show ?thesis by (intro disjI1 standing_of_cong) simp_all
  next
    case True
    have "attempts (consumer_entry s' c) p = attempts (consumer_entry s c) p"
    proof (rule ccontr)
      assume "\<not> ?thesis"
      then obtain e d where e: "e \<in> set (entries s)" "position e = p" "d \<in> set ds" "entry_event e = delivered_event d"
        using frame(5) by blast
      obtain e' where "e' \<in> set (entries s)" "position e' = p" "idempotency_key (entry_event e') = k"
        using Some storage_okD(5) [OF ok] by (auto simp: index_ok_def)
      moreover from this e have "e' = e" by (intro inj_onD [OF storage_okD(3) [OF ok]]) auto
      ultimately have "claimed_key d = k" using oracle_claim(4) [OF good claim e(3)] e(4) by simp
      with k True e(3) show False by blast
    qed
    then have after: "standing_of s' c k = Some (if p \<in> acked (consumer_entry s c) then Acknowledged
        else if quarantined (consumer_entry s' c) p \<noteq> None then SetAside
        else Waiting (case attempts (consumer_entry s c) p of Some n \<Rightarrow> n | None \<Rightarrow> 0))"
      using Some frame(1,4) by (simp add: standing_of_def Let_def)
    have before: "standing_of s c k = Some (if p \<in> acked (consumer_entry s c) then Acknowledged
        else if quarantined (consumer_entry s c) p \<noteq> None then SetAside
        else Waiting (case attempts (consumer_entry s c) p of Some n \<Rightarrow> n | None \<Rightarrow> 0))"
      using Some by (simp add: standing_of_def Let_def)
    from frame(6) [of p] show ?thesis
    proof
      assume "quarantined (consumer_entry s' c) p = quarantined (consumer_entry s c) p"
      with after before True show ?thesis by simp
    next
      assume "quarantined (consumer_entry s' c) p \<noteq> None \<and> unresolved (consumer_entry s c) p
          \<and> max_delivery_attempts cap \<le> (case attempts (consumer_entry s c) p of Some n \<Rightarrow> n | None \<Rightarrow> 0)"
      with after before True show ?thesis by (auto simp: unresolved_def)
    qed
  qed
qed

lemma position_inj:
  assumes "oracle_good cap s" and "positions s k = Some p" and "positions s k' = Some p"
  shows "k = k'"
proof -
  have ok: "storage_ok cap s" using assms(1) by simp
  obtain e e' where "e \<in> set (entries s)" "idempotency_key (entry_event e) = k" "position e = p"
    "e' \<in> set (entries s)" "idempotency_key (entry_event e') = k'" "position e' = p"
    using assms(2,3) storage_okD(5) [OF ok] by (auto simp: index_ok_def)
  with inj_onD [OF storage_okD(3) [OF ok], of e e'] show ?thesis by simp
qed

lemma standing_put_consumer:
  assumes "oracle_good cap s" and "positions s (delivery_key d) = Some p"
    and "st = consumer_entry s (delivery_consumer d)"
    and "acked st' - {p} = acked st - {p}" and "(quarantined st')(p := None) = (quarantined st)(p := None)"
    and "(attempts st')(p := None) = (attempts st)(p := None)"
    and "standing_of (put_consumer s (delivery_consumer d) st') (delivery_consumer d) (delivery_key d) = Some x"
  shows "standing_of (put_consumer s (delivery_consumer d) st') = put_standing d x (standing_of s)"
proof (intro ext)
  fix c k
  let ?s = "put_consumer s (delivery_consumer d) st'"
  show "standing_of ?s c k = put_standing d x (standing_of s) c k"
  proof (cases "c = delivery_consumer d")
    case False
    then have "standing_of ?s c k = standing_of s c k" by (intro standing_of_cong) simp_all
    with False show ?thesis by (simp add: put_standing_def)
  next
    case c: True
    show ?thesis
    proof (cases "k = delivery_key d")
      case True
      with assms(7) c show ?thesis by (simp add: put_standing_def)
    next
      case False
      have "q \<noteq> p" if "positions s k = Some q" for q
        using that False assms(2) position_inj [OF assms(1), of k _ "delivery_key d"] by blast
      moreover have "q \<in> acked st' \<longleftrightarrow> q \<in> acked st" "quarantined st' q = quarantined st q" "attempts st' q = attempts st q"
        if "q \<noteq> p" for q
        using assms(4) fun_cong [OF assms(5), of q] fun_cong [OF assms(6), of q] that by auto
      ultimately show ?thesis
        using c False assms(3) by (auto simp: standing_of_def put_standing_def Let_def split: option.splits)
    qed
  qed
qed

lemma standing_Waiting:
  assumes "standing_of s c k = Some (Waiting n)" and "0 < n"
  obtains p st where "positions s k = Some p" and "map_of (consumers s) c = Some st" and "consumer_entry s c = st"
    and "p \<notin> acked st" and "quarantined st p = None" and "attempts st p = Some n"
proof -
  obtain p where p: "positions s k = Some p" using assms(1) by (auto simp: standing_of_def split: option.splits)
  then have st: "p \<notin> acked (consumer_entry s c)" "quarantined (consumer_entry s c) p = None"
    "attempts (consumer_entry s c) p = Some n"
    using assms by (auto simp: standing_of_def Let_def split: if_splits option.splits)
  then have "map_of (consumers s) c = Some (consumer_entry s c)"
    by (auto simp: consumer_entry_def consumer_default_def split: option.splits)
  with p st show ?thesis by (intro that) auto
qed

lemma oracle_good_put:
  "oracle_good cap s \<Longrightarrow> storage_ok cap (put_consumer s c st) \<Longrightarrow> oracle_good cap (put_consumer s c st)"
  by (simp add: keyed_by_identity_def)

lemma oracle_ack:
  assumes good: "oracle_good cap s" and w: "standing_of s (delivery_consumer d) (delivery_key d) = Some (Waiting n)" "0 < n"
    and ack: "ack s d = (s', r)"
  shows "oracle_good cap s' \<and> r = Inr () \<and> standing_of s' = put_standing d Acknowledged (standing_of s)"
proof -
  obtain p st where st: "positions s (delivery_key d) = Some p" "map_of (consumers s) (delivery_consumer d) = Some st"
    "consumer_entry s (delivery_consumer d) = st" "p \<notin> acked st" "quarantined st p = None" "attempts st p = Some n"
    using w by (rule standing_Waiting)
  let ?st = "st\<lparr>acked := insert p (acked st), leases := (leases st)(p := None)\<rparr>"
  have s': "s' = put_consumer s (delivery_consumer d) ?st" "r = Inr ()"
    using ack st by (auto simp: ack_def delivery_key_def)
  have "storage_ok cap s'" by (rule storage_ok_ack [OF _ ack]) (use good in simp)
  then have "oracle_good cap s'" using good unfolding s' by (rule oracle_good_put [rotated])
  moreover have "standing_of s' = put_standing d Acknowledged (standing_of s)"
    unfolding s' by (rule standing_put_consumer [OF good st(1) st(3) [symmetric]]) (auto simp: standing_of_def st)
  ultimately show ?thesis using s' by simp
qed

lemma oracle_quarantine:
  assumes good: "oracle_good cap s" and w: "standing_of s (delivery_consumer d) (delivery_key d) = Some (Waiting n)" "0 < n"
    and q: "quarantine s d reason = (s', r)"
  shows "oracle_good cap s' \<and> r = Inr () \<and> standing_of s' = put_standing d SetAside (standing_of s)"
proof -
  obtain p st where st: "positions s (delivery_key d) = Some p" "map_of (consumers s) (delivery_consumer d) = Some st"
    "consumer_entry s (delivery_consumer d) = st" "p \<notin> acked st" "quarantined st p = None" "attempts st p = Some n"
    using w by (rule standing_Waiting)
  let ?st = "st\<lparr>quarantined := (quarantined st)(p \<mapsto> reason), leases := (leases st)(p := None)\<rparr>"
  have s': "s' = put_consumer s (delivery_consumer d) ?st" "r = Inr ()"
    using q st by (auto simp: quarantine_def delivery_key_def)
  have "storage_ok cap s'" by (rule storage_ok_quarantine [OF _ q]) (use good in simp)
  then have "oracle_good cap s'" using good unfolding s' by (rule oracle_good_put [rotated])
  moreover have "standing_of s' = put_standing d SetAside (standing_of s)"
    unfolding s' by (rule standing_put_consumer [OF good st(1) st(3) [symmetric]]) (auto simp: standing_of_def st)
  ultimately show ?thesis using s' by simp
qed

lemma oracle_relinquish:
  assumes good: "oracle_good cap s" and w: "standing_of s (delivery_consumer d) (delivery_key d) = Some (Waiting n)" "0 < n"
    and n: "n = attempt d" and q: "relinquish s d = (s', r)"
  shows "oracle_good cap s' \<and> r = Inr () \<and> standing_of s' = put_standing d (Waiting (n - 1)) (standing_of s)"
proof -
  obtain p st where st: "positions s (delivery_key d) = Some p" "map_of (consumers s) (delivery_consumer d) = Some st"
    "consumer_entry s (delivery_consumer d) = st" "p \<notin> acked st" "quarantined st p = None" "attempts st p = Some n"
    using w by (rule standing_Waiting)
  let ?st = "st\<lparr>attempts := (attempts st)(p \<mapsto> n - 1)\<rparr>"
  have s': "s' = put_consumer s (delivery_consumer d) ?st" "r = Inr ()"
    using q st n by (auto simp: relinquish_def delivery_key_def)
  have "storage_ok cap s'" by (rule storage_ok_relinquish [OF _ q]) (use good in simp)
  then have "oracle_good cap s'" using good unfolding s' by (rule oracle_good_put [rotated])
  moreover have "standing_of s' = put_standing d (Waiting (n - 1)) (standing_of s)"
    unfolding s' by (rule standing_put_consumer [OF good st(1) st(3) [symmetric]]) (auto simp: standing_of_def st)
  ultimately show ?thesis using s' by simp
qed

lemma oracle_journal_sel:
  "journal_claim (oracle_journal cap) s c cl = (s', r) \<longleftrightarrow> (\<exists>ds. claim_events cap s c cl = (s', ds) \<and> r = Inr ds)"
  "journal_ack (oracle_journal cap) = ack" "journal_quarantine (oracle_journal cap) = quarantine"
  "journal_relinquish (oracle_journal cap) = relinquish" "journal_capacity (oracle_journal cap) = cap"
  by (auto simp: oracle_journal_def split: prod.splits)

interpretation in_memory: journal_contract "oracle_journal cap" "oracle_good cap" standing_of for cap
proof (unfold_locales, goal_cases)
  case (1 s c cl s' ds)
  then show ?case using oracle_claim(1) unfolding oracle_journal_sel by blast
next
  case (2 s c cl s' e)
  then show ?case by (auto simp: oracle_journal_sel)
next
  case (3 s c cl s' ds)
  then show ?case using oracle_claim(2) unfolding oracle_journal_sel by blast
next
  case (4 s c cl s' ds d)
  then show ?case using oracle_claim(3) unfolding oracle_journal_sel by blast
next
  case (5 s c cl s' ds c' k)
  then show ?case using oracle_claim_others unfolding oracle_journal_sel by blast
next
  case (6 s d n s' r)
  then show ?case unfolding oracle_journal_sel by (intro oracle_ack)
next
  case (7 s d n reason s' r)
  then show ?case unfolding oracle_journal_sel by (intro oracle_quarantine)
next
  case (8 s d n s' r)
  then show ?case unfolding oracle_journal_sel by (intro oracle_relinquish)
qed

section \<open>Properties\<close>

text \<open>
  A drain says \<open>caught up\<close> only when the worker handed its own report back and the closing read
  of the journal found nothing pending or in flight; an abandoned or overrun worker never does.
\<close>

lemma drain_report_is_honest:
  assumes "counted report = False" and "task = TaskReturned (run_report report closing) \<or> task = TaskPanicked \<or> task = TaskOverran"
  shows "caught_up (handle_drain task late) = Some True \<longleftrightarrow>
      task = TaskReturned (run_report report closing) \<and> (\<exists>stats. closing = Some stats \<and> is_drained stats)"
    and "caught_up handle_abandon = None"
  using assms
  by (auto simp: caught_up_def run_report_def handle_unreported_def report_observe_def report_default_def
      handle_abandon_def Let_def split: option.splits)

text \<open>
  C4. One pass of the worker over the in-memory journal settles every event it claimed: an event
  that landed is acknowledged; an event refused on its own account keeps the attempt it was
  charged, or is set aside once its attempts are used up; every other claimed event gets its
  attempt back.  No other event and no other consumer is touched after the claim, and the pass
  reports exactly the number of events that landed.
\<close>

theorem worker_settles_every_claim:
  "journal_run cap s \<and> keyed_by_identity s \<and> worker_journal W = oracle_journal cap
     \<and> settings_consumer (worker_settings W) = c
     \<and> claim_events cap s c (pass_claim (worker_settings W) now) = (s1, claimed) \<and> claimed \<noteq> [] \<longrightarrow>
     (\<exists>s' w' report' w1 outcome. deliver_durably (worker_sinks W) w claimed = Some (w1, outcome)
        \<and> pump W now s w report = Some (s', w', report', Inr (length (landed outcome)))
        \<and> (\<forall>i<length claimed. standing_of s' c (claimed_key (claimed ! i)) =
             Some (settled (max_delivery_attempts cap) outcome i (attempt (delivery_id (claimed ! i)))))
        \<and> (\<forall>c' k. c' \<noteq> c \<or> k \<notin> claimed_key ` set claimed \<longrightarrow> standing_of s' c' k = standing_of s1 c' k))"
proof (intro impI, elim conjE)
  assume run: "journal_run cap s" "keyed_by_identity s" and J: "worker_journal W = oracle_journal cap"
    and c: "settings_consumer (worker_settings W) = c"
    and claim: "claim_events cap s c (pass_claim (worker_settings W) now) = (s1, claimed)" and some: "claimed \<noteq> []"
  have good: "oracle_good cap s" using run journal_run_ok by blast
  have "journal_claim (oracle_journal cap) s c (pass_claim (worker_settings W) now) = (s1, Inr claimed)"
    using claim by (simp add: oracle_journal_sel)
  from in_memory.pump_settles [OF good J c this some, unfolded oracle_journal_sel, of w report]
  show "\<exists>s' w' report' w1 outcome. deliver_durably (worker_sinks W) w claimed = Some (w1, outcome)
        \<and> pump W now s w report = Some (s', w', report', Inr (length (landed outcome)))
        \<and> (\<forall>i<length claimed. standing_of s' c (claimed_key (claimed ! i)) =
             Some (settled (max_delivery_attempts cap) outcome i (attempt (delivery_id (claimed ! i)))))
        \<and> (\<forall>c' k. c' \<noteq> c \<or> k \<notin> claimed_key ` set claimed \<longrightarrow> standing_of s' c' k = standing_of s1 c' k)"
    by metis
qed

text \<open>
  C9. However long a destination stays down, it condemns no one: after any number of passes, at
  whatever instants, against destinations that accept nothing, every event stands with every
  consumer exactly where it stood, its attempts unspent.  The one exception is not the outage's
  doing: an event of this consumer whose attempts were all spent before is set aside.
\<close>

theorem outage_condemns_no_one:
  "journal_run cap s \<and> keyed_by_identity s \<and> worker_journal W = oracle_journal cap
     \<and> (\<forall>w batch. \<not> snd (write_batch (worker_sinks W) w batch)) \<longrightarrow>
     (\<exists>s' w' report'. pump_passes W nows s w report = Some (s', w', report')
        \<and> (\<forall>c k. standing_of s' c k = standing_of s c k
             \<or> c = settings_consumer (worker_settings W) \<and> standing_of s' c k = Some SetAside
               \<and> (\<exists>n. standing_of s c k = Some (Waiting n) \<and> max_delivery_attempts cap \<le> n)))"
proof (intro impI, elim conjE)
  assume run: "journal_run cap s" "keyed_by_identity s" and J: "worker_journal W = oracle_journal cap"
    and down: "\<forall>w batch. \<not> snd (write_batch (worker_sinks W) w batch)"
  have good: "oracle_good cap s" using run journal_run_ok by blast
  from in_memory.outage_passes [OF good J down, unfolded oracle_journal_sel spares_def]
  show "\<exists>s' w' report'. pump_passes W nows s w report = Some (s', w', report')
        \<and> (\<forall>c k. standing_of s' c k = standing_of s c k
             \<or> c = settings_consumer (worker_settings W) \<and> standing_of s' c k = Some SetAside
               \<and> (\<exists>n. standing_of s c k = Some (Waiting n) \<and> max_delivery_attempts cap \<le> n))"
    by blast
qed

section \<open>Examples\<close>

definition sample_worker :: "(nat, unit) sink \<Rightarrow> (unit storage, nat, unit) delivery_worker" where
  "sample_worker sink = worker_new (oracle_journal BILLING_GRADE) [sink] settings_default"

lemma sample_worker_sel [simp]:
  "worker_journal (sample_worker sink) = oracle_journal BILLING_GRADE" "worker_sinks (sample_worker sink) = [sink]"
  "worker_settings (sample_worker sink) = settings_default" "settings_consumer settings_default = ''billing''"
  by (simp_all add: sample_worker_def worker_new_def settings_default_def)

lemma one_stored_keyed: "keyed_by_identity one_stored"
  by (simp add: keyed_by_identity_def one_stored_def push_entry_def storage_default_def)

definition billing_delivery :: "unit delivery" where
  "billing_delivery =
     \<lparr>delivery_id = \<lparr>delivery_consumer = ''billing'', delivery_event = [1], attempt = 1\<rparr>,
      delivered_event = sample_event [1] ''alice'' 5, lease_expires_at = 6 + from_secs 30\<rparr>"

lemma claim_one_stored:
  "\<exists>s1. claim_events BILLING_GRADE one_stored ''billing'' (pass_claim settings_default 6) = (s1, [billing_delivery])"
  by (simp add: claim_events_def one_stored_def push_entry_def storage_default_def consumer_entry_def
      consumer_default_def pass_claim_def settings_default_def BILLING_GRADE_def billing_delivery_def Let_def)

lemma deliver_billing: "deliver_durably [picky] 0 [billing_delivery] = Some (1, \<lparr>landed = [0], refused = []\<rparr>)"
  by (simp add: deliver_durably_def worker_write_def picky_def healthy_def event_observed_def billing_delivery_def
      sample_record_def)

theorem worker_settles_every_claim_witness:
  "\<exists>s' w' report'. pump (sample_worker picky) 6 one_stored 0 report_default = Some (s', w', report', Inr 1)
     \<and> standing_of s' ''billing'' (claimed_key billing_delivery) = Some Acknowledged"
proof -
  obtain s1 where "claim_events BILLING_GRADE one_stored ''billing'' (pass_claim settings_default 6) = (s1, [billing_delivery])"
    using claim_one_stored by blast
  with worker_settles_every_claim [of BILLING_GRADE one_stored "sample_worker picky" "''billing''" 6 s1 "[billing_delivery]" 0 report_default]
  show ?thesis using run_one_stored one_stored_keyed by (auto simp: deliver_billing settled_def)
qed

theorem outage_condemns_no_one_witness:
  "\<exists>s' w' report'. pump_passes (sample_worker (down ''unreachable'')) [6, 60, 600] one_stored 0 report_default = Some (s', w', report')
     \<and> standing_of s' ''billing'' (idempotency_key_from [1]) = Some (Waiting 0)"
proof -
  have first: "standing_of one_stored ''billing'' (idempotency_key_from [1]) = Some (Waiting 0)"
    by (simp add: standing_of_def one_stored_def push_entry_def storage_default_def consumer_entry_def consumer_default_def)
  have "\<forall>w batch. \<not> snd (write_batch [down ''unreachable'' :: (nat, unit) sink] w batch)" by (simp add: down_def)
  then have "journal_run BILLING_GRADE one_stored \<and> keyed_by_identity one_stored
      \<and> worker_journal (sample_worker (down ''unreachable'')) = oracle_journal BILLING_GRADE
      \<and> (\<forall>w batch. \<not> snd (write_batch (worker_sinks (sample_worker (down ''unreachable''))) w batch))"
    using run_one_stored one_stored_keyed by simp
  from outage_condemns_no_one [THEN mp, OF this, of "[6, 60, 600]" 0 report_default]
  obtain s' w' report' where passes:
    "pump_passes (sample_worker (down ''unreachable'')) [6, 60, 600] one_stored 0 report_default = Some (s', w', report')"
    and stands: "standing_of s' c k = standing_of one_stored c k
      \<or> (\<exists>n. standing_of one_stored c k = Some (Waiting n) \<and> max_delivery_attempts BILLING_GRADE \<le> n)" for c k
    by blast
  have "standing_of s' ''billing'' (idempotency_key_from [1]) = Some (Waiting 0)"
    using stands [of "''billing''" "idempotency_key_from [1]"] first by (auto simp: BILLING_GRADE_def)
  with passes show ?thesis by blast
qed

end
