(* ===== verification/Canonical.thy ===== *)
theory Canonical
  imports Uuid "HOL-Library.List_Lexorder" "HOL-Library.Product_Lexorder" "HOL-Library.Multiset"
begin

text \<open>
  The canonical serializer of desired state, its strict decoder and the text form of a checksum,
  \<open>crates/gateway/src/desired_state/canonical.rs\<close>.  A \<open>Vec<u8>\<close> is a list of bytes under its
  lexicographic order; an \<open>i128\<close> is a 128-bit word; a length is below \<open>2 ^ 64\<close>.  \<open>write\<close>
  only ever appends to its buffer, so it is modelled by the bytes it appends, the partial output
  of a failing write included.  The digest itself (\<open>ring\<close>) is not modelled.
\<close>

section \<open>Bytes and characters\<close>

definition as_bytes :: "string \<Rightarrow> u8 list" where
  "as_bytes s = map (\<lambda>c. of_nat (byte c)) s"

definition bytes_as_str :: "u8 list \<Rightarrow> string" where
  "bytes_as_str bs = map (\<lambda>b. char_of (unat b)) bs"

text \<open>\<open>str::chars\<close>: the code points of a valid string.\<close>

fun str_chars :: "string \<Rightarrow> nat list" where
  "str_chars [] = []"
| "str_chars (a # s) =
     (if byte a < 0x80 then byte a # str_chars s
      else if byte a < 0xE0
      then (case s of b # s' \<Rightarrow> ((byte a - 0xC0) * 64 + (byte b - 0x80)) # str_chars s' | _ \<Rightarrow> [])
      else if byte a < 0xF0
      then (case s of
              b # c # s' \<Rightarrow> ((byte a - 0xE0) * 4096 + (byte b - 0x80) * 64 + (byte c - 0x80)) # str_chars s'
            | _ \<Rightarrow> [])
      else (case s of
              b # c # d # s' \<Rightarrow>
                ((byte a - 0xF0) * 262144 + (byte b - 0x80) * 4096 + (byte c - 0x80) * 64 + (byte d - 0x80)) # str_chars s'
            | _ \<Rightarrow> []))"

text \<open>\<open>char::is_control\<close>: the general category \<open>Cc\<close>.\<close>

definition is_control :: "nat \<Rightarrow> bool" where
  "is_control c \<longleftrightarrow> c < 0x20 \<or> 0x7F \<le> c \<and> c \<le> 0x9F"

section \<open>Values and errors\<close>

datatype canonical_value =
    CBool bool
  | CInteger u128
  | CString string
  | CBytes "u8 list"
  | CList "canonical_value list"
  | CSet "canonical_value list"
  | CMap "(string \<times> canonical_value) list"

datatype canonical_error =
    ControlCharacter nat
  | ByteOrderMark
  | DuplicateKey string
  | DuplicateSetMember
  | FloatingPoint
  | NullValue

section \<open>Writing\<close>

fun check_chars :: "nat list \<Rightarrow> canonical_error option" where
  "check_chars [] = None"
| "check_chars (c # cs) =
     (if c = 0xFEFF then Some ByteOrderMark
      else if is_control c then Some (ControlCharacter c)
      else check_chars cs)"

definition check_string :: "string \<Rightarrow> (canonical_error, u8 list) result" where
  "check_string value =
     (case check_chars (str_chars value) of Some e \<Rightarrow> Inl e | None \<Rightarrow> Inr (as_bytes value))"

definition write_len :: "nat \<Rightarrow> u8 list" where
  "write_len len = be_bytes 8 len"

type_synonym written = "u8 list \<times> (canonical_error, unit) result"

definition write_string :: "string \<Rightarrow> written" where
  "write_string value =
     (case check_string value of
        Inl e \<Rightarrow> ([3], Inl e)
      | Inr bytes \<Rightarrow> (3 # write_len (length bytes) @ bytes, Inr ()))"

fun write_items :: "written list \<Rightarrow> written" where
  "write_items [] = ([], Inr ())"
| "write_items ((bytes, r) # rest) =
     (case r of
        Inl e \<Rightarrow> (bytes, Inl e)
      | Inr _ \<Rightarrow> (let (bytes', r') = write_items rest in (bytes @ bytes', r')))"

fun collect_written :: "written list \<Rightarrow> (canonical_error, u8 list list) result" where
  "collect_written [] = Inr []"
| "collect_written ((bytes, r) # rest) =
     (case r of
        Inl e \<Rightarrow> Inl e
      | Inr _ \<Rightarrow> (case collect_written rest of Inl e \<Rightarrow> Inl e | Inr bss \<Rightarrow> Inr (bytes # bss)))"

fun collect_fields :: "(string \<times> written) list \<Rightarrow> (canonical_error, (string \<times> u8 list) list) result" where
  "collect_fields [] = Inr []"
| "collect_fields ((key, bytes, r) # rest) =
     (case write_string key of
        (_, Inl e) \<Rightarrow> Inl e
      | (key_bytes, Inr _) \<Rightarrow>
          (case r of
             Inl e \<Rightarrow> Inl e
           | Inr _ \<Rightarrow>
               (case collect_fields rest of
                  Inl e \<Rightarrow> Inl e
                | Inr fs \<Rightarrow> Inr ((key, key_bytes @ bytes) # fs))))"

text \<open>\<open>windows(2).find(|pair| pair[0] == pair[1])\<close>.\<close>

fun adjacent_equal :: "'a list \<Rightarrow> 'a option" where
  "adjacent_equal (x # y # xs) = (if x = y then Some x else adjacent_equal (y # xs))"
| "adjacent_equal _ = None"

definition write_list :: "written list \<Rightarrow> written" where
  "write_list items = (let (bytes, r) = write_items items in (5 # write_len (length items) @ bytes, r))"

definition write_set :: "written list \<Rightarrow> written" where
  "write_set members =
     (case collect_written members of
        Inl e \<Rightarrow> ([6], Inl e)
      | Inr bss \<Rightarrow>
          (let encoded = sort bss in
           if adjacent_equal encoded \<noteq> None then ([6], Inl DuplicateSetMember)
           else (6 # write_len (length encoded) @ concat encoded, Inr ())))"

definition key_order :: "string \<times> 'a \<Rightarrow> nat \<times> u8 list" where
  "key_order f = (length (fst f), as_bytes (fst f))"

definition write_map :: "(string \<times> written) list \<Rightarrow> written" where
  "write_map fields =
     (case collect_fields fields of
        Inl e \<Rightarrow> ([7], Inl e)
      | Inr fs \<Rightarrow>
          (let encoded = sort_key key_order fs in
           case adjacent_equal (map fst encoded) of
             Some key \<Rightarrow> ([7], Inl (DuplicateKey key))
           | None \<Rightarrow> (7 # write_len (length encoded) @ concat (map snd encoded), Inr ())))"

primrec cwrite :: "canonical_value \<Rightarrow> written" where
  "cwrite (CBool b) = ([1, if b then 1 else 0], Inr ())"
| "cwrite (CInteger i) = (2 # be_bytes 16 (unat i), Inr ())"
| "cwrite (CString s) = write_string s"
| "cwrite (CBytes bytes) = (4 # write_len (length bytes) @ bytes, Inr ())"
| "cwrite (CList items) = write_list (map cwrite items)"
| "cwrite (CSet members) = write_set (map cwrite members)"
| "cwrite (CMap fields) = write_map (map (map_prod id cwrite) fields)"

text \<open>The constructors that sort: \<open>CanonicalValue::map\<close> and \<open>CanonicalValue::set\<close>.\<close>

definition canonical_map :: "(string \<times> canonical_value) list \<Rightarrow> canonical_value" where
  "canonical_map fields = CMap (sort_key key_order fields)"

definition canonical_set :: "canonical_value list \<Rightarrow> canonical_value" where
  "canonical_set members = CSet (sort_key (\<lambda>m. fst (cwrite m)) members)"

definition MAGIC :: "u8 list" where
  "MAGIC = as_bytes ''axond.desired-state'' @ [0]"

definition version_tag :: u8 where "version_tag = 1"

definition encode :: "canonical_value \<Rightarrow> (canonical_error, u8 list) result" where
  "encode value =
     (case cwrite value of (_, Inl e) \<Rightarrow> Inl e | (bytes, Inr _) \<Rightarrow> Inr (MAGIC @ [version_tag] @ bytes))"

section \<open>Reading back\<close>

datatype canonical_decode_error =
    Magic
  | Truncated
  | TrailingBytes nat
  | Serializer u8
  | UnknownTag u8
  | Length u64 nat
  | TooDeep nat
  | Utf8
  | MapKey
  | NonCanonical

definition MAX_DEPTH :: nat where "MAX_DEPTH = 32"

type_synonym 'a read = "(canonical_decode_error, 'a \<times> u8 list) result"

definition cursor_take :: "nat \<Rightarrow> u8 list \<Rightarrow> u8 list read" where
  "cursor_take cnt rest =
     (if length rest < cnt then Inl Truncated else Inr (take cnt rest, drop cnt rest))"

definition cursor_byte :: "u8 list \<Rightarrow> u8 read" where
  "cursor_byte rest = (case cursor_take 1 rest of Inl e \<Rightarrow> Inl e | Inr (bs, rest') \<Rightarrow> Inr (bs ! 0, rest'))"

definition cursor_length :: "u8 list \<Rightarrow> nat read" where
  "cursor_length rest =
     (case cursor_take 8 rest of
        Inl e \<Rightarrow> Inl e
      | Inr (bs, rest') \<Rightarrow>
          (let len = be_value bs in
           if len \<le> length rest' then Inr (len, rest') else Inl (Length (of_nat len) (length rest'))))"

definition cursor_string :: "u8 list \<Rightarrow> string read" where
  "cursor_string rest =
     (case cursor_length rest of
        Inl e \<Rightarrow> Inl e
      | Inr (len, rest') \<Rightarrow>
          (case cursor_take len rest' of
             Inl e \<Rightarrow> Inl e
           | Inr (bs, rest'') \<Rightarrow>
               if utf8_valid (bytes_as_str bs) then Inr (bytes_as_str bs, rest'') else Inl Utf8))"

text \<open>
  \<open>Cursor::value\<close> at a nesting depth, and the two iterations over \<open>0..count\<close>.  \<open>nested\<close> is the
  test on the depth; the recursion ends because the depth is bounded.
\<close>

function (sequential) cursor_value :: "nat \<Rightarrow> u8 list \<Rightarrow> canonical_value read"
  and cursor_values :: "nat \<Rightarrow> nat \<Rightarrow> u8 list \<Rightarrow> canonical_value list read"
  and cursor_fields :: "nat \<Rightarrow> nat \<Rightarrow> u8 list \<Rightarrow> (string \<times> canonical_value) list read" where
  "cursor_value depth rest =
     (case cursor_byte rest of
        Inl e \<Rightarrow> Inl e
      | Inr (tag, rest) \<Rightarrow>
          if tag = 1 then
            (case cursor_byte rest of Inl e \<Rightarrow> Inl e | Inr (b, rest) \<Rightarrow> Inr (CBool (b \<noteq> 0), rest))
          else if tag = 2 then
            (case cursor_take 16 rest of Inl e \<Rightarrow> Inl e | Inr (bs, rest) \<Rightarrow> Inr (CInteger (of_nat (be_value bs)), rest))
          else if tag = 3 then
            (case cursor_string rest of Inl e \<Rightarrow> Inl e | Inr (s, rest) \<Rightarrow> Inr (CString s, rest))
          else if tag = 4 then
            (case cursor_length rest of
               Inl e \<Rightarrow> Inl e
             | Inr (len, rest) \<Rightarrow>
                 (case cursor_take len rest of Inl e \<Rightarrow> Inl e | Inr (bs, rest) \<Rightarrow> Inr (CBytes bs, rest)))
          else if tag = 5 \<or> tag = 6 then
            (case cursor_length rest of
               Inl e \<Rightarrow> Inl e
             | Inr (cnt, rest) \<Rightarrow>
                 if MAX_DEPTH \<le> depth then Inl (TooDeep MAX_DEPTH)
                 else (case cursor_values (Suc depth) cnt rest of
                         Inl e \<Rightarrow> Inl e
                       | Inr (members, rest) \<Rightarrow> Inr (if tag = 5 then CList members else CSet members, rest)))
          else if tag = 7 then
            (case cursor_length rest of
               Inl e \<Rightarrow> Inl e
             | Inr (cnt, rest) \<Rightarrow>
                 if MAX_DEPTH \<le> depth then Inl (TooDeep MAX_DEPTH)
                 else (case cursor_fields (Suc depth) cnt rest of
                         Inl e \<Rightarrow> Inl e
                       | Inr (fields, rest) \<Rightarrow> Inr (CMap fields, rest)))
          else Inl (UnknownTag tag))"
| "cursor_values depth 0 rest = Inr ([], rest)"
| "cursor_values depth (Suc n) rest =
     (case cursor_value depth rest of
        Inl e \<Rightarrow> Inl e
      | Inr (v, rest) \<Rightarrow>
          (case cursor_values depth n rest of Inl e \<Rightarrow> Inl e | Inr (vs, rest) \<Rightarrow> Inr (v # vs, rest)))"
| "cursor_fields depth 0 rest = Inr ([], rest)"
| "cursor_fields depth (Suc n) rest =
     (case cursor_byte rest of
        Inl e \<Rightarrow> Inl e
      | Inr (tag, rest) \<Rightarrow>
          if tag \<noteq> 3 then Inl MapKey
          else (case cursor_string rest of
                  Inl e \<Rightarrow> Inl e
                | Inr (key, rest) \<Rightarrow>
                    (case cursor_value depth rest of
                       Inl e \<Rightarrow> Inl e
                     | Inr (v, rest) \<Rightarrow>
                         (case cursor_fields depth n rest of
                            Inl e \<Rightarrow> Inl e
                          | Inr (fs, rest) \<Rightarrow> Inr ((key, v) # fs, rest)))))"
  by pat_completeness auto

termination
  by (relation "measures
       [case_sum (\<lambda>(d, _). Suc MAX_DEPTH - d) (case_sum (\<lambda>(d, _, _). Suc MAX_DEPTH - d) (\<lambda>(d, _, _). Suc MAX_DEPTH - d)),
        case_sum (\<lambda>_. 0) (case_sum (\<lambda>(_, n, _). Suc n) (\<lambda>(_, n, _). Suc n))]")
    auto

definition decode :: "u8 list \<Rightarrow> (canonical_decode_error, canonical_value) result" where
  "decode bytes =
     (if take (length MAGIC) bytes \<noteq> MAGIC then Inl Magic
      else case drop (length MAGIC) bytes of
             [] \<Rightarrow> Inl Truncated
           | tag # rest \<Rightarrow>
               if tag \<noteq> version_tag then Inl (Serializer tag)
               else (case cursor_value 0 rest of
                       Inl e \<Rightarrow> Inl e
                     | Inr (value, rest') \<Rightarrow>
                         if rest' \<noteq> [] then Inl (TrailingBytes (length rest'))
                         else if encode value \<noteq> Inr bytes then Inl NonCanonical
                         else Inr value))"

section \<open>Normal forms\<close>

text \<open>
  The value a decoder returns: sets in the order of their encodings and records in the order of
  their keys.  \<open>rust_value\<close> is what the type of the sources guarantees (strings are UTF-8,
  lengths fit \<open>u64\<close>); \<open>nesting\<close> counts the levels of collections.
\<close>

abbreviation enc :: "canonical_value \<Rightarrow> u8 list" where
  "enc v \<equiv> fst (cwrite v)"

primrec normal :: "canonical_value \<Rightarrow> canonical_value" where
  "normal (CBool b) = CBool b"
| "normal (CInteger i) = CInteger i"
| "normal (CString s) = CString s"
| "normal (CBytes bytes) = CBytes bytes"
| "normal (CList items) = CList (map normal items)"
| "normal (CSet members) = CSet (sort_key enc (map normal members))"
| "normal (CMap fields) = CMap (sort_key key_order (map (map_prod id normal) fields))"

definition rust_string :: "string \<Rightarrow> bool" where
  "rust_string s \<longleftrightarrow> utf8_valid s \<and> length s < 2 ^ 64"

primrec rust_value :: "canonical_value \<Rightarrow> bool" where
  "rust_value (CBool b) = True"
| "rust_value (CInteger i) = True"
| "rust_value (CString s) = rust_string s"
| "rust_value (CBytes bytes) = (length bytes < 2 ^ 64)"
| "rust_value (CList items) = (length items < 2 ^ 64 \<and> list_all (\<lambda>b. b) (map rust_value items))"
| "rust_value (CSet members) = (length members < 2 ^ 64 \<and> list_all (\<lambda>b. b) (map rust_value members))"
| "rust_value (CMap fields) =
     (length fields < 2 ^ 64 \<and> list_all (\<lambda>(k, b). rust_string k \<and> b) (map (map_prod id rust_value) fields))"

primrec nesting :: "canonical_value \<Rightarrow> nat" where
  "nesting (CBool b) = 0"
| "nesting (CInteger i) = 0"
| "nesting (CString s) = 0"
| "nesting (CBytes bytes) = 0"
| "nesting (CList items) = Suc (foldr max (map nesting items) 0)"
| "nesting (CSet members) = Suc (foldr max (map nesting members) 0)"
| "nesting (CMap fields) = Suc (foldr max (map snd (map (map_prod id nesting) fields)) 0)"

section \<open>Sorting by a key\<close>

lemma insort_key_map: "insort_key k (g x) (map g xs) = map g (insort_key (\<lambda>x. k (g x)) x xs)"
  by (induction xs) simp_all

lemma sort_key_map: "sort_key k (map g xs) = map g (sort_key (\<lambda>x. k (g x)) xs)"
  by (induction xs) (simp_all add: insort_key_map)

lemma insort_key_cong: "\<forall>y\<in>insert x (set xs). f y = g y \<Longrightarrow> insort_key f x xs = insort_key g x xs"
  by (induction xs) auto

lemma sort_key_cong: "(\<And>y. y \<in> set xs \<Longrightarrow> f y = g y) \<Longrightarrow> sort_key f xs = sort_key g xs"
  by (induction xs) (simp_all add: insort_key_cong)

lemma sort_key_idem [simp]: "sort_key k (sort_key k xs) = sort_key k xs"
  by (simp add: sort_key_id_if_sorted)

lemma le_foldr_max: "x \<in> set xs \<Longrightarrow> x \<le> foldr max xs (n :: nat)"
  by (induction xs) auto

section \<open>What was written\<close>

definition all_ok :: "written list \<Rightarrow> bool" where
  "all_ok ws \<longleftrightarrow> (\<forall>w\<in>set ws. snd w = Inr ())"

lemma all_ok_simps [simp]: "all_ok []" "all_ok ((bytes, r) # ws) \<longleftrightarrow> r = Inr () \<and> all_ok ws"
  by (simp_all add: all_ok_def)

lemma write_items_iff:
  "write_items ws = (bytes, Inr ()) \<longleftrightarrow> all_ok ws \<and> bytes = concat (map fst ws)"
proof (induction ws arbitrary: bytes)
  case (Cons w ws)
  obtain bs r where w: "w = (bs, r)" by fastforce
  obtain bs' r' where ws: "write_items ws = (bs', r')" by fastforce
  show ?case using Cons.IH [of bs'] Cons.IH [of "concat (map fst ws)"] by (cases r) (auto simp: w ws)
qed auto

lemma collect_written_iff:
  "collect_written ws = Inr bss \<longleftrightarrow> all_ok ws \<and> bss = map fst ws"
proof (induction ws arbitrary: bss)
  case (Cons w ws)
  obtain bs r where w: "w = (bs, r)" by fastforce
  show ?case
  proof (cases "collect_written ws")
    case (Inl e)
    then have "\<not> all_ok ws" using Cons.IH by force
    with Inl show ?thesis by (cases r) (auto simp: w)
  next
    case (Inr x)
    with Cons.IH [of x] show ?thesis by (cases r) (auto simp: w)
  qed
qed auto

definition fields_ok :: "(string \<times> written) list \<Rightarrow> bool" where
  "fields_ok fs \<longleftrightarrow> (\<forall>f\<in>set fs. snd (write_string (fst f)) = Inr () \<and> snd (snd f) = Inr ())"

definition field_bytes :: "string \<times> written \<Rightarrow> string \<times> u8 list" where
  "field_bytes f = (fst f, fst (write_string (fst f)) @ fst (snd f))"

lemma fields_ok_simps [simp]:
  "fields_ok []"
  "fields_ok ((k, bytes, r) # fs) \<longleftrightarrow> snd (write_string k) = Inr () \<and> r = Inr () \<and> fields_ok fs"
  by (auto simp: fields_ok_def)

lemma collect_fields_iff:
  "collect_fields fs = Inr gs \<longleftrightarrow> fields_ok fs \<and> gs = map field_bytes fs"
proof (induction fs arbitrary: gs)
  case (Cons f fs)
  obtain k bs r where f: "f = (k, bs, r)" by (metis prod_cases3)
  obtain kb kr where k: "write_string k = (kb, kr)" by fastforce
  show ?case
  proof (cases "collect_fields fs")
    case (Inl e)
    then have "\<not> fields_ok fs" using Cons.IH by force
    with Inl show ?thesis by (cases r; cases kr) (auto simp: f k)
  next
    case (Inr x)
    with Cons.IH [of x] show ?thesis by (cases r; cases kr) (auto simp: f k field_bytes_def)
  qed
qed auto

text \<open>The three collections, as the conditions under which they are written and what is written.\<close>

lemma write_list_iff:
  "write_list ws = (bytes, Inr ()) \<longleftrightarrow> all_ok ws \<and> bytes = 5 # write_len (length ws) @ concat (map fst ws)"
  using write_items_iff [of ws] by (cases "write_items ws") (auto simp: write_list_def)

lemma write_set_iff:
  "write_set ws = (bytes, Inr ()) \<longleftrightarrow>
     all_ok ws \<and> adjacent_equal (sort (map fst ws)) = None
     \<and> bytes = 6 # write_len (length ws) @ concat (sort (map fst ws))"
proof (cases "collect_written ws")
  case (Inl e)
  then have "\<not> all_ok ws" using collect_written_iff [of ws] by auto
  with Inl show ?thesis by (auto simp: write_set_def)
next
  case (Inr bss)
  then have "all_ok ws" "bss = map fst ws" using collect_written_iff [of ws] by auto
  with Inr show ?thesis by (auto simp: write_set_def Let_def)
qed

lemma write_map_iff:
  "write_map fs = (bytes, Inr ()) \<longleftrightarrow>
     fields_ok fs \<and> adjacent_equal (map fst (sort_key key_order fs)) = None
     \<and> bytes = 7 # write_len (length fs) @ concat (map (snd \<circ> field_bytes) (sort_key key_order fs))"
proof (cases "collect_fields fs")
  case (Inl e)
  then have "\<not> fields_ok fs" using collect_fields_iff [of fs] by auto
  with Inl show ?thesis by (auto simp: write_map_def)
next
  case (Inr gs)
  then have gs: "fields_ok fs" "gs = map field_bytes fs" using collect_fields_iff [of fs] by auto
  have "(\<lambda>f. key_order (field_bytes f)) = key_order" by (auto simp: key_order_def field_bytes_def)
  then have "sort_key key_order gs = map field_bytes (sort_key key_order fs)" by (simp add: gs(2) sort_key_map)
  moreover have "fst \<circ> field_bytes = fst" by (auto simp: field_bytes_def)
  ultimately show ?thesis using Inr gs(1) by (auto simp: write_map_def Let_def comp_def split: option.splits)
qed

section \<open>The normal form has the same bytes\<close>

lemma map_fst_sort: "map fst (sort_key fst ws) = sort (map fst ws)"
  by (simp add: sort_key_map)

lemma write_set_sorted:
  assumes "snd (write_set ws) = Inr ()"
  shows "write_set (sort_key fst ws) = write_set ws"
proof -
  obtain bytes where "write_set ws = (bytes, Inr ())" using assms by (cases "write_set ws") auto
  then show ?thesis using write_set_iff [of ws bytes] write_set_iff [of "sort_key fst ws" bytes]
    by (simp add: map_fst_sort all_ok_def)
qed

lemma write_map_sorted:
  assumes "snd (write_map fs) = Inr ()"
  shows "write_map (sort_key key_order fs) = write_map fs"
proof -
  obtain bytes where "write_map fs = (bytes, Inr ())" using assms by (cases "write_map fs") auto
  then show ?thesis using write_map_iff [of fs bytes] write_map_iff [of "sort_key key_order fs" bytes]
    by (simp add: fields_ok_def)
qed

lemma snd_ok: "snd w = Inr () \<longleftrightarrow> w = (fst w, Inr ())"
  by (metis prod.collapse snd_conv)

lemma members_ok:
  "snd (cwrite (CList xs)) = Inr () \<Longrightarrow> x \<in> set xs \<Longrightarrow> snd (cwrite x) = Inr ()"
  "snd (cwrite (CSet xs)) = Inr () \<Longrightarrow> x \<in> set xs \<Longrightarrow> snd (cwrite x) = Inr ()"
  "snd (cwrite (CMap fs)) = Inr () \<Longrightarrow> (k, x) \<in> set fs \<Longrightarrow> snd (cwrite x) = Inr () \<and> snd (write_string k) = Inr ()"
  unfolding snd_ok [of "cwrite (CList xs)"] snd_ok [of "cwrite (CSet xs)"] snd_ok [of "cwrite (CMap fs)"]
  by (auto simp: write_list_iff write_set_iff write_map_iff all_ok_def fields_ok_def)

lemma normal_writes: "snd (cwrite v) = Inr () \<Longrightarrow> cwrite (normal v) = cwrite v"
proof (induction v)
  case (CList xs)
  then have "map cwrite (map normal xs) = map cwrite xs" using members_ok(1) by auto
  then show ?case by (simp only: normal.simps cwrite.simps)
next
  case (CSet xs)
  then have *: "map cwrite (map normal xs) = map cwrite xs" using members_ok(2) by auto
  have "map cwrite (sort_key enc (map normal xs)) = sort_key fst (map cwrite (map normal xs))"
    by (simp only: sort_key_map)
  then have "cwrite (normal (CSet xs)) = write_set (sort_key fst (map cwrite xs))"
    by (simp only: normal.simps cwrite.simps *)
  also have "\<dots> = cwrite (CSet xs)" using write_set_sorted CSet.prems by simp
  finally show ?case .
next
  case (CMap fs)
  have "cwrite (normal x) = cwrite x" if "(k, x) \<in> set fs" for k x
    using CMap.IH [OF that, of x] members_ok(3) [OF CMap.prems that] by simp
  then have *: "map (map_prod id cwrite) (map (map_prod id normal) fs) = map (map_prod id cwrite) fs" by auto
  have "(\<lambda>f. key_order (map_prod id cwrite f)) = key_order" by (auto simp: key_order_def)
  then have "map (map_prod id cwrite) (sort_key key_order gs) = sort_key key_order (map (map_prod id cwrite) gs)" for gs
    by (simp only: sort_key_map)
  then have "cwrite (normal (CMap fs)) = write_map (sort_key key_order (map (map_prod id cwrite) fs))"
    by (simp only: normal.simps cwrite.simps *)
  also have "\<dots> = cwrite (CMap fs)" using write_map_sorted CMap.prems by simp
  finally show ?case .
qed simp_all

section \<open>Reading what was written\<close>

declare cursor_value.simps [simp del]

lemma byte_less: "byte c < 256"
  by (simp add: byte_def)

lemma bytes_as_str_as_bytes [simp]: "bytes_as_str (as_bytes s) = s"
  using byte_less by (simp add: bytes_as_str_def as_bytes_def comp_def unat_of_nat byte_def map_idI)

lemma length_as_bytes [simp]: "length (as_bytes s) = length s"
  by (simp add: as_bytes_def)

lemma cursor_take_append [simp]: "length bs = n \<Longrightarrow> cursor_take n (bs @ rest) = Inr (bs, rest)"
  by (auto simp: cursor_take_def)

lemma cursor_byte_Cons [simp]: "cursor_byte (b # rest) = Inr (b, rest)"
  using cursor_take_append [of "[b]" 1 rest] by (simp add: cursor_byte_def)

lemma cursor_length_write [simp]:
  "n < 2 ^ 64 \<Longrightarrow> n \<le> length rest \<Longrightarrow> cursor_length (write_len n @ rest) = Inr (n, rest)"
  by (simp add: cursor_length_def write_len_def be_value_be_bytes)

lemma write_string_ok: "snd (write_string s) = Inr () \<Longrightarrow> fst (write_string s) = 3 # write_len (length s) @ as_bytes s"
  by (auto simp: write_string_def check_string_def split: option.splits)

lemma cursor_string_write [simp]:
  "rust_string s \<Longrightarrow> cursor_string (write_len (length s) @ as_bytes s @ rest) = Inr (s, rest)"
  by (simp add: cursor_string_def rust_string_def)

lemma enc_nonempty: "snd (cwrite v) = Inr () \<Longrightarrow> 0 < length (enc v)"
  by (cases v) (auto simp: write_string_def write_list_def write_set_def write_map_def Let_def
      split: sum.splits prod.splits option.splits)

lemma length_concat_le: "\<forall>x\<in>set xs. 0 < length (f x) \<Longrightarrow> length xs \<le> length (concat (map f xs))"
proof (induction xs)
  case (Cons x xs)
  then have "1 \<le> length (f x)" "length xs \<le> length (concat (map f xs))" by (auto simp: Suc_le_eq)
  then have "1 + length xs \<le> length (f x) + length (concat (map f xs))" by (rule add_mono)
  then show ?case by simp
qed simp

lemma cursor_values_write:
  "\<forall>x\<in>set xs. \<forall>rest. cursor_value d (enc x @ rest) = Inr (normal x, rest) \<Longrightarrow>
     cursor_values d (length xs) (concat (map enc xs) @ rest) = Inr (map normal xs, rest)"
  by (induction xs) simp_all

lemma cursor_fields_write:
  "\<forall>(k, x)\<in>set fs. rust_string k \<and> snd (write_string k) = Inr ()
       \<and> (\<forall>rest. cursor_value d (enc x @ rest) = Inr (normal x, rest)) \<Longrightarrow>
     cursor_fields d (length fs) (concat (map (\<lambda>(k, x). fst (write_string k) @ enc x) fs) @ rest)
       = Inr (map (map_prod id normal) fs, rest)"
  by (induction fs) (auto simp: write_string_ok)

text \<open>The three collection tags, once their members are known to read back.\<close>

lemma cursor_value_members:
  assumes "tag = 5 \<or> tag = 6" and "length xs < 2 ^ 64" and "d < MAX_DEPTH"
    and "\<forall>x\<in>set xs. snd (cwrite x) = Inr ()"
    and "\<forall>x\<in>set xs. \<forall>rest. cursor_value (Suc d) (enc x @ rest) = Inr (normal x, rest)"
  shows "cursor_value d (tag # write_len (length xs) @ concat (map enc xs) @ rest)
    = Inr (if tag = 5 then CList (map normal xs) else CSet (map normal xs), rest)"
proof -
  have "length xs \<le> length (concat (map enc xs) @ rest)"
    using length_concat_le [of xs enc] assms(4) enc_nonempty by simp
  with assms(1-3) cursor_values_write [OF assms(5), of rest] show ?thesis
    by (subst cursor_value.simps) auto
qed

lemma cursor_value_fields:
  assumes "length fs < 2 ^ 64" and "d < MAX_DEPTH"
    and "\<forall>(k, x)\<in>set fs. rust_string k \<and> snd (write_string k) = Inr ()
       \<and> (\<forall>rest. cursor_value (Suc d) (enc x @ rest) = Inr (normal x, rest))"
  shows "cursor_value d (7 # write_len (length fs) @ concat (map (\<lambda>(k, x). fst (write_string k) @ enc x) fs) @ rest)
    = Inr (CMap (map (map_prod id normal) fs), rest)"
proof -
  have "\<forall>f\<in>set fs. 0 < length ((\<lambda>(k, x). fst (write_string k) @ enc x) f)"
    using assms(3) write_string_ok by fastforce
  then have "length fs \<le> length (concat (map (\<lambda>(k, x). fst (write_string k) @ enc x) fs) @ rest)"
    by (metis length_concat_le length_append trans_le_add1)
  with assms(1,2) cursor_fields_write [OF assms(3), of rest] show ?thesis
    by (subst cursor_value.simps) auto
qed

lemma normal_set: 
  assumes "\<forall>x\<in>set xs. snd (cwrite x) = Inr ()"
  shows "sort_key enc (map normal xs) = map normal (sort_key enc xs)"
proof -
  have "sort_key (\<lambda>x. enc (normal x)) xs = sort_key enc xs"
    by (rule sort_key_cong) (use assms normal_writes in simp)
  then show ?thesis by (simp add: sort_key_map)
qed

lemma sort_enc: "sort (map enc xs) = map enc (sort_key enc xs)"
  by (simp add: sort_key_map)

lemma cursor_value_write:
  "snd (cwrite v) = Inr () \<Longrightarrow> rust_value v \<Longrightarrow> d + nesting v \<le> MAX_DEPTH \<Longrightarrow>
     cursor_value d (enc v @ rest) = Inr (normal v, rest)"
proof (induction v arbitrary: d rest)
  case (CList xs)
  have ok: "\<forall>x\<in>set xs. snd (cwrite x) = Inr ()" using members_ok(1) [OF CList.prems(1)] by blast
  have deep: "Suc d + nesting x \<le> MAX_DEPTH" if "x \<in> set xs" for x
    using CList.prems(3) le_foldr_max [of "nesting x" "map nesting xs" 0] that by simp
  have read: "\<forall>x\<in>set xs. \<forall>rest. cursor_value (Suc d) (enc x @ rest) = Inr (normal x, rest)"
    using CList.IH ok deep CList.prems(2) by (simp add: list_all_iff)
  have "enc (CList xs) = 5 # write_len (length xs) @ concat (map enc xs)"
    using CList.prems(1) write_list_iff [of "map cwrite xs"] by (simp add: snd_ok [of "write_list _"] comp_def)
  then show ?case using cursor_value_members [of 5 xs d, OF _ _ _ ok read] CList.prems(2,3) by simp
next
  case (CSet xs)
  have ok: "\<forall>x\<in>set xs. snd (cwrite x) = Inr ()" using members_ok(2) [OF CSet.prems(1)] by blast
  have deep: "Suc d + nesting x \<le> MAX_DEPTH" if "x \<in> set xs" for x
    using CSet.prems(3) le_foldr_max [of "nesting x" "map nesting xs" 0] that by simp
  have read: "\<forall>x\<in>set xs. \<forall>rest. cursor_value (Suc d) (enc x @ rest) = Inr (normal x, rest)"
    using CSet.IH ok deep CSet.prems(2) by (simp add: list_all_iff)
  have "enc (CSet xs) = 6 # write_len (length xs) @ concat (map enc (sort_key enc xs))"
    using CSet.prems(1) write_set_iff [of "map cwrite xs"] by (simp add: snd_ok [of "write_set _"] comp_def sort_enc)
  then show ?case
    using cursor_value_members [of 6 "sort_key enc xs" d rest] ok read CSet.prems(2,3) by (simp add: normal_set)
next
  case (CMap fs)
  have ok: "snd (cwrite x) = Inr () \<and> snd (write_string k) = Inr ()" if "(k, x) \<in> set fs" for k x
    using members_ok(3) [OF CMap.prems(1) that] .
  have deep: "Suc d + nesting x \<le> MAX_DEPTH" if "(k, x) \<in> set fs" for k x
    using CMap.prems(3) le_foldr_max [of "nesting x" "map snd (map (map_prod id nesting) fs)" 0] that by force
  have read: "\<forall>(k, x)\<in>set fs. rust_string k \<and> snd (write_string k) = Inr ()
       \<and> (\<forall>rest. cursor_value (Suc d) (enc x @ rest) = Inr (normal x, rest))"
    using CMap.IH ok deep CMap.prems(2) by (fastforce simp: list_all_iff)
  have "(\<lambda>f. key_order (map_prod id cwrite f)) = key_order" by (auto simp: key_order_def)
  then have "sort_key key_order (map (map_prod id cwrite) fs) = map (map_prod id cwrite) (sort_key key_order fs)"
    by (simp add: sort_key_map)
  then have "enc (CMap fs) = 7 # write_len (length fs)
      @ concat (map (\<lambda>(k, x). fst (write_string k) @ enc x) (sort_key key_order fs))"
    using CMap.prems(1) write_map_iff [of "map (map_prod id cwrite) fs"]
    by (simp add: snd_ok [of "write_map _"] comp_def field_bytes_def case_prod_unfold)
  moreover have "(\<lambda>f. key_order (map_prod id normal f)) = key_order" by (auto simp: key_order_def)
  then have "normal (CMap fs) = CMap (map (map_prod id normal) (sort_key key_order fs))"
    by (simp add: sort_key_map)
  ultimately show ?case
    using cursor_value_fields [of "sort_key key_order fs" d rest] read CMap.prems(2,3) by simp
next
  case (CString s)
  then show ?case by (subst cursor_value.simps) (simp add: write_string_ok)
next
  case (CInteger i)
  have "be_value (be_bytes 16 (unat i)) = unat i"
    using unsigned_less [of i, where 'a = nat] by (simp add: be_value_be_bytes)
  then show ?case by (subst cursor_value.simps) simp
qed (subst cursor_value.simps, simp)+

section \<open>Checksums in text\<close>

definition CHECKSUM_ALGORITHM :: string where "CHECKSUM_ALGORITHM = ''sha256''"

type_synonym checksum = "u8 list"

datatype invalid_checksum = Algorithm string | Digits string

text \<open>The loop over the digits; every pair was checked, so the \<open>expect\<close> calls hold.\<close>

fun checksum_bytes :: "string \<Rightarrow> u8 list" where
  "checksum_bytes (high # low # rest) =
     (case (nibble high, nibble low) of
        (Some h, Some l) \<Rightarrow> (push_bit 4 h OR l) # checksum_bytes rest
      | _ \<Rightarrow> [])"
| "checksum_bytes _ = []"

definition checksum_parse :: "string \<Rightarrow> (invalid_checksum, checksum) result" where
  "checksum_parse text =
     (case Option.bind (strip_prefix text CHECKSUM_ALGORITHM) (\<lambda>rest. strip_prefix rest '':'') of
        None \<Rightarrow> Inl (Algorithm text)
      | Some digits \<Rightarrow>
          if length digits \<noteq> 64 \<or> \<not> list_all (\<lambda>d. nibble d \<noteq> None) digits then Inl (Digits text)
          else Inr (checksum_bytes digits))"

definition checksum_display :: "checksum \<Rightarrow> string" where
  "checksum_display bytes = CHECKSUM_ALGORITHM @ '':'' @ concat (map hex_byte bytes)"

lemma checksum_bytes_hexs: "checksum_bytes (hexs bs) = bs"
proof (induction bs)
  case (Cons b bs)
  have "unat b div 16 < 16" using unat_u8_less [of b] by (simp add: less_mult_imp_div_less)
  with Cons show ?case by (simp add: hex_byte_def nibble_hex_digit nibbles_of_byte)
qed simp

lemma hexs_checksum_bytes:
  "list_all (\<lambda>d. nibble d \<noteq> None) ds \<Longrightarrow> even (length ds) \<Longrightarrow>
     hexs (checksum_bytes ds) = ds \<and> 2 * length (checksum_bytes ds) = length ds"
  by (induction ds rule: checksum_bytes.induct) (auto simp: hex_byte_nibbles)

lemma hexs_nibbles: "list_all (\<lambda>d. nibble d \<noteq> None) (hexs bs)"
proof (induction bs)
  case (Cons b bs)
  have "unat b div 16 < 16" using unat_u8_less [of b] by (simp add: less_mult_imp_div_less)
  with Cons show ?case by (simp add: hex_byte_def nibble_hex_digit)
qed simp

text \<open>Parsing accepts exactly the displayed texts of 32-byte checksums and returns the checksum.\<close>

lemma checksum_text_is_canonical:
  "checksum_parse text = Inr c \<longleftrightarrow> length c = 32 \<and> text = checksum_display c"
proof
  assume "checksum_parse text = Inr c"
  then obtain ds where ds: "text = CHECKSUM_ALGORITHM @ '':'' @ ds" "length ds = 64"
    "list_all (\<lambda>d. nibble d \<noteq> None) ds" "c = checksum_bytes ds"
    by (auto simp: checksum_parse_def strip_prefix_Some Option.bind_eq_Some_conv split: option.splits if_splits)
  with hexs_checksum_bytes [of ds] show "length c = 32 \<and> text = checksum_display c"
    by (simp add: checksum_display_def hexs_def)
next
  assume c: "length c = 32 \<and> text = checksum_display c"
  then have "Option.bind (strip_prefix text CHECKSUM_ALGORITHM) (\<lambda>rest. strip_prefix rest '':'') = Some (hexs c)"
    by (simp add: checksum_display_def hexs_def strip_prefix_def starts_with_def)
  with c show "checksum_parse text = Inr c"
    using hexs_nibbles [of c] by (auto simp: checksum_parse_def checksum_bytes_hexs)
qed

section \<open>Order of members and fields\<close>

lemma adjacent_sorted_distinct:
  "sorted (map h ks) \<Longrightarrow> inj h \<Longrightarrow> adjacent_equal ks = None \<Longrightarrow> distinct (map h ks)"
proof (induction ks rule: adjacent_equal.induct)
  case (1 x y ks)
  then have "x \<noteq> y" and "adjacent_equal (y # ks) = None" by (auto split: if_splits)
  with 1 have rest: "distinct (map h (y # ks))" by simp
  have "h x \<noteq> h y" using 1(3) \<open>x \<noteq> y\<close> by (auto dest: injD)
  then have "h x < h y" using 1(2) by (auto simp: order.strict_iff_order)
  then have "\<forall>z\<in>set (map h (y # ks)). h x < z" using 1(2) by auto
  then have "h x \<notin> set (map h (y # ks))" by blast
  with rest show ?case by simp
qed simp_all

definition key_rank :: "string \<Rightarrow> nat \<times> u8 list" where
  "key_rank k = (length k, as_bytes k)"

lemma key_order_rank: "key_order f = key_rank (fst f)"
  by (simp add: key_order_def key_rank_def)

lemma inj_key_rank: "inj key_rank"
  by (rule injI) (metis bytes_as_str_as_bytes key_rank_def snd_conv)

lemma distinct_keys:
  assumes "adjacent_equal (map fst (sort_key key_order fs)) = None"
  shows "inj_on key_order (set fs)"
proof -
  have "map key_rank (map fst (sort_key key_order fs)) = map key_order (sort_key key_order fs)"
    by (simp add: key_order_rank)
  then have "distinct (map key_order (sort_key key_order fs))"
    using adjacent_sorted_distinct [OF _ inj_key_rank assms] by (metis sorted_sort_key)
  then show ?thesis by (simp add: distinct_map)
qed

lemma write_set_mset:
  assumes "write_set ws = (bytes, Inr ())" and "mset ws = mset ws'"
  shows "write_set ws' = (bytes, Inr ())"
proof -
  have "mset (map fst ws) = mset (map fst ws')" using assms(2) by simp
  then have "sort (map fst ws) = sort (map fst ws')"
    by (intro properties_for_sort) (simp_all del: mset_map)
  with assms mset_eq_setD [OF assms(2)] mset_eq_length [OF assms(2)] show ?thesis
    by (simp add: write_set_iff all_ok_def)
qed

lemma write_map_mset:
  assumes "write_map fs = (bytes, Inr ())" and "mset fs = mset gs"
  shows "write_map gs = (bytes, Inr ())"
proof -
  have "inj_on key_order (set fs)" using assms(1) by (intro distinct_keys) (simp add: write_map_iff)
  then have "sort_key key_order fs = sort_key key_order gs" by (intro sort_key_eq_sort_key assms(2))
  with assms mset_eq_setD [OF assms(2)] mset_eq_length [OF assms(2)] show ?thesis
    by (simp add: write_map_iff fields_ok_def)
qed

section \<open>Properties\<close>

lemma encode_Inr: "encode v = Inr bytes \<longleftrightarrow> snd (cwrite v) = Inr () \<and> bytes = MAGIC @ [version_tag] @ enc v"
  by (auto simp: encode_def split: prod.splits sum.splits)

text \<open>
  C29. Canonical bytes can be read back: a value of the domain that has an encoding and nests at
  most 32 levels decodes to its normal form, which has the same bytes; and whatever bytes decode
  to a value are the encoding of that value, so two byte strings never decode to one value.
\<close>

theorem canonical_round_trip:
  "(encode v = Inr bytes \<and> rust_value v \<and> nesting v \<le> MAX_DEPTH \<longrightarrow>
      decode bytes = Inr (normal v) \<and> encode (normal v) = Inr bytes)
   \<and> (decode bytes = Inr w \<longrightarrow> encode w = Inr bytes)"
proof (intro conjI impI)
  assume v: "encode v = Inr bytes \<and> rust_value v \<and> nesting v \<le> MAX_DEPTH"
  then have ok: "snd (cwrite v) = Inr ()" and bytes: "bytes = MAGIC @ version_tag # enc v"
    by (simp_all add: encode_Inr)
  show same: "encode (normal v) = Inr bytes" using ok bytes normal_writes [OF ok] by (simp add: encode_Inr)
  have "cursor_value 0 (enc v @ []) = Inr (normal v, [])" by (rule cursor_value_write) (use ok v in auto)
  with same show "decode bytes = Inr (normal v)" by (simp add: decode_def bytes)
next
  assume "decode bytes = Inr w"
  then show "encode w = Inr bytes"
    by (auto simp: decode_def split: if_splits list.splits sum.splits prod.splits)
qed

text \<open>
  C30. The order in which a set or a record is built cannot change its bytes: an encoding of one
  arrangement of the members or fields is the encoding of every other arrangement, and of the
  value the sorting constructors build.
\<close>

theorem canonical_order_is_immaterial:
  "(encode (CSet xs) = Inr bytes \<and> mset xs = mset ys \<longrightarrow>
      encode (CSet ys) = Inr bytes \<and> encode (canonical_set ys) = Inr bytes)
   \<and> (encode (CMap fs) = Inr bytes \<and> mset fs = mset gs \<longrightarrow>
      encode (CMap gs) = Inr bytes \<and> encode (canonical_map gs) = Inr bytes)"
proof -
  have set: "encode (CSet ys') = Inr bytes" if "encode (CSet xs) = Inr bytes" "mset xs = mset ys'" for ys'
  proof -
    have "mset (map cwrite xs) = mset (map cwrite ys')" using that(2) by simp
    from write_set_mset [OF _ this, of "enc (CSet xs)"] that(1) show ?thesis
      by (auto simp: encode_Inr snd_ok [of "write_set _"])
  qed
  have map: "encode (CMap gs') = Inr bytes" if "encode (CMap fs) = Inr bytes" "mset fs = mset gs'" for gs'
  proof -
    have "mset (map (map_prod id cwrite) fs) = mset (map (map_prod id cwrite) gs')" using that(2) by simp
    from write_map_mset [OF _ this, of "enc (CMap fs)"] that(1) show ?thesis
      by (auto simp: encode_Inr snd_ok [of "write_map _"])
  qed
  show ?thesis using set map by (simp add: canonical_set_def canonical_map_def)
qed

section \<open>Examples\<close>

definition sample_value :: canonical_value where
  "sample_value = CMap [(''price'', CInteger 7), (''id'', CSet [CBool True, CBool False])]"

lemma sample_written: "snd (cwrite sample_value) = Inr ()"
  by (simp add: sample_value_def write_map_def write_set_def write_string_def check_string_def is_control_def
      byte_def key_order_def Let_def)

theorem canonical_round_trip_witness:
  "\<exists>bytes. encode sample_value = Inr bytes \<and> rust_value sample_value \<and> nesting sample_value \<le> MAX_DEPTH
     \<and> decode bytes = Inr (normal sample_value)
     \<and> normal sample_value = CMap [(''id'', CSet [CBool False, CBool True]), (''price'', CInteger 7)]"
proof -
  obtain bytes where bytes: "encode sample_value = Inr bytes" using sample_written by (simp add: encode_Inr)
  have "rust_value sample_value" "nesting sample_value \<le> MAX_DEPTH"
    by (simp_all add: sample_value_def rust_string_def byte_def MAX_DEPTH_def)
  moreover have "normal sample_value = CMap [(''id'', CSet [CBool False, CBool True]), (''price'', CInteger 7)]"
    by (simp add: sample_value_def key_order_def)
  ultimately show ?thesis using bytes canonical_round_trip [of sample_value bytes sample_value] by blast
qed

theorem canonical_order_is_immaterial_witness:
  "\<exists>bytes. encode (CSet [CBool True, CBool False]) = Inr bytes \<and> encode (CSet [CBool False, CBool True]) = Inr bytes"
proof -
  have "snd (cwrite (CSet [CBool True, CBool False])) = Inr ()" by (simp add: write_set_def Let_def)
  then obtain bytes where "encode (CSet [CBool True, CBool False]) = Inr bytes" by (simp add: encode_Inr)
  with canonical_order_is_immaterial [of "[CBool True, CBool False]" bytes "[CBool False, CBool True]" "[]" "[]"]
  show ?thesis by (auto simp: add_mset_commute)
qed

end
