(* ===== verification/Aliases.thy ===== *)
theory Aliases
  imports Rust_String
begin

text \<open>
  Model-id globs, \<open>crates/gateway/src/aliases.rs\<close>: exact names, one leading or trailing star, or
  the bare star.  The reference meaning of a glob is \<open>glob_matches\<close>, in which a star stands for
  any bytes at all wherever it is; the parser refuses the patterns for which the four kinds of
  pattern could not say that.
\<close>

section \<open>Patterns\<close>

datatype alias_pattern = Exact string | Prefix string | Suffix string | Any

record alias_scope =
  patterns :: "alias_pattern list"

record invalid_alias_pattern =
  refused_pattern :: string

definition stars :: "string \<Rightarrow> nat" where
  "stars pattern = length (filter (\<lambda>c. c = CHR ''*'') pattern)"

definition parse_pattern :: "string \<Rightarrow> (invalid_alias_pattern, alias_pattern) result" where
  "parse_pattern pattern =
     (if pattern = [] \<or> 1 < stars pattern
         \<or> stars pattern = 1 \<and> \<not> starts_with pattern ''*'' \<and> \<not> ends_with pattern ''*''
      then Inl \<lparr>refused_pattern = pattern\<rparr>
      else if stars pattern = 0 then Inr (Exact pattern)
      else if pattern = ''*'' then Inr Any
      else if starts_with pattern ''*'' then Inr (Suffix (tl pattern))
      else Inr (Prefix (butlast pattern)))"

text \<open>\<open>collect::<Result<Vec<_>, _>>()\<close> stops at the first refusal.\<close>

fun parse_patterns :: "string list \<Rightarrow> (invalid_alias_pattern, alias_pattern list) result" where
  "parse_patterns [] = Inr []"
| "parse_patterns (p # ps) =
     (case parse_pattern p of
        Inl e \<Rightarrow> Inl e
      | Inr q \<Rightarrow> (case parse_patterns ps of Inl e \<Rightarrow> Inl e | Inr qs \<Rightarrow> Inr (q # qs)))"

definition scope_parse :: "string list \<Rightarrow> (invalid_alias_pattern, alias_scope) result" where
  "scope_parse ps = map_sum id (\<lambda>qs. \<lparr>patterns = qs\<rparr>) (parse_patterns ps)"

fun pattern_permits :: "alias_pattern \<Rightarrow> string \<Rightarrow> bool" where
  "pattern_permits (Exact v) nm \<longleftrightarrow> nm = v"
| "pattern_permits (Prefix v) nm \<longleftrightarrow> starts_with nm v"
| "pattern_permits (Suffix v) nm \<longleftrightarrow> ends_with nm v"
| "pattern_permits Any nm \<longleftrightarrow> True"

definition scope_permits :: "alias_scope \<Rightarrow> string \<Rightarrow> bool" where
  "scope_permits s nm \<longleftrightarrow> list_ex (\<lambda>p. pattern_permits p nm) (patterns s)"

fun pattern_subsumes :: "alias_pattern \<Rightarrow> alias_pattern \<Rightarrow> bool" where
  "pattern_subsumes Any _ \<longleftrightarrow> True"
| "pattern_subsumes (Exact l) (Exact r) \<longleftrightarrow> l = r"
| "pattern_subsumes (Prefix l) (Exact r) \<longleftrightarrow> starts_with r l"
| "pattern_subsumes (Prefix l) (Prefix r) \<longleftrightarrow> starts_with r l"
| "pattern_subsumes (Suffix l) (Exact r) \<longleftrightarrow> ends_with r l"
| "pattern_subsumes (Suffix l) (Suffix r) \<longleftrightarrow> ends_with r l"
| "pattern_subsumes _ _ \<longleftrightarrow> False"

definition scope_subsumes :: "alias_scope \<Rightarrow> alias_pattern \<Rightarrow> bool" where
  "scope_subsumes s p \<longleftrightarrow> list_ex (\<lambda>c. pattern_subsumes c p) (patterns s)"

definition is_subset_of :: "alias_scope \<Rightarrow> alias_scope \<Rightarrow> bool" where
  "is_subset_of s ceiling \<longleftrightarrow> list_all (scope_subsumes ceiling) (patterns s)"

section \<open>The meaning of a glob\<close>

fun glob_matches :: "string \<Rightarrow> string \<Rightarrow> bool" where
  "glob_matches [] s \<longleftrightarrow> s = []"
| "glob_matches (c # p) s \<longleftrightarrow>
     (if c = CHR ''*'' then list_ex (\<lambda>n. glob_matches p (drop n s)) [0..<Suc (length s)]
      else (case s of [] \<Rightarrow> False | d # s' \<Rightarrow> d = c \<and> glob_matches p s'))"

lemma stars_simps [simp]:
  "stars [] = 0"
  "stars (c # p) = (if c = CHR ''*'' then Suc (stars p) else stars p)"
  "stars (p @ q) = stars p + stars q"
  by (simp_all add: stars_def)

lemma glob_star: "glob_matches (CHR ''*'' # p) s \<longleftrightarrow> (\<exists>n \<le> length s. glob_matches p (drop n s))"
  by (simp del: upt_Suc add: list_ex_iff atLeast0LessThan lessThan_Suc_atMost Bex_def)

lemma glob_exact: "stars p = 0 \<Longrightarrow> glob_matches (p @ q) s \<longleftrightarrow> (\<exists>r. s = p @ r \<and> glob_matches q r)"
  by (induction p arbitrary: s) (auto split: list.splits if_splits)

lemma glob_star_alone: "glob_matches ''*'' s"
  unfolding glob_star by (intro exI [of _ "length s"]) simp

lemma glob_suffix: "stars p = 0 \<Longrightarrow> glob_matches (CHR ''*'' # p) s \<longleftrightarrow> ends_with s p"
proof -
  assume p: "stars p = 0"
  have "glob_matches p t \<longleftrightarrow> t = p" for t using glob_exact [OF p, of "[]"] by simp
  then show ?thesis
    unfolding glob_star ends_with_iff
    by (metis append_take_drop_id append_eq_conv_conj le_add1 length_append)
qed

lemma stars_ends: "ends_with p ''*'' \<Longrightarrow> p = butlast p @ ''*''"
  by (auto simp: ends_with_iff)

lemma stars_starts: "starts_with p ''*'' \<Longrightarrow> p = CHR ''*'' # tl p"
  by (auto simp: starts_with_iff)

lemma parse_pattern_matches:
  assumes "parse_pattern pattern = Inr q"
  shows "pattern_permits q nm \<longleftrightarrow> glob_matches pattern nm"
proof -
  consider (exact) "stars pattern = 0" "q = Exact pattern" | (any) "pattern = ''*''" "q = Any"
    | (suffix) "stars pattern = 1" "starts_with pattern ''*''" "q = Suffix (tl pattern)"
    | (prefix) "stars pattern = 1" "ends_with pattern ''*''" "q = Prefix (butlast pattern)"
    using assms by (auto simp: parse_pattern_def split: if_splits)
  then show ?thesis
  proof cases
    case exact
    then show ?thesis using glob_exact [of pattern "[]" nm] by simp
  next
    case any
    then show ?thesis using glob_star_alone by simp
  next
    case suffix
    then have "stars (tl pattern) = 0" using stars_starts [of pattern] by (metis One_nat_def nat.inject stars_simps(2))
    with suffix stars_starts [of pattern] glob_suffix show ?thesis by (metis pattern_permits.simps(3))
  next
    case prefix
    then have p: "pattern = butlast pattern @ ''*''" using stars_ends by blast
    then have "stars (butlast pattern) + 1 = stars pattern"
      by (metis One_nat_def stars_simps)
    with prefix have "stars (butlast pattern) = 0" by simp
    then have "glob_matches pattern nm \<longleftrightarrow> (\<exists>r. nm = butlast pattern @ r)"
      using glob_exact [of "butlast pattern" "''*''" nm] p glob_star_alone by metis
    with prefix show ?thesis by (simp add: starts_with_iff)
  qed
qed

lemma parse_patterns_Inr:
  "parse_patterns ps = Inr qs \<Longrightarrow> list_all2 (\<lambda>p q. parse_pattern p = Inr q) ps qs"
  by (induction ps arbitrary: qs) (auto simp: list_all2_Cons1 split: sum.splits)

lemma scope_parse_ok: "is_ok (scope_parse ps) \<longleftrightarrow> (\<forall>p\<in>set ps. is_ok (parse_pattern p))"
proof -
  have "is_ok (parse_patterns ps) \<longleftrightarrow> (\<forall>p\<in>set ps. is_ok (parse_pattern p))"
    by (induction ps) (auto split: sum.splits)
  then show ?thesis by (cases "parse_patterns ps") (simp_all add: scope_parse_def)
qed

lemma parse_pattern_ok:
  "is_ok (parse_pattern p) \<longleftrightarrow>
     p \<noteq> [] \<and> (\<exists>name. stars name = 0 \<and> (p = name \<or> p = CHR ''*'' # name \<or> p = name @ ''*''))"
  (is "?l \<longleftrightarrow> ?r")
proof
  assume ?l
  then have p: "p \<noteq> []" "stars p \<le> 1" "stars p = 1 \<Longrightarrow> starts_with p ''*'' \<or> ends_with p ''*''"
    by (auto simp: parse_pattern_def split: if_splits)
  show ?r
  proof (cases "stars p = 0")
    case False
    with p consider q where "p = CHR ''*'' # q" "stars q = 0" | q where "p = q @ ''*''" "stars q = 0"
      using stars_starts [of p] stars_ends [of p] stars_simps
      by (smt (verit) One_nat_def Suc_eq_plus1 add_right_cancel le_neq_implies_less less_one plus_nat.add_0)
    then show ?thesis using p by cases auto
  qed (use p in auto)
next
  assume ?r
  then show ?l by (auto simp: parse_pattern_def starts_with_iff ends_with_iff append_eq_Cons_conv)
qed

lemma pattern_subsumes_sound: "pattern_subsumes c p \<Longrightarrow> pattern_permits p nm \<Longrightarrow> pattern_permits c nm"
  by (cases "(c, p)" rule: pattern_subsumes.cases) (auto simp: starts_with_iff ends_with_iff)

section \<open>Properties\<close>

text \<open>
  A parsed scope permits exactly the names one of its globs matches, with a star standing for
  any bytes; parsing refuses exactly the scopes with an empty pattern, a second star or a star in
  the middle; the empty scope permits nothing; and a scope that is a subset of a ceiling permits
  nothing the ceiling does not.
\<close>

theorem scope_is_its_globs:
  "(scope_parse ps = Inr s \<longrightarrow> (scope_permits s nm \<longleftrightarrow> (\<exists>p\<in>set ps. glob_matches p nm)))
   \<and> (is_ok (scope_parse ps) \<longleftrightarrow>
        (\<forall>p\<in>set ps. p \<noteq> [] \<and> (\<exists>name. stars name = 0
           \<and> (p = name \<or> p = CHR ''*'' # name \<or> p = name @ ''*''))))
   \<and> \<not> scope_permits \<lparr>patterns = []\<rparr> nm
   \<and> (is_subset_of s ceiling \<and> scope_permits s nm \<longrightarrow> scope_permits ceiling nm)"
proof (intro conjI impI)
  assume "scope_parse ps = Inr s"
  then have parsed: "list_all2 (\<lambda>p q. parse_pattern p = Inr q) ps (patterns s)"
    by (cases "parse_patterns ps") (auto simp: scope_parse_def dest: parse_patterns_Inr)
  show "scope_permits s nm \<longleftrightarrow> (\<exists>p\<in>set ps. glob_matches p nm)"
    unfolding scope_permits_def list_ex_iff
    using list_all2_left [OF parsed] list_all2_right [OF parsed] parse_pattern_matches by blast
next
  show "is_ok (scope_parse ps) \<longleftrightarrow>
        (\<forall>p\<in>set ps. p \<noteq> [] \<and> (\<exists>name. stars name = 0
           \<and> (p = name \<or> p = CHR ''*'' # name \<or> p = name @ ''*'')))"
    by (simp only: scope_parse_ok parse_pattern_ok)
next
  show "\<not> scope_permits \<lparr>patterns = []\<rparr> nm" by (simp add: scope_permits_def)
next
  assume "is_subset_of s ceiling \<and> scope_permits s nm"
  then show "scope_permits ceiling nm"
    unfolding is_subset_of_def scope_permits_def scope_subsumes_def list_ex_iff list_all_iff
    using pattern_subsumes_sound by blast
qed

theorem scope_is_its_globs_witness:
  "let s = \<lparr>patterns = [Prefix ''gpt-'', Exact ''o3'']\<rparr> in
   scope_parse [''gpt-*'', ''o3''] = Inr s \<and> glob_matches ''gpt-*'' ''gpt-4''
   \<and> is_ok (scope_parse [''gpt-*'', ''o3'']) \<and> scope_permits s ''gpt-4''
   \<and> is_subset_of s \<lparr>patterns = [Any]\<rparr> \<and> scope_permits \<lparr>patterns = [Any]\<rparr> ''gpt-4''"
  using scope_is_its_globs [of "[''gpt-*'', ''o3'']" "\<lparr>patterns = [Prefix ''gpt-'', Exact ''o3'']\<rparr>" "''gpt-4''" "\<lparr>patterns = [Any]\<rparr>"]
  by (simp add: scope_parse_def parse_pattern_def starts_with_def ends_with_def is_subset_of_def
      scope_subsumes_def)

end
