(* ===== verification/Config.thy ===== *)
theory Config
  imports Aliases Price Backoff Lifecycle Admission Journal
begin

text \<open>
  The configuration, \<open>crates/gateway/src/config.rs\<close>: the sections of the file as records, their
  defaults, the two sections whose deserialization is written by hand (\<open>[admission]\<close> and
  \<open>[[usage_sink]]\<close>), and the lookups the rest of the gateway makes.  Reading TOML and the
  environment layer is the \<open>figment\<close> and \<open>serde\<close> libraries'; the model starts from the values
  they deliver.  The listening address is not modelled.  \<open>MAX_PERMITS\<close> is the constant of
  \<open>tokio::sync::Semaphore\<close> and an argument here.
\<close>

section \<open>Storage\<close>

datatype storage_backend = Sqlite | PostgresStore

datatype store_unavailable = DenyUnavailable | AllowUnavailable

record usage_index_config =
  index_buffer_capacity :: nat
  index_max_batch :: nat
  index_flush_interval_ms :: nat

definition usage_index_default :: usage_index_config where
  "usage_index_default =
     \<lparr>index_buffer_capacity = 1024, index_max_batch = 256, index_flush_interval_ms = 50\<rparr>"

record usage_index_settings =
  settings_capacity :: nat
  settings_max_batch :: nat
  settings_flush_interval :: duration
  settings_write_timeout :: duration

definition usage_index_settings_default :: usage_index_settings where
  "usage_index_settings_default =
     \<lparr>settings_capacity = 1024, settings_max_batch = 256,
      settings_flush_interval = from_millis 50, settings_write_timeout = from_secs 2\<rparr>"

definition index_settings :: "usage_index_config \<Rightarrow> usage_index_settings" where
  "index_settings c =
     usage_index_settings_default
       \<lparr>settings_capacity := index_buffer_capacity c, settings_max_batch := index_max_batch c,
        settings_flush_interval := from_millis (index_flush_interval_ms c)\<rparr>"

definition MAX_USAGE_INDEX_BATCH :: nat where "MAX_USAGE_INDEX_BATCH = 4096"

text \<open>\<open>clamp(1, MAX_USAGE_INDEX_BATCH).min(capacity)\<close>.\<close>

definition index_settings_bounded :: "usage_index_settings \<Rightarrow> usage_index_settings" where
  "index_settings_bounded s =
     (let cap = max (settings_capacity s) 1 in
      s\<lparr>settings_capacity := cap,
        settings_max_batch := min (min (max (settings_max_batch s) 1) MAX_USAGE_INDEX_BATCH) cap\<rparr>)"

record storage_config =
  storage_backend :: storage_backend
  storage_path :: "string option"
  storage_dsn_env :: "string option"
  on_unavailable :: store_unavailable
  storage_create_table :: bool
  usage_index :: usage_index_config
  request_timeout_ms :: nat

definition MAX_STORAGE_REQUEST_TIMEOUT_MS :: nat where "MAX_STORAGE_REQUEST_TIMEOUT_MS = 60000"
definition MAX_USAGE_INDEX_FLUSH_INTERVAL_MS :: nat where "MAX_USAGE_INDEX_FLUSH_INTERVAL_MS = 86400000"

section \<open>Namespaces, providers, prices and credentials\<close>

record namespace_config =
  ns_id :: string
  ns_default :: bool
  ns_allow_platform_fallback :: bool

datatype unpriced_models = DenyUnpriced | AllowUnpriced

datatype provider_kind = OpenaiKind | AnthropicKind | OpenaiCompatibleKind

datatype provider_wire = OpenaiWire | AnthropicWire

fun kind_wire :: "provider_kind \<Rightarrow> provider_wire" where
  "kind_wire OpenaiKind = OpenaiWire"
| "kind_wire OpenaiCompatibleKind = OpenaiWire"
| "kind_wire AnthropicKind = AnthropicWire"

record provider_config =
  provider_id :: string
  provider_kind :: provider_kind
  base_url :: string
  provider_unpriced_models :: unpriced_models

record price_rule =
  rule_provider :: string
  rule_model :: string
  rule_price :: model_price

record credential_config =
  cred_namespace :: string
  cred_provider :: string
  cred_env :: "string option"
  cred_id :: "string option"
  cred_weight :: u32

definition credential_label :: "credential_config \<Rightarrow> string" where
  "credential_label c =
     (case cred_id c of
        Some i \<Rightarrow> i
      | None \<Rightarrow> (case cred_env c of Some e \<Rightarrow> e | None \<Rightarrow> ''unlabelled''))"

datatype selection_strategy = RoundRobin | Weighted

record credential_pool_config =
  pool_strategy :: selection_strategy
  pool_failure_threshold :: u32
  pool_cooldown_seconds :: nat

definition credential_pool_default :: credential_pool_config where
  "credential_pool_default =
     \<lparr>pool_strategy = RoundRobin, pool_failure_threshold = 2, pool_cooldown_seconds = 30\<rparr>"

record failover_config =
  max_attempts :: nat
  overall_timeout_ms :: nat
  failover_failure_threshold :: u32
  failover_cooldown_seconds :: nat

definition failover_default :: failover_config where
  "failover_default =
     \<lparr>max_attempts = 3, overall_timeout_ms = 30000, failover_failure_threshold = 3,
      failover_cooldown_seconds = 30\<rparr>"

record gateway_key =
  key_env :: "string option"
  key_file :: "string option"
  key_namespace :: string

datatype key_material_source = KeyEnv string | KeyFile string

definition non_blank :: "string option \<Rightarrow> string option" where
  "non_blank s = (case s of Some v \<Rightarrow> if trim v = [] then None else Some v | None \<Rightarrow> None)"

definition key_source :: "gateway_key \<Rightarrow> key_material_source option" where
  "key_source k =
     (case (non_blank (key_env k), non_blank (key_file k)) of
        (Some e, None) \<Rightarrow> Some (KeyEnv e)
      | (None, Some f) \<Rightarrow> Some (KeyFile f)
      | _ \<Rightarrow> None)"

fun source_text :: "key_material_source \<Rightarrow> string" where
  "source_text (KeyEnv v) = v"
| "source_text (KeyFile v) = v"

definition source_label :: "gateway_key \<Rightarrow> string option" where
  "source_label k = map_option source_text (key_source k)"

section \<open>Transport and shutdown\<close>

record transport_config =
  connect_timeout_ms :: nat
  response_header_timeout_ms :: nat
  buffered_body_timeout_ms :: nat
  stream_idle_timeout_ms :: nat
  stream_terminal_grace_ms :: nat
  max_response_bytes :: nat
  max_error_bytes :: nat

definition transport_default :: transport_config where
  "transport_default =
     \<lparr>connect_timeout_ms = 5000, response_header_timeout_ms = 30000,
      buffered_body_timeout_ms = 30000, stream_idle_timeout_ms = 120000,
      stream_terminal_grace_ms = 1000, max_response_bytes = 32 * 1024 * 1024,
      max_error_bytes = 64 * 1024\<rparr>"

record transport_limits =
  limit_connect_timeout :: duration
  limit_response_header_timeout :: duration
  limit_buffered_body_timeout :: duration
  limit_stream_idle_timeout :: duration
  limit_max_response_bytes :: nat
  limit_max_error_bytes :: nat

definition transport_limits_of :: "transport_config \<Rightarrow> transport_limits" where
  "transport_limits_of t =
     \<lparr>limit_connect_timeout = from_millis (connect_timeout_ms t),
      limit_response_header_timeout = from_millis (response_header_timeout_ms t),
      limit_buffered_body_timeout = from_millis (buffered_body_timeout_ms t),
      limit_stream_idle_timeout = from_millis (stream_idle_timeout_ms t),
      limit_max_response_bytes = max_response_bytes t, limit_max_error_bytes = max_error_bytes t\<rparr>"

record shutdown_config =
  drain_grace_ms :: nat
  deadline_ms :: nat
  flush_timeout_ms :: nat

definition shutdown_default :: shutdown_config where
  "shutdown_default = \<lparr>drain_grace_ms = 5000, deadline_ms = 15000, flush_timeout_ms = 5000\<rparr>"

section \<open>Admission\<close>

record admission_config_wire =
  wire_max_request_bytes :: nat
  wire_max_in_flight :: nat
  wire_max_in_flight_streams :: "nat option"
  wire_max_in_flight_per_tenant :: "nat option"
  wire_max_tenants :: nat
  wire_queue_capacity :: nat
  wire_queue_wait_ms :: nat
  wire_max_stream_duration_ms :: nat
  wire_max_prompt_tokens :: nat
  wire_max_output_tokens :: nat
  wire_max_stream_bytes :: nat
  wire_max_pending_settlements :: "nat option"
  wire_max_in_flight_settlements :: nat
  wire_settlement_queue_wait_ms :: nat
  wire_settlement_timeout_ms :: nat

definition default_max_in_flight :: nat where "default_max_in_flight = 1024"
definition default_max_in_flight_streams :: nat where "default_max_in_flight_streams = 512"
definition default_max_in_flight_per_tenant :: nat where "default_max_in_flight_per_tenant = 256"

definition usize_max :: nat where "usize_max = 2 ^ 64 - 1"

definition default_max_pending_settlements :: "nat \<Rightarrow> nat \<Rightarrow> nat" where
  "default_max_pending_settlements max_permits ceiling =
     (let base = (if 0 < ceiling then ceiling else default_max_in_flight)
      in min (min (base * 4) usize_max) max_permits)"

definition clamp_written :: "nat \<Rightarrow> nat option \<Rightarrow> nat \<Rightarrow> nat \<times> bool" where
  "clamp_written ceiling written dflt =
     (case written of
        Some value \<Rightarrow> (value, True)
      | None \<Rightarrow> (if 0 < ceiling then min dflt ceiling else dflt, False))"

definition tenant_ceiling :: "nat \<Rightarrow> nat option \<Rightarrow> nat \<times> bool" where
  "tenant_ceiling ceiling written =
     (case written of
        Some value \<Rightarrow> (value, True)
      | None \<Rightarrow>
          (if 0 < ceiling \<and> ceiling \<le> default_max_in_flight_per_tenant then 0
           else default_max_in_flight_per_tenant, False))"

definition admission_from_wire :: "nat \<Rightarrow> admission_config_wire \<Rightarrow> admission_config" where
  "admission_from_wire max_permits w =
     (let n = wire_max_in_flight w;
          (strm, streams_explicit) =
            clamp_written n (wire_max_in_flight_streams w) default_max_in_flight_streams;
          (tenant, tenant_explicit) = tenant_ceiling n (wire_max_in_flight_per_tenant w);
          (pending, pending_explicit) =
            (case wire_max_pending_settlements w of
               Some value \<Rightarrow> (value, True)
             | None \<Rightarrow> (default_max_pending_settlements max_permits n, False))
      in \<lparr>cfg_max_request_bytes = wire_max_request_bytes w, cfg_max_in_flight = n,
          cfg_max_in_flight_streams = strm, cfg_max_in_flight_streams_explicit = streams_explicit,
          cfg_max_in_flight_per_tenant = tenant,
          cfg_max_in_flight_per_tenant_explicit = tenant_explicit,
          cfg_max_tenants = wire_max_tenants w, cfg_queue_capacity = wire_queue_capacity w,
          cfg_queue_wait_ms = wire_queue_wait_ms w,
          cfg_max_stream_duration_ms = wire_max_stream_duration_ms w,
          cfg_max_prompt_tokens = wire_max_prompt_tokens w,
          cfg_max_output_tokens = wire_max_output_tokens w,
          cfg_max_stream_bytes = wire_max_stream_bytes w,
          cfg_max_pending_settlements = pending,
          cfg_max_pending_settlements_explicit = pending_explicit,
          cfg_max_in_flight_settlements = wire_max_in_flight_settlements w,
          cfg_settlement_queue_wait_ms = wire_settlement_queue_wait_ms w,
          cfg_settlement_timeout_ms = wire_settlement_timeout_ms w\<rparr>)"

definition admission_default :: "nat \<Rightarrow> admission_config" where
  "admission_default max_permits =
     \<lparr>cfg_max_request_bytes = 2 * 1024 * 1024, cfg_max_in_flight = default_max_in_flight,
      cfg_max_in_flight_streams = default_max_in_flight_streams,
      cfg_max_in_flight_streams_explicit = False,
      cfg_max_in_flight_per_tenant = default_max_in_flight_per_tenant,
      cfg_max_in_flight_per_tenant_explicit = False,
      cfg_max_tenants = 1024, cfg_queue_capacity = 0, cfg_queue_wait_ms = 0,
      cfg_max_stream_duration_ms = 60 * 60 * 1000, cfg_max_prompt_tokens = 1000000,
      cfg_max_output_tokens = 200000, cfg_max_stream_bytes = 64 * 1024 * 1024,
      cfg_max_pending_settlements = default_max_pending_settlements max_permits default_max_in_flight,
      cfg_max_pending_settlements_explicit = False, cfg_max_in_flight_settlements = 64,
      cfg_settlement_queue_wait_ms = 10000, cfg_settlement_timeout_ms = 10000\<rparr>"

section \<open>Usage sinks and the journal\<close>

datatype usage_sink_kind = StdoutSink | PostgresSink | OtlpSink

record usage_sink_config =
  sink_kind :: usage_sink_kind
  sink_dsn_env :: "string option"
  sink_table :: "string option"
  sink_create_table :: bool
  sink_buffer_capacity :: nat
  sink_max_batch :: nat
  sink_max_batch_explicit :: bool
  sink_flush_interval_ms :: nat

record usage_sink_config_wire =
  wire_kind :: usage_sink_kind
  wire_dsn_env :: "string option"
  wire_table :: "string option"
  wire_create_table :: bool
  wire_buffer_capacity :: nat
  wire_max_batch :: "nat option"
  wire_flush_interval_ms :: nat

definition default_max_batch :: nat where "default_max_batch = 500"

definition sink_from_wire :: "usage_sink_config_wire \<Rightarrow> usage_sink_config" where
  "sink_from_wire w =
     \<lparr>sink_kind = wire_kind w, sink_dsn_env = wire_dsn_env w, sink_table = wire_table w,
      sink_create_table = wire_create_table w, sink_buffer_capacity = wire_buffer_capacity w,
      sink_max_batch = (case wire_max_batch w of Some n \<Rightarrow> n | None \<Rightarrow> default_max_batch),
      sink_max_batch_explicit = (wire_max_batch w \<noteq> None),
      sink_flush_interval_ms = wire_flush_interval_ms w\<rparr>"

definition usage_sink_default :: usage_sink_config where
  "usage_sink_default =
     \<lparr>sink_kind = StdoutSink, sink_dsn_env = None, sink_table = None, sink_create_table = False,
      sink_buffer_capacity = 10000, sink_max_batch = default_max_batch,
      sink_max_batch_explicit = False, sink_flush_interval_ms = 1000\<rparr>"

definition sink_table_name :: "usage_sink_config \<Rightarrow> string" where
  "sink_table_name s = (case sink_table s of Some t \<Rightarrow> t | None \<Rightarrow> ''axond_usage'')"

record batch_settings =
  batch_capacity :: nat
  batch_max_batch :: nat
  batch_flush_interval :: duration

definition batch_settings_of :: "usage_sink_config \<Rightarrow> batch_settings" where
  "batch_settings_of s =
     \<lparr>batch_capacity = sink_buffer_capacity s,
      batch_max_batch = min (sink_max_batch s) (sink_buffer_capacity s),
      batch_flush_interval = from_millis (sink_flush_interval_ms s)\<rparr>"

datatype usage_journal_backend = NoJournal | PostgresJournal

datatype usage_capacity_policy = RefusePolicy | DropOldestPolicy

fun capacity_policy_of :: "usage_capacity_policy \<Rightarrow> capacity_policy" where
  "capacity_policy_of RefusePolicy = Refuse"
| "capacity_policy_of DropOldestPolicy = DropOldest"

datatype undurable_policy = RefuseUndurable | ServeUndurable

definition undurable_refuses :: "undurable_policy \<Rightarrow> bool" where
  "undurable_refuses p \<longleftrightarrow> p = RefuseUndurable"

record usage_journal_config =
  journal_backend :: usage_journal_backend
  journal_dsn_env :: "string option"
  journal_schema :: "string option"
  journal_create_schema :: bool
  journal_consumer :: string
  journal_max_events :: nat
  journal_max_delivery_attempts :: nat
  journal_retain_acknowledged_seconds :: nat
  journal_capacity_policy :: usage_capacity_policy
  journal_on_undurable :: undurable_policy
  journal_operation_timeout_ms :: nat
  journal_connect_timeout_ms :: nat
  journal_connections :: nat
  journal_claim_batch :: nat
  journal_lease_seconds :: nat
  journal_poll_interval_ms :: nat

definition usage_journal_default :: usage_journal_config where
  "usage_journal_default =
     \<lparr>journal_backend = NoJournal, journal_dsn_env = None, journal_schema = None,
      journal_create_schema = False, journal_consumer = ''billing'',
      journal_max_events = max_events BILLING_GRADE,
      journal_max_delivery_attempts = max_delivery_attempts BILLING_GRADE,
      journal_retain_acknowledged_seconds = retain_acknowledged BILLING_GRADE div 10 ^ 9,
      journal_capacity_policy = RefusePolicy, journal_on_undurable = RefuseUndurable,
      journal_operation_timeout_ms = 5000, journal_connect_timeout_ms = 5000,
      journal_connections = 8, journal_claim_batch = 256, journal_lease_seconds = 30,
      journal_poll_interval_ms = 250\<rparr>"

definition journal_capacity :: "usage_journal_config \<Rightarrow> capacity" where
  "journal_capacity j =
     \<lparr>max_events = journal_max_events j, max_delivery_attempts = journal_max_delivery_attempts j,
      retain_acknowledged = from_secs (journal_retain_acknowledged_seconds j),
      policy = capacity_policy_of (journal_capacity_policy j)\<rparr>"

section \<open>The imported catalogue and discovery\<close>

datatype catalog_source_backend = NoSource | ModelsDevSource | SeedSource

datatype catalog_store_backend = InMemoryStore | PostgresCatalog

datatype catalog_bootstrap = EmptyBootstrap | SeedBootstrap

record catalog_config =
  catalog_source :: catalog_source_backend
  catalog_store :: catalog_store_backend
  catalog_source_url :: "string option"
  catalog_dsn_env :: "string option"
  catalog_schema :: "string option"
  catalog_create_table :: bool
  catalog_refresh_interval_seconds :: nat
  catalog_refresh_timeout_seconds :: nat
  catalog_retry_initial_seconds :: nat
  catalog_retry_max_seconds :: nat
  catalog_bootstrap :: catalog_bootstrap
  catalog_max_payload_bytes :: nat
  catalog_connect_timeout_ms :: nat
  catalog_operation_timeout_ms :: nat

definition catalog_default :: catalog_config where
  "catalog_default =
     \<lparr>catalog_source = NoSource, catalog_store = InMemoryStore, catalog_source_url = None,
      catalog_dsn_env = None, catalog_schema = None, catalog_create_table = True,
      catalog_refresh_interval_seconds = 21600, catalog_refresh_timeout_seconds = 60,
      catalog_retry_initial_seconds = 60, catalog_retry_max_seconds = 3600,
      catalog_bootstrap = EmptyBootstrap, catalog_max_payload_bytes = 64 * 1024 * 1024,
      catalog_connect_timeout_ms = 10000, catalog_operation_timeout_ms = 30000\<rparr>"

definition catalog_enabled :: "catalog_config \<Rightarrow> bool" where
  "catalog_enabled c \<longleftrightarrow> catalog_source c \<noteq> NoSource"

definition MODELS_DEV_CATALOG_URL :: string where
  "MODELS_DEV_CATALOG_URL = ''https://models.dev/catalog.json''"

definition catalog_url :: "catalog_config \<Rightarrow> string" where
  "catalog_url c = (case catalog_source_url c of Some u \<Rightarrow> u | None \<Rightarrow> MODELS_DEV_CATALOG_URL)"

record refresh_schedule =
  schedule_interval :: duration
  schedule_timeout :: duration
  schedule_backoff :: backoff_policy

definition catalog_schedule :: "catalog_config \<Rightarrow> refresh_schedule" where
  "catalog_schedule c =
     \<lparr>schedule_interval = from_secs (catalog_refresh_interval_seconds c),
      schedule_timeout = from_secs (catalog_refresh_timeout_seconds c),
      schedule_backoff =
        \<lparr>policy_initial = from_secs (catalog_retry_initial_seconds c),
         policy_max = from_secs (catalog_retry_max_seconds c), policy_multiplier = 2\<rparr>\<rparr>"

datatype invalid_schedule =
    ZeroInterval
  | ZeroTimeout
  | TimeoutExceedsInterval duration duration
  | BackoffExceedsInterval duration duration
  | ScheduleBackoff invalid_backoff

definition schedule_validate :: "refresh_schedule \<Rightarrow> (invalid_schedule, unit) result" where
  "schedule_validate s =
     (if schedule_interval s = 0 then Inl ZeroInterval
      else if schedule_timeout s = 0 then Inl ZeroTimeout
      else if schedule_interval s < schedule_timeout s
      then Inl (TimeoutExceedsInterval (schedule_timeout s) (schedule_interval s))
      else case validate_policy (schedule_backoff s) of
             Inl e \<Rightarrow> Inl (ScheduleBackoff e)
           | Inr _ \<Rightarrow>
               (if schedule_interval s < policy_max (schedule_backoff s)
                then Inl (BackoffExceedsInterval (policy_max (schedule_backoff s)) (schedule_interval s))
                else Inr ()))"

section \<open>The whole file\<close>

record config =
  cfg_storage :: "storage_config option"
  cfg_namespace :: "namespace_config list"
  cfg_provider :: "provider_config list"
  cfg_price :: "price_rule list"
  cfg_blocklist :: "string list"
  cfg_credential :: "credential_config list"
  cfg_credential_pool :: credential_pool_config
  cfg_failover :: failover_config
  cfg_transport :: transport_config
  cfg_shutdown :: shutdown_config
  cfg_gateway_key :: "gateway_key list"
  cfg_usage_sink :: "usage_sink_config list"
  cfg_usage_journal :: usage_journal_config
  cfg_admission :: admission_config
  cfg_catalog :: catalog_config
  cfg_discovery_refresh_interval_seconds :: nat
  cfg_unrecognized :: "string list"

definition default_namespace :: "config \<Rightarrow> string" where
  "default_namespace c =
     (case find ns_default (cfg_namespace c) of Some n \<Rightarrow> ns_id n | None \<Rightarrow> ''platform'')"

definition config_namespace :: "config \<Rightarrow> string \<Rightarrow> namespace_config option" where
  "config_namespace c i = find (\<lambda>n. ns_id n = i) (cfg_namespace c)"

definition config_provider :: "config \<Rightarrow> string \<Rightarrow> provider_config option" where
  "config_provider c i = find (\<lambda>p. provider_id p = i) (cfg_provider c)"

definition parse_glob :: "string \<Rightarrow> (string, alias_scope) result" where
  "parse_glob pattern =
     (case scope_parse [pattern] of Inl _ \<Rightarrow> Inl pattern | Inr s \<Rightarrow> Inr s)"

definition glob_permits :: "string \<Rightarrow> string \<Rightarrow> bool" where
  "glob_permits pattern v = (case parse_glob pattern of Inl _ \<Rightarrow> False | Inr s \<Rightarrow> scope_permits s v)"

fun find_price :: "string \<Rightarrow> string \<Rightarrow> price_rule list \<Rightarrow> model_price option" where
  "find_price pr m [] = None"
| "find_price pr m (r # rs) =
     (if rule_provider r \<noteq> pr then find_price pr m rs
      else if glob_permits (rule_model r) m then Some (rule_price r)
      else find_price pr m rs)"

definition config_price_for :: "config \<Rightarrow> string \<Rightarrow> string \<Rightarrow> model_price option" where
  "config_price_for c pr m = find_price pr m (cfg_price c)"

definition is_blocked :: "config \<Rightarrow> string \<Rightarrow> string \<Rightarrow> string list \<Rightarrow> bool" where
  "is_blocked c prefixed bare extra \<longleftrightarrow>
     list_ex (\<lambda>pattern. glob_permits pattern prefixed \<or> glob_permits pattern bare)
       (cfg_blocklist c @ extra)"

end
