(* ===== verification/Config_Validation.thy ===== *)
theory Config_Validation
  imports Config
begin

text \<open>
  The validation of a configuration as a whole, \<open>Config::validate\<close> of
  \<open>crates/gateway/src/config.rs\<close>, with \<open>validate_table_name\<close> of \<open>usage/postgres.rs\<close> and
  \<open>ModelsDevAdapter::new\<close> of \<open>backends/models_dev.rs\<close>.  A check that returns
  \<open>Err(ConfigError::Invalid(message))\<close> is \<open>Some\<close> of a \<open>violation\<close>, one constructor per message
  with the values the message names; \<open>None\<close> is \<open>Ok(())\<close>, and \<open>first_refusal\<close> is the sequence of
  checks with their early returns.  \<open>reqwest::Url\<close> is the argument \<open>api\<close>.
\<close>

section \<open>Sequences of checks\<close>

definition refuse_if :: "bool \<Rightarrow> 'e \<Rightarrow> 'e option" where
  "refuse_if b e = (if b then Some e else None)"

fun first_refusal :: "'e option list \<Rightarrow> 'e option" where
  "first_refusal [] = None"
| "first_refusal (Some e # rs) = Some e"
| "first_refusal (None # rs) = first_refusal rs"

lemma refuse_if_None [simp]: "refuse_if b e = None \<longleftrightarrow> \<not> b"
  by (simp add: refuse_if_def)

lemma first_refusal_None: "first_refusal rs = None \<longleftrightarrow> list_all (\<lambda>r. r = None) rs"
  by (induction rs rule: first_refusal.induct) simp_all

section \<open>Refusals\<close>

datatype storage_violation =
    StorageRequired
  | IndexBufferZero | IndexBufferTooLarge nat nat | IndexBatchZero | IndexBatchTooLarge nat nat
  | IndexBatchExceedsBuffer nat nat | IndexFlushTooLong nat nat
  | RequestTimeoutZero | RequestTimeoutTooLong nat nat
  | SqlitePath | SqliteMemory | SqliteDsn | PostgresDsn | PostgresPath

datatype graph_violation =
    DefaultNamespaces nat
  | PriceBlank | PriceProvider string | PriceGlob string | BlocklistGlob string
  | CredentialEnv string string | CredentialWeight string
  | CredentialDuplicate string string string | CredentialNamespace string | CredentialProvider string
  | KeyMissing | KeyMany | KeyBoth string | KeyNone string | KeyUndefinedNamespace string string

datatype bounds_violation =
    ErrorBytesExceedResponse
  | MaxTenantsZero | TenantAboveGlobal nat nat | StreamsAboveGlobal nat nat
  | PermitsTooMany string nat nat | QueueHalfSet | QueueWithoutCeiling | PendingBelowGlobal nat nat

datatype catalog_violation =
    CatalogSchedule invalid_schedule | SourceUrlInvalid | SourceUrlNotHttps string
  | SourceUrlHost | SourceUrlCredentials | SourceUrlEndpoint string
  | SourceUrlUnused catalog_source_backend | CatalogDsn

datatype usage_violation =
    SinkBatchExceedsBuffer nat nat | SinkDsn | SinkTable string
  | JournalDsn | JournalConsumer string | JournalConnections | JournalNoSink | JournalOnlyOtlp

datatype violation =
    Withdrawn "string list"
  | DiscoveryInterval
  | MustBePositive string
  | SchemaName string string
  | SchemaQualified string string
  | StorageViolation storage_violation
  | GraphViolation graph_violation
  | BoundsViolation bounds_violation
  | CatalogViolation catalog_violation
  | UsageViolation usage_violation

datatype config_error = Load string | Invalid violation

text \<open>The operations of \<open>reqwest::Url\<close> the validation calls.\<close>

record 'u url_api =
  url_parse :: "string \<Rightarrow> 'u option"
  url_scheme :: "'u \<Rightarrow> string"
  url_host :: "'u \<Rightarrow> string option"
  url_username :: "'u \<Rightarrow> string"
  url_password :: "'u \<Rightarrow> string option"

section \<open>Identifiers that reach SQL text\<close>

definition identifier_char :: "char \<Rightarrow> bool" where
  "identifier_char c \<longleftrightarrow> is_ascii_lowercase c \<or> is_ascii_digit c \<or> c = CHR ''_''"

definition table_part :: "string \<Rightarrow> bool" where
  "table_part part \<longleftrightarrow>
     part \<noteq> [] \<and> length part \<le> 63 \<and> (is_ascii_lowercase (hd part) \<or> hd part = CHR ''_'')
     \<and> list_all identifier_char part"

definition validate_table_name :: "string \<Rightarrow> bool" where
  "validate_table_name table =
     (let parts = split_on (CHR ''.'') table in length parts \<le> 2 \<and> list_all table_part parts)"

definition validate_schema_name :: "string \<Rightarrow> string \<Rightarrow> violation option" where
  "validate_schema_name key schema =
     first_refusal
       [refuse_if (\<not> validate_table_name schema) (SchemaName key schema),
        refuse_if (str_contains schema ''.'') (SchemaQualified key schema)]"

section \<open>Storage\<close>

definition WITHDRAWN_SECTIONS :: "string list" where
  "WITHDRAWN_SECTIONS =
     [''admin_breakglass'', ''admin_oidc'', ''budget'', ''control_plane'', ''convergence'',
      ''core_middleware'', ''gateway_minting'', ''gateway_token'', ''gateway_token_epoch'',
      ''gateway_verifier'', ''mode'', ''model'', ''rate_limit'', ''reload'', ''revocation'',
      ''secret_store'']"

definition reject_withdrawn_sections :: "config \<Rightarrow> violation option" where
  "reject_withdrawn_sections c =
     (let sections = filter (\<lambda>key. List.member (cfg_unrecognized c) key) WITHDRAWN_SECTIONS
      in refuse_if (sections \<noteq> []) (Withdrawn sections))"

definition blank :: "string option \<Rightarrow> bool" where
  "blank s \<longleftrightarrow> (case s of None \<Rightarrow> True | Some v \<Rightarrow> trim v = [])"

definition validate_backend :: "bool \<Rightarrow> storage_config \<Rightarrow> violation option" where
  "validate_backend allow_memory_sqlite s =
     (case storage_backend s of
        Sqlite \<Rightarrow>
          first_refusal
            [refuse_if (blank (storage_path s)) (StorageViolation SqlitePath),
             refuse_if (\<not> allow_memory_sqlite \<and> map_option trim (storage_path s) = Some '':memory:'')
               (StorageViolation SqliteMemory),
             refuse_if (\<not> blank (storage_dsn_env s)) (StorageViolation SqliteDsn)]
      | PostgresStore \<Rightarrow>
          first_refusal
            [refuse_if (blank (storage_dsn_env s)) (StorageViolation PostgresDsn),
             refuse_if (\<not> blank (storage_path s)) (StorageViolation PostgresPath)])"

definition validate_storage :: "nat \<Rightarrow> bool \<Rightarrow> config \<Rightarrow> violation option" where
  "validate_storage max_permits allow_memory_sqlite c =
     (case cfg_storage c of
        None \<Rightarrow> Some (StorageViolation StorageRequired)
      | Some s \<Rightarrow>
          (let index = usage_index s in
           first_refusal
             [refuse_if (index_buffer_capacity index = 0) (StorageViolation IndexBufferZero),
              refuse_if (max_permits < index_buffer_capacity index)
                (StorageViolation (IndexBufferTooLarge (index_buffer_capacity index) max_permits)),
              refuse_if (index_max_batch index = 0) (StorageViolation IndexBatchZero),
              refuse_if (MAX_USAGE_INDEX_BATCH < index_max_batch index)
                (StorageViolation (IndexBatchTooLarge (index_max_batch index) MAX_USAGE_INDEX_BATCH)),
              refuse_if (index_buffer_capacity index < index_max_batch index)
                (StorageViolation (IndexBatchExceedsBuffer (index_max_batch index) (index_buffer_capacity index))),
              refuse_if (MAX_USAGE_INDEX_FLUSH_INTERVAL_MS < index_flush_interval_ms index)
                (StorageViolation (IndexFlushTooLong (index_flush_interval_ms index) MAX_USAGE_INDEX_FLUSH_INTERVAL_MS)),
              refuse_if (request_timeout_ms s = 0) (StorageViolation RequestTimeoutZero),
              refuse_if (MAX_STORAGE_REQUEST_TIMEOUT_MS < request_timeout_ms s)
                (StorageViolation (RequestTimeoutTooLong (request_timeout_ms s) MAX_STORAGE_REQUEST_TIMEOUT_MS)),
              validate_backend allow_memory_sqlite s]))"

section \<open>Prices, blocklist and the credentials\<close>

definition provider_defined :: "config \<Rightarrow> string \<Rightarrow> bool" where
  "provider_defined c i \<longleftrightarrow> list_ex (\<lambda>p. provider_id p = i) (cfg_provider c)"

definition namespace_defined :: "config \<Rightarrow> string \<Rightarrow> bool" where
  "namespace_defined c i \<longleftrightarrow> list_ex (\<lambda>n. ns_id n = i) (cfg_namespace c)"

definition check_price_rule :: "config \<Rightarrow> price_rule \<Rightarrow> violation option" where
  "check_price_rule c r =
     first_refusal
       [refuse_if (trim (rule_provider r) = [] \<or> trim (rule_model r) = []) (GraphViolation PriceBlank),
        refuse_if (\<not> provider_defined c (rule_provider r)) (GraphViolation (PriceProvider (rule_provider r))),
        (case parse_glob (rule_model r) of Inl p \<Rightarrow> Some (GraphViolation (PriceGlob p)) | Inr _ \<Rightarrow> None)]"

definition validate_price_book :: "config \<Rightarrow> violation option" where
  "validate_price_book c = first_refusal (map (check_price_rule c) (cfg_price c))"

definition validate_blocklist :: "config \<Rightarrow> violation option" where
  "validate_blocklist c =
     first_refusal
       (map (\<lambda>pattern. case parse_glob pattern of Inl p \<Rightarrow> Some (GraphViolation (BlocklistGlob p)) | Inr _ \<Rightarrow> None)
         (cfg_blocklist c))"

text \<open>The loop over the credentials; \<open>labels\<close> are the labels met so far in each pool.\<close>

fun check_credentials ::
  "config \<Rightarrow> (string \<times> string \<Rightarrow> string list) \<Rightarrow> credential_config list \<Rightarrow> violation option" where
  "check_credentials c labels [] = None"
| "check_credentials c labels (k # ks) =
     (let pair = (cred_namespace k, cred_provider k);
          label = credential_label k
      in if blank (cred_env k) then Some (GraphViolation (CredentialEnv (cred_namespace k) (cred_provider k)))
         else if cred_weight k = 0 then Some (GraphViolation (CredentialWeight label))
         else if List.member (labels pair) label
         then Some (GraphViolation (CredentialDuplicate label (cred_namespace k) (cred_provider k)))
         else if \<not> namespace_defined c (cred_namespace k) then Some (GraphViolation (CredentialNamespace (cred_namespace k)))
         else if \<not> provider_defined c (cred_provider k) then Some (GraphViolation (CredentialProvider (cred_provider k)))
         else check_credentials c (labels(pair := labels pair @ [label])) ks)"

section \<open>Gateway keys\<close>

definition check_gateway_key :: "config \<Rightarrow> gateway_key \<Rightarrow> violation option" where
  "check_gateway_key c k =
     (let env = (case key_env k of Some v \<Rightarrow> v | None \<Rightarrow> []);
          file = (case key_file k of Some v \<Rightarrow> v | None \<Rightarrow> [])
      in first_refusal
           [refuse_if (trim env \<noteq> [] \<and> trim file \<noteq> []) (GraphViolation (KeyBoth (key_namespace k))),
            refuse_if (trim env = [] \<and> trim file = []) (GraphViolation (KeyNone (key_namespace k))),
            refuse_if (\<not> namespace_defined c (key_namespace k))
              (GraphViolation (KeyUndefinedNamespace (case source_label k of Some l \<Rightarrow> l | None \<Rightarrow> []) (key_namespace k)))])"

definition validate_gateway_keys :: "config \<Rightarrow> violation option" where
  "validate_gateway_keys c =
     first_refusal
       ([refuse_if (cfg_gateway_key c = []) (GraphViolation KeyMissing),
         refuse_if (1 < length (cfg_gateway_key c)) (GraphViolation KeyMany)]
        @ map (check_gateway_key c) (cfg_gateway_key c))"

section \<open>Process-local bounds\<close>

definition positive_fields :: "string \<Rightarrow> (string \<times> nat) list \<Rightarrow> violation option" where
  "positive_fields section_name fs =
     first_refusal (map (\<lambda>(field, v). refuse_if (v = 0) (MustBePositive (section_name @ ''.'' @ field))) fs)"

definition validate_admission :: "nat \<Rightarrow> admission_config \<Rightarrow> violation option" where
  "validate_admission max_permits a =
     first_refusal
       ([refuse_if (cfg_max_request_bytes a = 0) (MustBePositive ''admission.max_request_bytes''),
         refuse_if (0 < cfg_max_in_flight_per_tenant a \<and> cfg_max_tenants a = 0) (BoundsViolation MaxTenantsZero),
         refuse_if (0 < cfg_max_in_flight a \<and> cfg_max_in_flight_per_tenant_explicit a
                    \<and> cfg_max_in_flight a < cfg_max_in_flight_per_tenant a)
           (BoundsViolation (TenantAboveGlobal (cfg_max_in_flight_per_tenant a) (cfg_max_in_flight a))),
         refuse_if (0 < cfg_max_in_flight a \<and> cfg_max_in_flight_streams_explicit a
                    \<and> 0 < cfg_max_in_flight_streams a \<and> cfg_max_in_flight a < cfg_max_in_flight_streams a)
           (BoundsViolation (StreamsAboveGlobal (cfg_max_in_flight_streams a) (cfg_max_in_flight a)))]
        @ map (\<lambda>(field, v). refuse_if (max_permits < v) (BoundsViolation (PermitsTooMany field v max_permits)))
            [(''admission.max_in_flight'', cfg_max_in_flight a),
             (''admission.max_in_flight_streams'', cfg_max_in_flight_streams a),
             (''admission.queue_capacity'', cfg_queue_capacity a),
             (''admission.max_pending_settlements'', cfg_max_pending_settlements a),
             (''admission.max_in_flight_settlements'', cfg_max_in_flight_settlements a)]
        @ [refuse_if ((cfg_queue_capacity a = 0) \<noteq> (cfg_queue_wait_ms a = 0)) (BoundsViolation QueueHalfSet),
           refuse_if (0 < cfg_queue_capacity a \<and> cfg_max_in_flight a = 0) (BoundsViolation QueueWithoutCeiling),
           refuse_if (0 < cfg_max_in_flight a \<and> cfg_max_pending_settlements_explicit a
                      \<and> 0 < cfg_max_pending_settlements a
                      \<and> cfg_max_pending_settlements a < cfg_max_in_flight a)
             (BoundsViolation (PendingBelowGlobal (cfg_max_pending_settlements a) (cfg_max_in_flight a)))])"

definition SUPPORTED_PATH :: string where "SUPPORTED_PATH = ''/catalog.json''"

text \<open>\<open>ModelsDevAdapter::new\<close>, as whether it accepts the URL.\<close>

definition supported_endpoint :: "string \<Rightarrow> bool" where
  "supported_endpoint source_url =
     (let path = (case split_once_str source_url ''://'' of Some (_, rest) \<Rightarrow> rest | None \<Rightarrow> source_url);
          path = takeWhile (\<lambda>c. c \<noteq> CHR ''?'' \<and> c \<noteq> CHR ''#'') path
      in ends_with path SUPPORTED_PATH)"

definition has_authority :: "string \<Rightarrow> bool" where
  "has_authority url =
     (case split_once_str url ''://'' of
        None \<Rightarrow> False
      | Some (_, rest) \<Rightarrow> takeWhile (\<lambda>c. c \<noteq> CHR ''/'' \<and> c \<noteq> CHR ''?'' \<and> c \<noteq> CHR ''#'') rest \<noteq> [])"

definition validate_source_url :: "'u url_api \<Rightarrow> string \<Rightarrow> violation option" where
  "validate_source_url api url =
     (case url_parse api url of
        None \<Rightarrow> Some (CatalogViolation SourceUrlInvalid)
      | Some u \<Rightarrow>
          first_refusal
            [refuse_if (url_scheme api u \<noteq> ''https'') (CatalogViolation (SourceUrlNotHttps url)),
             refuse_if (url_host api u = None \<or> \<not> has_authority url) (CatalogViolation SourceUrlHost),
             refuse_if (url_username api u \<noteq> [] \<or> url_password api u \<noteq> None) (CatalogViolation SourceUrlCredentials),
             refuse_if (\<not> supported_endpoint url) (CatalogViolation (SourceUrlEndpoint url))])"

definition validate_catalog :: "'u url_api \<Rightarrow> catalog_config \<Rightarrow> violation option" where
  "validate_catalog api c =
     (if \<not> catalog_enabled c then None
      else first_refusal
        [positive_fields ''catalog''
           [(''refresh_interval_seconds'', catalog_refresh_interval_seconds c),
            (''refresh_timeout_seconds'', catalog_refresh_timeout_seconds c),
            (''retry_initial_seconds'', catalog_retry_initial_seconds c),
            (''retry_max_seconds'', catalog_retry_max_seconds c),
            (''connect_timeout_ms'', catalog_connect_timeout_ms c),
            (''operation_timeout_ms'', catalog_operation_timeout_ms c)],
         refuse_if (catalog_max_payload_bytes c = 0) (MustBePositive ''catalog.max_payload_bytes''),
         (case schedule_validate (catalog_schedule c) of Inl e \<Rightarrow> Some (CatalogViolation (CatalogSchedule e)) | Inr _ \<Rightarrow> None),
         (if catalog_source c = ModelsDevSource then validate_source_url api (catalog_url c)
          else refuse_if (catalog_source_url c \<noteq> None) (CatalogViolation (SourceUrlUnused (catalog_source c)))),
         (if catalog_store c = PostgresCatalog
          then first_refusal
            [refuse_if (blank (catalog_dsn_env c)) (CatalogViolation CatalogDsn),
             (case catalog_schema c of None \<Rightarrow> None | Some s \<Rightarrow> validate_schema_name ''catalog.schema'' s)]
          else None)])"

definition validate_process_local_bounds :: "'u url_api \<Rightarrow> nat \<Rightarrow> config \<Rightarrow> violation option" where
  "validate_process_local_bounds api max_permits c =
     (let t = cfg_transport c; s = cfg_shutdown c in
      first_refusal
        [validate_admission max_permits (cfg_admission c),
         positive_fields ''transport''
           [(''connect_timeout_ms'', connect_timeout_ms t),
            (''response_header_timeout_ms'', response_header_timeout_ms t),
            (''buffered_body_timeout_ms'', buffered_body_timeout_ms t),
            (''stream_idle_timeout_ms'', stream_idle_timeout_ms t),
            (''stream_terminal_grace_ms'', stream_terminal_grace_ms t),
            (''max_response_bytes'', max_response_bytes t), (''max_error_bytes'', max_error_bytes t)],
         refuse_if (max_response_bytes t < max_error_bytes t) (BoundsViolation ErrorBytesExceedResponse),
         positive_fields ''shutdown''
           [(''deadline_ms'', deadline_ms s), (''flush_timeout_ms'', flush_timeout_ms s)],
         validate_catalog api (cfg_catalog c)])"

section \<open>Sinks and the journal\<close>

definition check_usage_sink :: "usage_sink_config \<Rightarrow> violation option" where
  "check_usage_sink s =
     (if sink_kind s = PostgresSink
      then first_refusal
        [refuse_if (sink_buffer_capacity s = 0) (MustBePositive ''usage_sink.buffer_capacity''),
         refuse_if (sink_max_batch s = 0) (MustBePositive ''usage_sink.max_batch''),
         refuse_if (sink_max_batch_explicit s \<and> sink_buffer_capacity s < sink_max_batch s)
           (UsageViolation (SinkBatchExceedsBuffer (sink_max_batch s) (sink_buffer_capacity s))),
         refuse_if (sink_flush_interval_ms s = 0) (MustBePositive ''usage_sink.flush_interval_ms''),
         refuse_if (blank (sink_dsn_env s)) (UsageViolation SinkDsn),
         refuse_if (\<not> validate_table_name (sink_table_name s)) (UsageViolation (SinkTable (sink_table_name s)))]
      else None)"

definition validate_usage_journal :: "config \<Rightarrow> violation option" where
  "validate_usage_journal c =
     (let j = cfg_usage_journal c in
      if journal_backend j \<noteq> PostgresJournal then None
      else first_refusal
        [refuse_if (blank (journal_dsn_env j)) (UsageViolation JournalDsn),
         (case journal_schema j of
            None \<Rightarrow> None | Some s \<Rightarrow> validate_schema_name ''usage_journal.schema'' s),
         (case consumer_id_parse (journal_consumer j) of
            Inl _ \<Rightarrow> Some (UsageViolation (JournalConsumer (journal_consumer j))) | Inr _ \<Rightarrow> None),
         refuse_if (journal_max_events j = 0) (MustBePositive ''usage_journal.max_events''),
         refuse_if (journal_max_delivery_attempts j = 0)
           (MustBePositive ''usage_journal.max_delivery_attempts''),
         refuse_if (journal_claim_batch j = 0) (MustBePositive ''usage_journal.claim_batch''),
         refuse_if (journal_connections j < 2) (UsageViolation JournalConnections),
         positive_fields ''usage_journal''
           [(''operation_timeout_ms'', journal_operation_timeout_ms j),
            (''connect_timeout_ms'', journal_connect_timeout_ms j),
            (''poll_interval_ms'', journal_poll_interval_ms j),
            (''lease_seconds'', journal_lease_seconds j),
            (''retain_acknowledged_seconds'', journal_retain_acknowledged_seconds j)],
         refuse_if (cfg_usage_sink c = []) (UsageViolation JournalNoSink),
         refuse_if (list_all (\<lambda>s. sink_kind s = OtlpSink) (cfg_usage_sink c)) (UsageViolation JournalOnlyOtlp)])"

definition validate_usage_sinks :: "config \<Rightarrow> violation option" where
  "validate_usage_sinks c =
     first_refusal (map check_usage_sink (cfg_usage_sink c) @ [validate_usage_journal c])"

section \<open>The whole graph\<close>

definition validate_resource_graph :: "'u url_api \<Rightarrow> nat \<Rightarrow> config \<Rightarrow> violation option" where
  "validate_resource_graph api max_permits c =
     (let defaults = length (filter ns_default (cfg_namespace c)) in
      first_refusal
        [refuse_if (defaults \<noteq> 1) (GraphViolation (DefaultNamespaces defaults)),
         validate_price_book c,
         validate_blocklist c,
         refuse_if (pool_failure_threshold (cfg_credential_pool c) = 0)
           (MustBePositive ''credential_pool.failure_threshold''),
         refuse_if (pool_cooldown_seconds (cfg_credential_pool c) = 0)
           (MustBePositive ''credential_pool.cooldown_seconds''),
         refuse_if (max_attempts (cfg_failover c) = 0) (MustBePositive ''failover.max_attempts''),
         refuse_if (overall_timeout_ms (cfg_failover c) = 0) (MustBePositive ''failover.overall_timeout_ms''),
         refuse_if (failover_failure_threshold (cfg_failover c) = 0)
           (MustBePositive ''failover.failure_threshold''),
         refuse_if (failover_cooldown_seconds (cfg_failover c) = 0)
           (MustBePositive ''failover.cooldown_seconds''),
         validate_process_local_bounds api max_permits c,
         check_credentials c (\<lambda>_. []) (cfg_credential c),
         validate_gateway_keys c,
         validate_usage_sinks c])"

definition validate_inner :: "'u url_api \<Rightarrow> nat \<Rightarrow> bool \<Rightarrow> config \<Rightarrow> (config_error, unit) result" where
  "validate_inner api max_permits allow_memory_sqlite c =
     (case first_refusal
             [reject_withdrawn_sections c,
              validate_storage max_permits allow_memory_sqlite c,
              refuse_if (cfg_discovery_refresh_interval_seconds c = 0) DiscoveryInterval,
              validate_resource_graph api max_permits c] of
        Some v \<Rightarrow> Inl (Invalid v)
      | None \<Rightarrow> Inr ())"

definition config_validate :: "'u url_api \<Rightarrow> nat \<Rightarrow> config \<Rightarrow> (config_error, unit) result" where
  "config_validate api max_permits c = validate_inner api max_permits False c"

end
