(* ===== verification/Config_Laws.thy ===== *)
theory Config_Laws
  imports Config_Validation
begin

text \<open>
  What a configuration that passed validation gives the components that read it: references that
  resolve, pools without repeated labels, ceilings that fit together, identifiers that are safe in
  SQL text, and globs that mean what they match.
\<close>

section \<open>What the checks establish\<close>

lemma validated_parts:
  assumes "config_validate api mp c = Inr ()"
  shows "reject_withdrawn_sections c = None" "validate_storage mp False c = None"
    "cfg_discovery_refresh_interval_seconds c \<noteq> 0" "validate_resource_graph api mp c = None"
  using assms
  by (auto simp: config_validate_def validate_inner_def first_refusal_None split: option.splits)

lemma graph_parts:
  assumes "validate_resource_graph api mp c = None"
  shows "length (filter ns_default (cfg_namespace c)) = 1" "validate_price_book c = None"
    "validate_blocklist c = None" "pool_failure_threshold (cfg_credential_pool c) \<noteq> 0"
    "0 < pool_cooldown_seconds (cfg_credential_pool c)" "0 < max_attempts (cfg_failover c)"
    "failover_failure_threshold (cfg_failover c) \<noteq> 0" "0 < failover_cooldown_seconds (cfg_failover c)"
    "validate_process_local_bounds api mp c = None"
    "check_credentials c (\<lambda>_. []) (cfg_credential c) = None" "validate_gateway_keys c = None"
    "validate_usage_sinks c = None"
  using assms by (simp_all add: validate_resource_graph_def Let_def first_refusal_None)

lemma bounds_parts:
  assumes "validate_process_local_bounds api mp c = None"
  shows "validate_admission mp (cfg_admission c) = None" "validate_catalog api (cfg_catalog c) = None"
  using assms by (simp_all add: validate_process_local_bounds_def Let_def first_refusal_None)

lemma is_ok_iff: "is_ok r \<longleftrightarrow> (\<forall>e. r \<noteq> Inl e)"
  by (cases r) simp_all

lemma find_ex: "list_ex P xs \<longleftrightarrow> find P xs \<noteq> None"
  by (auto simp: find_None_iff list_ex_iff)

lemma provider_defined_iff: "provider_defined c i \<longleftrightarrow> config_provider c i \<noteq> None"
  by (simp add: provider_defined_def config_provider_def find_ex)

lemma namespace_defined_iff: "namespace_defined c i \<longleftrightarrow> config_namespace c i \<noteq> None"
  by (simp add: namespace_defined_def config_namespace_def find_ex)

lemma find_filter: "filter P xs = [x] \<Longrightarrow> find P xs = Some x"
  by (induction xs) (auto split: if_splits)

definition pool_of :: "credential_config \<Rightarrow> string \<times> string" where
  "pool_of k = (cred_namespace k, cred_provider k)"

lemma check_credentials_fields:
  "check_credentials c labels ks = None \<Longrightarrow> k \<in> set ks \<Longrightarrow>
     \<not> blank (cred_env k) \<and> cred_weight k \<noteq> 0
     \<and> config_namespace c (cred_namespace k) \<noteq> None \<and> config_provider c (cred_provider k) \<noteq> None"
  by (induction c labels ks rule: check_credentials.induct)
    (auto simp: Let_def provider_defined_iff namespace_defined_iff split: if_splits)

lemma check_credentials_distinct:
  "check_credentials c labels ks = None \<Longrightarrow> distinct (labels pair) \<Longrightarrow>
     distinct (labels pair @ map credential_label (filter (\<lambda>k. pool_of k = pair) ks))"
proof (induction ks arbitrary: labels)
  case (Cons k ks)
  let ?labels = "labels(pool_of k := labels (pool_of k) @ [credential_label k])"
  have fresh: "credential_label k \<notin> set (labels (pool_of k))"
    and rest: "check_credentials c ?labels ks = None"
    using Cons.prems(1) by (auto simp: Let_def pool_of_def split: if_splits)
  have "distinct (?labels pair)" using Cons.prems(2) fresh by auto
  from Cons.IH [OF rest this] show ?case by (auto split: if_splits)
qed simp

lemma gateway_key_valid:
  assumes "check_gateway_key c k = None"
  shows "key_source k \<noteq> None" "config_namespace c (key_namespace k) \<noteq> None"
  using assms
  by (auto simp: check_gateway_key_def Let_def first_refusal_None key_source_def non_blank_def
      namespace_defined_iff trim_graphic split: option.splits if_splits)

lemma gateway_keys_valid:
  assumes "validate_gateway_keys c = None"
  obtains k where "cfg_gateway_key c = [k]" "key_source k \<noteq> None"
    "config_namespace c (key_namespace k) \<noteq> None"
proof -
  from assms obtain k where k: "cfg_gateway_key c = [k]"
    by (cases "cfg_gateway_key c" rule: remdups_adj.cases)
      (auto simp: validate_gateway_keys_def first_refusal_None)
  with assms have "check_gateway_key c k = None" by (simp add: validate_gateway_keys_def first_refusal_None)
  with k that gateway_key_valid show thesis by blast
qed

section \<open>Globs\<close>

lemma glob_permits_matches:
  assumes "is_ok (parse_glob pattern)"
  shows "glob_permits pattern v \<longleftrightarrow> glob_matches pattern v"
proof -
  obtain q where "parse_pattern pattern = Inr q"
    using assms by (cases "parse_pattern pattern") (auto simp: parse_glob_def scope_parse_def)
  with parse_pattern_matches [OF this] show ?thesis
    by (simp add: glob_permits_def parse_glob_def scope_parse_def scope_permits_def)
qed

lemma find_price_globs:
  "\<forall>r\<in>set rs. is_ok (parse_glob (rule_model r)) \<Longrightarrow>
     find_price p m rs =
       map_option rule_price (find (\<lambda>r. rule_provider r = p \<and> glob_matches (rule_model r) m) rs)"
  by (induction rs) (auto simp: glob_permits_matches)

lemma price_book_globs:
  "validate_price_book c = None \<Longrightarrow> r \<in> set (cfg_price c) \<Longrightarrow>
     is_ok (parse_glob (rule_model r)) \<and> config_provider c (rule_provider r) \<noteq> None"
  by (auto simp: validate_price_book_def first_refusal_None list_all_iff check_price_rule_def
      provider_defined_iff is_ok_iff split: sum.splits)

lemma blocklist_globs: "validate_blocklist c = None \<Longrightarrow> p \<in> set (cfg_blocklist c) \<Longrightarrow> is_ok (parse_glob p)"
  by (auto simp: validate_blocklist_def first_refusal_None list_all_iff is_ok_iff split: sum.splits)

section \<open>Identifiers\<close>

text \<open>
  What is safe to interpolate into SQL text: at most 63 lowercase letters, digits and underscores, of
  which the first is not a digit; a table name is one of these or two with a dot between them.
\<close>

definition plain_identifier :: "string \<Rightarrow> bool" where
  "plain_identifier name \<longleftrightarrow>
     name \<noteq> [] \<and> length name \<le> 63
     \<and> set name \<subseteq> set ''abcdefghijklmnopqrstuvwxyz0123456789_''
     \<and> hd name \<in> set ''abcdefghijklmnopqrstuvwxyz_''"

definition plain_table :: "string \<Rightarrow> bool" where
  "plain_table table \<longleftrightarrow>
     plain_identifier table
     \<or> (\<exists>schema name. table = schema @ ''.'' @ name \<and> plain_identifier schema \<and> plain_identifier name)"

lemma identifier_char_in: "identifier_char c \<longleftrightarrow> c \<in> set ''abcdefghijklmnopqrstuvwxyz0123456789_''"
proof -
  have "\<forall>c. identifier_char c \<longleftrightarrow> c \<in> set ''abcdefghijklmnopqrstuvwxyz0123456789_''" by code_simp
  then show ?thesis by blast
qed

lemma leading_char_in: "is_ascii_lowercase c \<or> c = CHR ''_'' \<longleftrightarrow> c \<in> set ''abcdefghijklmnopqrstuvwxyz_''"
proof -
  have "\<forall>c. is_ascii_lowercase c \<or> c = CHR ''_'' \<longleftrightarrow> c \<in> set ''abcdefghijklmnopqrstuvwxyz_''" by code_simp
  then show ?thesis by blast
qed

lemma table_part_plain: "table_part part = plain_identifier part"
  unfolding table_part_def plain_identifier_def list_all_iff identifier_char_in leading_char_in by blast

lemma split_on_one: "split_on d s = [x] \<Longrightarrow> s = x \<and> d \<notin> set s"
  by (induction s arbitrary: x) (auto simp: split_on_nonempty split: if_splits list.splits)

lemma split_on_two: "split_on d s = [x, y] \<Longrightarrow> s = x @ d # y"
  by (induction s arbitrary: x) (auto dest: split_on_one split: if_splits list.splits)

lemma table_name_plain:
  assumes "validate_table_name table"
  shows "plain_table table"
proof -
  let ?parts = "split_on (CHR ''.'') table"
  have parts: "length ?parts \<le> 2" "\<forall>p\<in>set ?parts. plain_identifier p"
    using assms by (auto simp: validate_table_name_def Let_def list_all_iff table_part_plain)
  then consider x where "?parts = [x]" | x y where "?parts = [x, y]"
    using split_on_nonempty [of "CHR ''.''" table]
    by (cases ?parts) (auto simp: le_Suc_eq length_Suc_conv numeral_2_eq_2)
  then show ?thesis
  proof cases
    case 1
    with parts(2) split_on_one [OF 1] show ?thesis by (simp add: plain_table_def)
  next
    case 2
    with parts(2) split_on_two [OF 2] show ?thesis by (auto simp: plain_table_def)
  qed
qed

lemma str_contains_char: "c \<in> set s \<Longrightarrow> str_contains s [c]"
  by (induction s) (auto simp: starts_with_def)

lemma schema_name_plain:
  "validate_schema_name key schema = None \<Longrightarrow> plain_identifier schema"
  using table_name_plain [of schema] str_contains_char [of "CHR ''.''" schema]
  by (auto simp: validate_schema_name_def first_refusal_None plain_table_def)

section \<open>Ceilings\<close>

lemma admission_parts:
  assumes "validate_admission mp a = None"
  shows "0 < cfg_max_request_bytes a" "0 < cfg_max_in_flight_per_tenant a \<Longrightarrow> 0 < cfg_max_tenants a"
    "0 < cfg_max_in_flight a \<Longrightarrow> cfg_max_in_flight_per_tenant_explicit a \<Longrightarrow>
       cfg_max_in_flight_per_tenant a \<le> cfg_max_in_flight a"
    "0 < cfg_max_in_flight a \<Longrightarrow> cfg_max_in_flight_streams_explicit a \<Longrightarrow>
       cfg_max_in_flight_streams a \<le> cfg_max_in_flight a"
    "0 < cfg_max_in_flight a \<Longrightarrow> cfg_max_pending_settlements_explicit a \<Longrightarrow>
       cfg_max_pending_settlements a = 0 \<or> cfg_max_in_flight a \<le> cfg_max_pending_settlements a"
    "cfg_max_in_flight a \<le> mp" "cfg_max_in_flight_streams a \<le> mp" "cfg_queue_capacity a \<le> mp"
    "cfg_max_pending_settlements a \<le> mp" "cfg_max_in_flight_settlements a \<le> mp"
    "0 < cfg_queue_capacity a \<Longrightarrow> 0 < cfg_queue_wait_ms a \<and> 0 < cfg_max_in_flight a"
  using assms by (auto simp: validate_admission_def first_refusal_None)

lemma pending_default_covers:
  "0 < n \<Longrightarrow> n \<le> mp \<Longrightarrow> n \<le> usize_max \<Longrightarrow> n \<le> default_max_pending_settlements mp n"
  by (simp add: default_max_pending_settlements_def)

text \<open>
  The ceilings of a validated \<open>[admission]\<close> section as read from the file, written or defaulted.
\<close>

lemma wire_ceilings:
  fixes w mp defines "a \<equiv> admission_from_wire mp w"
  assumes valid: "validate_admission mp a = None" and on: "0 < cfg_max_in_flight a"
    and usize: "cfg_max_in_flight a \<le> usize_max"
  shows "cfg_max_in_flight_per_tenant a \<le> cfg_max_in_flight a"
    and "cfg_max_in_flight_streams a \<le> cfg_max_in_flight a"
    and "cfg_max_pending_settlements a = 0 \<or> cfg_max_in_flight a \<le> cfg_max_pending_settlements a"
proof -
  let ?n = "wire_max_in_flight w"
  note parts = admission_parts [OF valid]
  have n: "cfg_max_in_flight a = ?n" by (simp add: a_def admission_from_wire_def Let_def split: prod.splits)
  show "cfg_max_in_flight_per_tenant a \<le> cfg_max_in_flight a"
    using parts(3) on n
    by (cases "wire_max_in_flight_per_tenant w")
      (auto simp: a_def admission_from_wire_def tenant_ceiling_def Let_def split: prod.splits if_splits)
  show "cfg_max_in_flight_streams a \<le> cfg_max_in_flight a"
    using parts(4) on n
    by (cases "wire_max_in_flight_streams w")
      (auto simp: a_def admission_from_wire_def clamp_written_def Let_def split: prod.splits if_splits)
  show "cfg_max_pending_settlements a = 0 \<or> cfg_max_in_flight a \<le> cfg_max_pending_settlements a"
    using parts(5,6) on n usize pending_default_covers [of ?n mp]
    by (cases "wire_max_pending_settlements w")
      (auto simp: a_def admission_from_wire_def Let_def split: prod.splits)
qed

lemma unwritten_ceilings:
  assumes "wire_max_in_flight_streams w = None" "wire_max_in_flight_per_tenant w = None"
    "wire_max_pending_settlements w = None"
  shows "validate_admission mp (admission_from_wire mp w) = None \<longleftrightarrow>
    0 < wire_max_request_bytes w \<and> wire_max_in_flight w \<le> mp \<and> wire_queue_capacity w \<le> mp
    \<and> wire_max_in_flight_settlements w \<le> mp
    \<and> (0 < wire_queue_capacity w \<longleftrightarrow> 0 < wire_queue_wait_ms w)
    \<and> (0 < wire_queue_capacity w \<longrightarrow> 0 < wire_max_in_flight w)
    \<and> (wire_max_tenants w = 0 \<longrightarrow>
         0 < wire_max_in_flight w \<and> wire_max_in_flight w \<le> default_max_in_flight_per_tenant)
    \<and> (wire_max_in_flight w = 0 \<longrightarrow> default_max_in_flight_streams \<le> mp)"
  using assms
  by (auto simp: admission_from_wire_def Let_def clamp_written_def tenant_ceiling_def validate_admission_def
      first_refusal_None default_max_pending_settlements_def default_max_in_flight_per_tenant_def
      min.coboundedI1 min.coboundedI2 split: if_splits)

section \<open>Properties\<close>

text \<open>
  C31. A configuration that passes validation is coherent: exactly one namespace is the default and
  it is the one \<open>default_namespace\<close> answers; every credential, gateway key and price rule names
  something the file defines; every credential has a material source and a positive weight, and no
  pool holds a label twice; there is exactly one gateway key and it has exactly one source; and
  every threshold and cooldown is positive.
\<close>

theorem validated_config_is_coherent:
  assumes "config_validate api mp c = Inr ()"
  shows "(\<exists>n. filter ns_default (cfg_namespace c) = [n] \<and> default_namespace c = ns_id n)
    \<and> (\<forall>k\<in>set (cfg_credential c). \<not> blank (cred_env k) \<and> cred_weight k \<noteq> 0
         \<and> config_namespace c (cred_namespace k) \<noteq> None \<and> config_provider c (cred_provider k) \<noteq> None)
    \<and> (\<forall>pair. distinct (map credential_label (filter (\<lambda>k. pool_of k = pair) (cfg_credential c))))
    \<and> (\<exists>k. cfg_gateway_key c = [k] \<and> key_source k \<noteq> None \<and> config_namespace c (key_namespace k) \<noteq> None)
    \<and> (\<forall>r\<in>set (cfg_price c). config_provider c (rule_provider r) \<noteq> None)
    \<and> pool_failure_threshold (cfg_credential_pool c) \<noteq> 0 \<and> 0 < pool_cooldown_seconds (cfg_credential_pool c)
    \<and> failover_failure_threshold (cfg_failover c) \<noteq> 0 \<and> 0 < failover_cooldown_seconds (cfg_failover c)"
proof -
  note graph = graph_parts [OF validated_parts(4) [OF assms]]
  obtain n where n: "filter ns_default (cfg_namespace c) = [n]"
    using graph(1) by (auto simp: length_Suc_conv)
  then have "default_namespace c = ns_id n" by (simp add: default_namespace_def find_filter)
  moreover have "distinct (map credential_label (filter (\<lambda>k. pool_of k = pair) (cfg_credential c)))" for pair
    using check_credentials_distinct [OF graph(10), of pair] by simp
  ultimately show ?thesis
    using n graph(4-8) check_credentials_fields [OF graph(10)] price_book_globs [OF graph(2)]
      gateway_keys_valid [OF graph(11)]
    by metis
qed

text \<open>
  C32. Admission ceilings fit together.  However the section is written, a validated one keeps the
  tenant and stream ceilings within the global one, sizes the settlement ceiling for every admitted
  request, bounds every queue in size, in time and by a global ceiling, and asks none of the five
  semaphores (requests, streams, queue, pending and running settlements) for more permits than one
  can hold.  With the stream, tenant and settlement ceilings left out, validation is exactly a
  judgement of the rest: the request size is positive, the written ceilings and the queue fit a
  semaphore, the queue has a size, a wait and a global ceiling or neither size nor wait, the tenant
  table has room for a tenant whenever the default tenant ceiling is in force, and a gateway with no
  global ceiling can hold the default of the streams.
\<close>

theorem admission_ceilings_fit:
  fixes w mp defines "a \<equiv> admission_from_wire mp w"
  shows "(validate_admission mp a = None \<and> cfg_max_in_flight a \<le> usize_max \<longrightarrow>
      (\<forall>g. max_in_flight (limits_from_config a) = Some g \<longrightarrow>
          g \<le> mp
          \<and> (\<forall>t. max_in_flight_per_tenant (limits_from_config a) = Some t \<longrightarrow> t \<le> g)
          \<and> (\<forall>s. max_in_flight_streams (limits_from_config a) = Some s \<longrightarrow> s \<le> g)
          \<and> (cfg_max_pending_settlements a = 0 \<or> g \<le> cfg_max_pending_settlements a))
      \<and> (\<forall>q. queue_capacity (limits_from_config a) = Some q \<longrightarrow>
          q \<le> mp \<and> 0 < queue_wait (limits_from_config a) \<and> max_in_flight (limits_from_config a) \<noteq> None)
      \<and> (\<forall>s. max_in_flight_streams (limits_from_config a) = Some s \<longrightarrow> s \<le> mp)
      \<and> cfg_max_pending_settlements a \<le> mp \<and> cfg_max_in_flight_settlements a \<le> mp)
    \<and> (wire_max_in_flight_streams w = None \<and> wire_max_in_flight_per_tenant w = None
       \<and> wire_max_pending_settlements w = None \<longrightarrow>
         (validate_admission mp a = None \<longleftrightarrow>
            0 < wire_max_request_bytes w \<and> wire_max_in_flight w \<le> mp \<and> wire_queue_capacity w \<le> mp
            \<and> wire_max_in_flight_settlements w \<le> mp
            \<and> (0 < wire_queue_capacity w \<longleftrightarrow> 0 < wire_queue_wait_ms w)
            \<and> (0 < wire_queue_capacity w \<longrightarrow> 0 < wire_max_in_flight w)
            \<and> (wire_max_tenants w = 0 \<longrightarrow>
                 0 < wire_max_in_flight w \<and> wire_max_in_flight w \<le> default_max_in_flight_per_tenant)
            \<and> (wire_max_in_flight w = 0 \<longrightarrow> default_max_in_flight_streams \<le> mp)))"
proof (intro conjI impI)
  assume valid: "validate_admission mp a = None \<and> cfg_max_in_flight a \<le> usize_max"
  note parts = admission_parts [OF conjunct1 [OF valid]]
  show "(\<forall>g. max_in_flight (limits_from_config a) = Some g \<longrightarrow>
          g \<le> mp
          \<and> (\<forall>t. max_in_flight_per_tenant (limits_from_config a) = Some t \<longrightarrow> t \<le> g)
          \<and> (\<forall>s. max_in_flight_streams (limits_from_config a) = Some s \<longrightarrow> s \<le> g)
          \<and> (cfg_max_pending_settlements a = 0 \<or> g \<le> cfg_max_pending_settlements a))"
    using wire_ceilings [of mp w] valid parts(6) by (auto simp: limits_from_config_def bound_def a_def split: if_splits)
  show "\<forall>q. queue_capacity (limits_from_config a) = Some q \<longrightarrow>
          q \<le> mp \<and> 0 < queue_wait (limits_from_config a) \<and> max_in_flight (limits_from_config a) \<noteq> None"
    using parts(8,11) by (auto simp: limits_from_config_def bound_def from_millis_def split: if_splits)
  show "\<forall>s. max_in_flight_streams (limits_from_config a) = Some s \<longrightarrow> s \<le> mp"
    using parts(7) by (auto simp: limits_from_config_def bound_def split: if_splits)
  show "cfg_max_pending_settlements a \<le> mp" "cfg_max_in_flight_settlements a \<le> mp" using parts(9,10) by blast+
next
  assume "wire_max_in_flight_streams w = None \<and> wire_max_in_flight_per_tenant w = None
       \<and> wire_max_pending_settlements w = None"
  then show "validate_admission mp a = None \<longleftrightarrow>
            0 < wire_max_request_bytes w \<and> wire_max_in_flight w \<le> mp \<and> wire_queue_capacity w \<le> mp
            \<and> wire_max_in_flight_settlements w \<le> mp
            \<and> (0 < wire_queue_capacity w \<longleftrightarrow> 0 < wire_queue_wait_ms w)
            \<and> (0 < wire_queue_capacity w \<longrightarrow> 0 < wire_max_in_flight w)
            \<and> (wire_max_tenants w = 0 \<longrightarrow>
                 0 < wire_max_in_flight w \<and> wire_max_in_flight w \<le> default_max_in_flight_per_tenant)
            \<and> (wire_max_in_flight w = 0 \<longrightarrow> default_max_in_flight_streams \<le> mp)"
    unfolding a_def by (simp add: unwritten_ceilings)
qed

lemma storage_parts:
  assumes "validate_storage mp b c = None"
  obtains s where "cfg_storage c = Some s" "0 < index_buffer_capacity (usage_index s)"
    "0 < index_max_batch (usage_index s)" "index_max_batch (usage_index s) \<le> MAX_USAGE_INDEX_BATCH"
    "index_max_batch (usage_index s) \<le> index_buffer_capacity (usage_index s)"
  using assms by (auto simp: validate_storage_def Let_def first_refusal_None split: option.splits)

lemma index_settings_are_bounded:
  assumes "0 < index_buffer_capacity i" "0 < index_max_batch i" "index_max_batch i \<le> MAX_USAGE_INDEX_BATCH"
    and "index_max_batch i \<le> index_buffer_capacity i"
  shows "index_settings_bounded (index_settings i) = index_settings i"
  using assms by (simp add: index_settings_bounded_def index_settings_def usage_index_settings_default_def Let_def)

lemma sinks_parts:
  assumes "validate_usage_sinks c = None"
  shows "s \<in> set (cfg_usage_sink c) \<Longrightarrow> check_usage_sink s = None" "validate_usage_journal c = None"
  using assms by (auto simp: validate_usage_sinks_def first_refusal_None list_all_iff)

lemma postgres_sink_valid:
  assumes "check_usage_sink s = None" "sink_kind s = PostgresSink"
  shows "1 \<le> batch_max_batch (batch_settings_of s)"
    "batch_max_batch (batch_settings_of s) \<le> batch_capacity (batch_settings_of s)"
    "0 < batch_flush_interval (batch_settings_of s)" "validate_table_name (sink_table_name s)"
  using assms by (auto simp: check_usage_sink_def first_refusal_None batch_settings_of_def from_millis_def)

lemma journal_valid:
  assumes "validate_usage_journal c = None" "journal_backend (cfg_usage_journal c) = PostgresJournal"
  shows "0 < max_events (journal_capacity (cfg_usage_journal c))"
    "0 < max_delivery_attempts (journal_capacity (cfg_usage_journal c))"
    "is_ok (consumer_id_parse (journal_consumer (cfg_usage_journal c)))"
    "\<exists>s\<in>set (cfg_usage_sink c). sink_kind s \<noteq> OtlpSink"
    "journal_schema (cfg_usage_journal c) = Some name \<Longrightarrow> plain_identifier name"
  using assms
  by (auto simp: validate_usage_journal_def Let_def first_refusal_None journal_capacity_def is_ok_iff
      list_all_iff dest: schema_name_plain split: sum.splits)

lemma catalog_valid:
  assumes "validate_catalog api c = None" "catalog_enabled c"
  shows "is_ok (validate_policy (schedule_backoff (catalog_schedule c)))"
    "policy_max (schedule_backoff (catalog_schedule c)) \<le> schedule_interval (catalog_schedule c)"
    "schedule_timeout (catalog_schedule c) \<le> schedule_interval (catalog_schedule c)"
    "catalog_store c = PostgresCatalog \<Longrightarrow> catalog_schema c = Some name \<Longrightarrow> plain_identifier name"
  using assms
  by (auto simp: validate_catalog_def first_refusal_None schedule_validate_def is_ok_iff
      dest: schema_name_plain split: sum.splits if_splits)

text \<open>
  C33. What a validated configuration hands the components meets what they assume: the usage index
  runs under the settings as written, its worker's own clamping changing nothing; every Postgres sink
  batches at least one row and never more than it buffers; the journal holds and delivers at least one
  event, under a consumer name that parses, and has a destination that can answer for a write; the
  catalogue refresh has a valid retry policy that never refreshes less often than its interval and a
  timeout within it; and every name that reaches SQL text is a plain identifier (at most 63 lowercase
  letters, digits and underscores, the first no digit): the schemas of the journal and of the
  catalogue, and a sink's table, which may be two of them with a dot between.
\<close>

theorem validated_config_feeds_components:
  assumes "config_validate api mp c = Inr ()"
  shows "(\<exists>s. cfg_storage c = Some s
       \<and> index_settings_bounded (index_settings (usage_index s)) = index_settings (usage_index s))
    \<and> (\<forall>s\<in>set (cfg_usage_sink c). sink_kind s = PostgresSink \<longrightarrow>
         1 \<le> batch_max_batch (batch_settings_of s)
         \<and> batch_max_batch (batch_settings_of s) \<le> batch_capacity (batch_settings_of s)
         \<and> plain_table (sink_table_name s))
    \<and> (journal_backend (cfg_usage_journal c) = PostgresJournal \<longrightarrow>
         0 < max_events (journal_capacity (cfg_usage_journal c))
         \<and> 0 < max_delivery_attempts (journal_capacity (cfg_usage_journal c))
         \<and> is_ok (consumer_id_parse (journal_consumer (cfg_usage_journal c)))
         \<and> (\<exists>s\<in>set (cfg_usage_sink c). sink_kind s \<noteq> OtlpSink)
         \<and> (\<forall>name. journal_schema (cfg_usage_journal c) = Some name \<longrightarrow> plain_identifier name))
    \<and> (catalog_enabled (cfg_catalog c) \<longrightarrow>
         is_ok (validate_policy (schedule_backoff (catalog_schedule (cfg_catalog c))))
         \<and> policy_max (schedule_backoff (catalog_schedule (cfg_catalog c)))
             \<le> schedule_interval (catalog_schedule (cfg_catalog c))
         \<and> schedule_timeout (catalog_schedule (cfg_catalog c)) \<le> schedule_interval (catalog_schedule (cfg_catalog c))
         \<and> (catalog_store (cfg_catalog c) = PostgresCatalog \<longrightarrow>
              (\<forall>name. catalog_schema (cfg_catalog c) = Some name \<longrightarrow> plain_identifier name)))"
proof -
  note storage = validated_parts(2) [OF assms] and graph = graph_parts [OF validated_parts(4) [OF assms]]
  note sinks = sinks_parts [OF graph(12)] and catalog = bounds_parts(2) [OF graph(9)]
  show ?thesis
  proof (intro conjI ballI impI allI)
    show "\<exists>s. cfg_storage c = Some s
       \<and> index_settings_bounded (index_settings (usage_index s)) = index_settings (usage_index s)"
      by (rule storage_parts [OF storage]) (use index_settings_are_bounded in blast)
  qed (use sinks postgres_sink_valid table_name_plain journal_valid [OF sinks(2)] catalog_valid [OF catalog] in auto)
qed

text \<open>
  C34. Prices and blocks are globs in file order: with a validated configuration a model is priced by
  the first rule of its provider whose glob matches it and is unpriced when there is none, and it is
  blocked exactly when one of the deployment's globs or of the namespace's well-formed ones matches
  its prefixed or its bare name.
\<close>

theorem prices_and_blocks_are_globs:
  assumes "config_validate api mp c = Inr ()" and "\<forall>p\<in>set extra. is_ok (parse_glob p)"
  shows "config_price_for c p m =
      map_option rule_price (find (\<lambda>r. rule_provider r = p \<and> glob_matches (rule_model r) m) (cfg_price c))
    \<and> (is_blocked c prefixed bare extra \<longleftrightarrow>
         (\<exists>g\<in>set (cfg_blocklist c) \<union> set extra. glob_matches g prefixed \<or> glob_matches g bare))"
proof -
  note graph = graph_parts [OF validated_parts(4) [OF assms(1)]]
  have "glob_permits g v \<longleftrightarrow> glob_matches g v" if "g \<in> set (cfg_blocklist c) \<union> set extra" for g v
    using that assms(2) blocklist_globs [OF graph(3)] by (auto intro!: glob_permits_matches)
  moreover have "\<forall>r\<in>set (cfg_price c). is_ok (parse_glob (rule_model r))"
    using price_book_globs [OF graph(2)] by blast
  ultimately show ?thesis
    by (auto simp: config_price_for_def find_price_globs is_blocked_def list_ex_iff)
qed

section \<open>An example\<close>

definition sample_config :: config where
  "sample_config =
     \<lparr>cfg_storage = Some \<lparr>storage_backend = Sqlite, storage_path = Some ''axond.db'', storage_dsn_env = None,
        on_unavailable = DenyUnavailable, storage_create_table = True,
        usage_index = usage_index_default, request_timeout_ms = 3000\<rparr>,
      cfg_namespace =
        [\<lparr>ns_id = ''platform'', ns_default = True, ns_allow_platform_fallback = False\<rparr>,
         \<lparr>ns_id = ''acme'', ns_default = False, ns_allow_platform_fallback = False\<rparr>],
      cfg_provider =
        [\<lparr>provider_id = ''openai'', provider_kind = OpenaiKind, base_url = ''https://api.openai.com/v1'',
          provider_unpriced_models = DenyUnpriced\<rparr>],
      cfg_price =
        [\<lparr>rule_provider = ''openai'', rule_model = ''gpt-*'',
          rule_price = \<lparr>input_microdollars_per_million = 1, output_microdollars_per_million = 2,
            reasoning_microdollars_per_million = None, cache_read_microdollars_per_million = None,
            cache_write_microdollars_per_million = None\<rparr>\<rparr>],
      cfg_blocklist = [''*-preview''],
      cfg_credential =
        [\<lparr>cred_namespace = ''platform'', cred_provider = ''openai'', cred_env = Some ''KEY_A'', cred_id = None,
          cred_weight = 1\<rparr>,
         \<lparr>cred_namespace = ''platform'', cred_provider = ''openai'', cred_env = Some ''KEY_B'', cred_id = None,
          cred_weight = 2\<rparr>,
         \<lparr>cred_namespace = ''acme'', cred_provider = ''openai'', cred_env = Some ''KEY_C'', cred_id = Some ''own'',
          cred_weight = 1\<rparr>],
      cfg_credential_pool = credential_pool_default, cfg_failover = failover_default,
      cfg_transport = transport_default, cfg_shutdown = shutdown_default,
      cfg_gateway_key = [\<lparr>key_env = Some ''GW_KEY'', key_file = None, key_namespace = ''platform''\<rparr>],
      cfg_usage_sink = [usage_sink_default], cfg_usage_journal = usage_journal_default,
      cfg_admission = admission_default (2 ^ 61 - 1), cfg_catalog = catalog_default,
      cfg_discovery_refresh_interval_seconds = 300, cfg_unrecognized = []\<rparr>"

definition no_urls :: "unit url_api" where
  "no_urls = \<lparr>url_parse = (\<lambda>_. None), url_scheme = (\<lambda>_. []), url_host = (\<lambda>_. None),
     url_username = (\<lambda>_. []), url_password = (\<lambda>_. None)\<rparr>"

lemma sample_graphic:
  "trim ''axond.db'' = ''axond.db''" "trim ''openai'' = ''openai''" "trim ''gpt-*'' = ''gpt-*''"
  "trim ''KEY_A'' = ''KEY_A''" "trim ''KEY_B'' = ''KEY_B''" "trim ''KEY_C'' = ''KEY_C''"
  "trim ''GW_KEY'' = ''GW_KEY''" "trim [] = []"
  by (rule trim_graphic, simp add: graphic_def byte_def)+

lemma sample_config_valid: "config_validate no_urls (2 ^ 61 - 1) sample_config = Inr ()"
proof -
  let ?c = sample_config
  have "reject_withdrawn_sections ?c = None" by (simp add: reject_withdrawn_sections_def sample_config_def)
  moreover have "validate_storage (2 ^ 61 - 1) False ?c = None"
    by (simp add: validate_storage_def sample_config_def usage_index_default_def Let_def first_refusal_None
        MAX_USAGE_INDEX_BATCH_def MAX_USAGE_INDEX_FLUSH_INTERVAL_MS_def MAX_STORAGE_REQUEST_TIMEOUT_MS_def
        validate_backend_def blank_def sample_graphic)
  moreover have "validate_price_book ?c = None"
    by (simp add: validate_price_book_def check_price_rule_def sample_config_def sample_graphic first_refusal_None
        provider_defined_def parse_glob_def scope_parse_def parse_pattern_def starts_with_def ends_with_def)
  moreover have "validate_blocklist ?c = None"
    by (simp add: validate_blocklist_def sample_config_def first_refusal_None parse_glob_def scope_parse_def
        parse_pattern_def starts_with_def)
  moreover have "validate_process_local_bounds no_urls (2 ^ 61 - 1) ?c = None"
    by (simp add: validate_process_local_bounds_def sample_config_def first_refusal_None validate_admission_def
        admission_default_def default_max_pending_settlements_def default_max_in_flight_def
        default_max_in_flight_streams_def default_max_in_flight_per_tenant_def usize_max_def
        positive_fields_def transport_default_def shutdown_default_def validate_catalog_def
        catalog_enabled_def catalog_default_def)
  moreover have "check_credentials ?c (\<lambda>_. []) (cfg_credential ?c) = None"
    by (simp add: sample_config_def Let_def blank_def sample_graphic credential_label_def
        namespace_defined_def provider_defined_def)
  moreover have "validate_gateway_keys ?c = None"
    by (simp add: validate_gateway_keys_def check_gateway_key_def sample_config_def sample_graphic
        first_refusal_None namespace_defined_def)
  moreover have "validate_usage_sinks ?c = None"
    by (simp add: validate_usage_sinks_def validate_usage_journal_def sample_config_def usage_journal_default_def
        check_usage_sink_def usage_sink_default_def first_refusal_None)
  ultimately have "validate_resource_graph no_urls (2 ^ 61 - 1) ?c = None"
    by (simp add: validate_resource_graph_def Let_def first_refusal_None)
      (simp add: sample_config_def credential_pool_default_def failover_default_def)
  with \<open>reject_withdrawn_sections ?c = None\<close> \<open>validate_storage (2 ^ 61 - 1) False ?c = None\<close>
  have "first_refusal [reject_withdrawn_sections ?c, validate_storage (2 ^ 61 - 1) False ?c,
      refuse_if (cfg_discovery_refresh_interval_seconds ?c = 0) DiscoveryInterval,
      validate_resource_graph no_urls (2 ^ 61 - 1) ?c] = None"
    by (simp add: first_refusal_None) (simp add: sample_config_def)
  then show ?thesis by (simp add: config_validate_def validate_inner_def)
qed

text \<open>The four properties on the example.\<close>

theorem validated_config_is_coherent_witness:
  "config_validate no_urls (2 ^ 61 - 1) sample_config = Inr () \<and> default_namespace sample_config = ''platform''
   \<and> distinct (map credential_label
       (filter (\<lambda>k. pool_of k = (''platform'', ''openai'')) (cfg_credential sample_config)))"
  using validated_config_is_coherent [OF sample_config_valid] sample_config_valid
  by (simp add: sample_config_def default_namespace_def)

definition sample_wire :: "nat \<Rightarrow> admission_config_wire" where
  "sample_wire n =
     \<lparr>wire_max_request_bytes = 1024, wire_max_in_flight = n, wire_max_in_flight_streams = None,
      wire_max_in_flight_per_tenant = None, wire_max_tenants = 8, wire_queue_capacity = 0,
      wire_queue_wait_ms = 0, wire_max_stream_duration_ms = 0, wire_max_prompt_tokens = 0,
      wire_max_output_tokens = 0, wire_max_stream_bytes = 0, wire_max_pending_settlements = None,
      wire_max_in_flight_settlements = 64, wire_settlement_queue_wait_ms = 0,
      wire_settlement_timeout_ms = 0\<rparr>"

theorem admission_ceilings_fit_witness:
  "let a = admission_from_wire 1000 (sample_wire 16) in
   validate_admission 1000 a = None \<and> cfg_max_in_flight_streams a = 16 \<and> cfg_max_in_flight_per_tenant a = 0
   \<and> max_in_flight (limits_from_config a) = Some 16 \<and> 16 \<le> cfg_max_pending_settlements a"
  using admission_ceilings_fit [where mp = 1000 and w = "sample_wire 16"]
  by (simp add: sample_wire_def admission_from_wire_def clamp_written_def tenant_ceiling_def
      default_max_in_flight_streams_def default_max_in_flight_per_tenant_def limits_from_config_def bound_def
      default_max_pending_settlements_def usize_max_def)

theorem validated_config_feeds_components_witness:
  "config_validate no_urls (2 ^ 61 - 1) sample_config = Inr ()
   \<and> index_settings_bounded (index_settings (usage_index (the (cfg_storage sample_config))))
       = index_settings (usage_index (the (cfg_storage sample_config)))"
  using validated_config_feeds_components [OF sample_config_valid] sample_config_valid by auto

theorem prices_and_blocks_are_globs_witness:
  "config_price_for sample_config ''openai'' ''gpt-4'' \<noteq> None
   \<and> is_blocked sample_config ''openai/o1-preview'' ''o1-preview'' [] \<and> \<not> is_blocked sample_config ''openai/o1'' ''o1'' []"
proof -
  note globs = prices_and_blocks_are_globs [OF sample_config_valid, of "[]"]
  have "glob_matches ''gpt-*'' ''gpt-4''" "glob_matches ''*-preview'' ''o1-preview''"
    "\<not> glob_matches ''*-preview'' ''openai/o1''" "\<not> glob_matches ''*-preview'' ''o1''"
    by (simp_all add: glob_suffix ends_with_def)
  then show ?thesis using globs [of "''openai''" "''gpt-4''" "''openai/o1-preview''" "''o1-preview''"]
      globs [of "''openai''" "''gpt-4''" "''openai/o1''" "''o1''"]
    by (simp add: sample_config_def)
qed

text \<open>
  A catalogue kept in process memory is accepted, although the comment on \<open>validate_catalog\<close> says a
  deployment that keeps state may not retain it there.
\<close>

lemma in_memory_catalog_validates:
  "let c = catalog_default\<lparr>catalog_source := SeedSource\<rparr> in
   catalog_enabled c \<and> catalog_store c = InMemoryStore \<and> validate_catalog no_urls c = None"
  by (simp add: validate_catalog_def catalog_default_def catalog_enabled_def first_refusal_None
        positive_fields_def schedule_validate_def catalog_schedule_def validate_policy_def from_secs_def)

end
