(* ===== verification/Credentials.thy ===== *)
theory Credentials
  imports Probe_Gate Config_Laws "HOL-Library.Char_ord" "HOL-Library.List_Lexorder"
    "HOL-Library.Product_Lexorder" "HOL-Library.Option_ord" "HOL-Library.Multiset"
begin

text \<open>
  Provider credentials, \<open>crates/gateway/src/credentials.rs\<close>: the pools of each
  \<open>(namespace, provider)\<close> pair, the rotation that orders a pool for one request, the health table
  that parks a failing credential, and the plan of attempts a request walks.  A \<open>HashMap\<close> is the
  list of its entries in iteration order, whatever that is; a lookup is \<open>map_of\<close>.  The atomic
  cursor of a pool and the locked health table are state that a plan threads through; the clock is
  an argument, as in the \<open>_at\<close> methods.  Secrets are strings.
\<close>

section \<open>Data\<close>

datatype credential_source = Platform | Byok

record credential_lease =
  lease_id :: string
  lease_secret :: string
  lease_health_key :: string

record credential_skip =
  skip_id :: string
  skip_reason :: string

record credential_plan =
  plan_source :: credential_source
  plan_attempts :: "credential_lease list"
  plan_parked :: "credential_skip list"

datatype credential_error =
    MissingEnv string string string string
  | NoMaterial string string string

datatype credential_state = HealthyState | ParkedState | ProbeState

datatype credential_status_view = NamespaceView string | AllView

record credential_status =
  status_namespace :: string
  status_provider :: string
  status_credential_id :: "string option"
  status_source :: string
  status_state :: credential_state

datatype eligibility = Healthy | Probe | Parked

section \<open>Pools\<close>

record pool_entry =
  entry_id :: string
  entry_status_id :: "string option"
  entry_material :: string
  entry_weight :: u32
  entry_health_key :: string

record pool =
  entries :: "pool_entry list"
  cursor :: u64
  total_weight :: u64

definition pool_new :: "pool_entry list \<Rightarrow> pool" where
  "pool_new es =
     \<lparr>entries = es, cursor = 0, total_weight = max (sum_list (map (\<lambda>e. ucast (entry_weight e)) es)) 1\<rparr>"

text \<open>The loop of the weighted strategy over the enumerated entries.\<close>

fun ladder :: "u64 \<Rightarrow> nat \<Rightarrow> nat \<Rightarrow> pool_entry list \<Rightarrow> nat" where
  "ladder offset chosen i [] = chosen"
| "ladder offset chosen i (e # es) =
     (let weight = ucast (entry_weight e) in
      if offset < weight then i else ladder (offset - weight) chosen (Suc i) es)"

definition pool_start :: "pool \<Rightarrow> selection_strategy \<Rightarrow> u64 \<Rightarrow> nat" where
  "pool_start p strategy tick =
     (let n = length (entries p) in
      case strategy of
        RoundRobin \<Rightarrow> unat tick mod n
      | Weighted \<Rightarrow> ladder (tick mod total_weight p) (n - 1) 0 (entries p))"

definition pool_order :: "pool \<Rightarrow> selection_strategy \<Rightarrow> pool \<times> nat list" where
  "pool_order p strategy =
     (let n = length (entries p) in
      if n = 0 then (p, [])
      else (let start = pool_start p strategy (cursor p)
            in (p\<lparr>cursor := cursor p + 1\<rparr>, map (\<lambda>i. (start + i) mod n) [0..<n])))"

section \<open>Health\<close>

record credential_circuit =
  credential_failures :: u32
  parked_at :: "instant option"

record credential_health =
  health_threshold :: u32
  health_cooldown :: duration
  health_circuits :: "string \<rightharpoonup> credential_circuit"

definition credential_health_new :: "u32 \<Rightarrow> duration \<Rightarrow> credential_health" where
  "credential_health_new n d =
     \<lparr>health_threshold = max n 1, health_cooldown = d, health_circuits = Map.empty\<rparr>"

definition classify_at :: "credential_health \<Rightarrow> string \<Rightarrow> instant \<Rightarrow> credential_health \<times> eligibility" where
  "classify_at h key now =
     (case health_circuits h key of
        None \<Rightarrow> (h, Healthy)
      | Some c \<Rightarrow>
          (case parked_at c of
             None \<Rightarrow> (h, Healthy)
           | Some t \<Rightarrow>
               (if health_cooldown h \<le> saturating_duration_since now t
                then (h\<lparr>health_circuits := (health_circuits h)(key \<mapsto> c\<lparr>parked_at := Some now\<rparr>)\<rparr>, Probe)
                else (h, Parked))))"

definition health_record_success :: "credential_health \<Rightarrow> string \<Rightarrow> credential_health" where
  "health_record_success h key = h\<lparr>health_circuits := (health_circuits h)(key := None)\<rparr>"

definition health_record_failure_at :: "credential_health \<Rightarrow> string \<Rightarrow> instant \<Rightarrow> credential_health" where
  "health_record_failure_at h key now =
     (let c = (case health_circuits h key of Some c \<Rightarrow> c | None \<Rightarrow> \<lparr>credential_failures = 0, parked_at = None\<rparr>);
          n = saturating_add (credential_failures c) 1;
          c' = c\<lparr>credential_failures := n\<rparr>;
          c'' = (if health_threshold h \<le> n then c'\<lparr>parked_at := Some now\<rparr> else c')
      in h\<lparr>health_circuits := (health_circuits h)(key \<mapsto> c'')\<rparr>)"

definition state_at :: "credential_health \<Rightarrow> string \<Rightarrow> instant \<Rightarrow> credential_state" where
  "state_at h key now =
     (case health_circuits h key of
        None \<Rightarrow> HealthyState
      | Some c \<Rightarrow>
          (case parked_at c of
             None \<Rightarrow> HealthyState
           | Some t \<Rightarrow>
               (if saturating_duration_since now t < health_cooldown h then ParkedState else ProbeState)))"

section \<open>Resolution\<close>

record credentials =
  pools :: "((string \<times> string) \<times> pool) list"
  platform_ns :: string
  strategy :: selection_strategy
  health :: credential_health

definition health_key :: "string \<Rightarrow> string \<Rightarrow> string \<Rightarrow> string" where
  "health_key ns pr i = ns @ ''/'' @ pr @ ''/'' @ i"

definition lease :: "pool_entry \<Rightarrow> credential_lease" where
  "lease e = \<lparr>lease_id = entry_id e, lease_secret = entry_material e, lease_health_key = entry_health_key e\<rparr>"

text \<open>\<open>c.env.as_deref().filter(|name| !name.is_empty())\<close> and the lookup in the captured environment.\<close>

definition resolve_material ::
  "(string \<rightharpoonup> string) \<Rightarrow> credential_config \<Rightarrow> (credential_error, string) result" where
  "resolve_material env c =
     (case cred_env c of
        None \<Rightarrow> Inl (NoMaterial (cred_namespace c) (cred_provider c) (credential_label c))
      | Some name \<Rightarrow>
          (if name = [] then Inl (NoMaterial (cred_namespace c) (cred_provider c) (credential_label c))
           else (case env name of
                   None \<Rightarrow> Inl (MissingEnv (cred_namespace c) (cred_provider c) (credential_label c) name)
                 | Some v \<Rightarrow>
                     (if v = [] then Inl (MissingEnv (cred_namespace c) (cred_provider c) (credential_label c) name)
                      else Inr v))))"

definition entry_of :: "credential_config \<Rightarrow> string \<Rightarrow> pool_entry" where
  "entry_of c material =
     \<lparr>entry_id = credential_label c, entry_status_id = cred_id c, entry_material = material,
      entry_weight = cred_weight c,
      entry_health_key = health_key (cred_namespace c) (cred_provider c) (credential_label c)\<rparr>"

text \<open>\<open>entry(key).or_default().push(..)\<close>.\<close>

fun push_pool :: "'k \<Rightarrow> 'a \<Rightarrow> ('k \<times> 'a list) list \<Rightarrow> ('k \<times> 'a list) list" where
  "push_pool k x [] = [(k, [x])]"
| "push_pool k x ((k', xs) # rest) =
     (if k' = k then (k', xs @ [x]) # rest else (k', xs) # push_pool k x rest)"

fun resolve_pools ::
  "(string \<rightharpoonup> string) \<Rightarrow> credential_config list \<Rightarrow> ((string \<times> string) \<times> pool_entry list) list \<Rightarrow>
     (credential_error, ((string \<times> string) \<times> pool_entry list) list) result" where
  "resolve_pools env [] acc = Inr acc"
| "resolve_pools env (c # cs) acc =
     (case resolve_material env c of
        Inl e \<Rightarrow> Inl e
      | Inr material \<Rightarrow>
          resolve_pools env cs (push_pool (cred_namespace c, cred_provider c) (entry_of c material) acc))"

definition credentials_resolve ::
  "config \<Rightarrow> (string \<rightharpoonup> string) \<Rightarrow> (credential_error, credentials) result" where
  "credentials_resolve config env =
     (case resolve_pools env (cfg_credential config) [] of
        Inl e \<Rightarrow> Inl e
      | Inr acc \<Rightarrow>
          Inr \<lparr>pools = map (\<lambda>(key, es). (key, pool_new es)) acc,
               platform_ns = default_namespace config,
               strategy = pool_strategy (cfg_credential_pool config),
               health = credential_health_new (pool_failure_threshold (cfg_credential_pool config))
                          (from_secs (pool_cooldown_seconds (cfg_credential_pool config)))\<rparr>)"

section \<open>Plans\<close>

definition allow_platform_fallback :: "credentials \<Rightarrow> config \<Rightarrow> string \<Rightarrow> bool" where
  "allow_platform_fallback c config ns \<longleftrightarrow>
     ns \<noteq> platform_ns c
     \<and> (case config_namespace config ns of Some n \<Rightarrow> ns_allow_platform_fallback n | None \<Rightarrow> True)"

text \<open>The owner of the pool is returned beside it, to say which cursor a plan advances.\<close>

definition resolve_pool ::
  "credentials \<Rightarrow> config \<Rightarrow> string \<Rightarrow> string \<Rightarrow> ((string \<times> string) \<times> pool \<times> credential_source) option" where
  "resolve_pool c config ns pr =
     (case map_of (pools c) (ns, pr) of
        Some p \<Rightarrow> Some ((ns, pr), p, if ns = platform_ns c then Platform else Byok)
      | None \<Rightarrow>
          (if \<not> allow_platform_fallback c config ns then None
           else (case map_of (pools c) (platform_ns c, pr) of
                   None \<Rightarrow> None
                 | Some p \<Rightarrow> Some ((platform_ns c, pr), p, Platform))))"

definition set_pool :: "credentials \<Rightarrow> string \<times> string \<Rightarrow> pool \<Rightarrow> credentials" where
  "set_pool c key p = c\<lparr>pools := map (\<lambda>(k, q). (k, if k = key then p else q)) (pools c)\<rparr>"

fun plan_loop ::
  "instant \<Rightarrow> pool_entry list \<Rightarrow> credential_health \<Rightarrow> credential_lease list \<Rightarrow> pool_entry list \<Rightarrow>
     credential_health \<times> credential_lease list \<times> pool_entry list" where
  "plan_loop now [] h tried parked = (h, tried, parked)"
| "plan_loop now (e # es) h tried parked =
     (case classify_at h (entry_health_key e) now of
        (h', Healthy) \<Rightarrow> plan_loop now es h' (tried @ [lease e]) parked
      | (h', Probe) \<Rightarrow> plan_loop now es h' (lease e # tried) parked
      | (h', Parked) \<Rightarrow> plan_loop now es h' tried (parked @ [e]))"

definition plan_at ::
  "credentials \<Rightarrow> config \<Rightarrow> string \<Rightarrow> string \<Rightarrow> instant \<Rightarrow> credentials \<times> credential_plan option" where
  "plan_at c config ns pr now =
     (case resolve_pool c config ns pr of
        None \<Rightarrow> (c, None)
      | Some (key, p, source) \<Rightarrow>
          (let (p', order) = pool_order p (strategy c);
               (h', tried, parked) = plan_loop now (map ((!) (entries p)) order) (health c) [] [];
               c' = (set_pool c key p')\<lparr>health := h'\<rparr>;
               forced = (if tried = [] then map lease (take 1 parked) else []);
               forced_id = (case forced of l # _ \<Rightarrow> Some (lease_id l) | [] \<Rightarrow> None);
               tried' = (if tried = [] then forced else tried)
           in if tried' = [] then (c', None)
              else (c', Some
                \<lparr>plan_source = source, plan_attempts = tried',
                 plan_parked = map (\<lambda>e. \<lparr>skip_id = entry_id e, skip_reason = ''parked''\<rparr>)
                   (filter (\<lambda>e. forced_id \<noteq> Some (entry_id e)) parked)\<rparr>)))"

definition plan_pinned :: "credentials \<Rightarrow> config \<Rightarrow> string \<Rightarrow> string \<Rightarrow> credential_plan option" where
  "plan_pinned c config ns pr =
     (case resolve_pool c config ns pr of
        None \<Rightarrow> None
      | Some (_, p, source) \<Rightarrow>
          (case entries p of
             [] \<Rightarrow> None
           | e # _ \<Rightarrow> Some \<lparr>plan_source = source, plan_attempts = [lease e], plan_parked = []\<rparr>))"

text \<open>\<open>min_by_key\<close> takes the first of the least; \<open>sort_key\<close> is stable.\<close>

definition discovery_leases :: "credentials \<Rightarrow> config \<Rightarrow> string \<Rightarrow> credential_lease list" where
  "discovery_leases c config pr =
     (case resolve_pool c config (platform_ns c) pr of
        Some (_, p, _) \<Rightarrow> map lease (entries p)
      | None \<Rightarrow>
          (case sort_key (\<lambda>((ns, _), _). ns) (filter (\<lambda>((_, name), _). name = pr) (pools c)) of
             [] \<Rightarrow> []
           | (_, p) # _ \<Rightarrow> map lease (entries p)))"

definition is_present :: "credentials \<Rightarrow> config \<Rightarrow> string \<Rightarrow> string \<Rightarrow> bool" where
  "is_present c config ns pr \<longleftrightarrow>
     map_of (pools c) (ns, pr) \<noteq> None
     \<or> allow_platform_fallback c config ns \<and> map_of (pools c) (platform_ns c, pr) \<noteq> None"

definition credentials_record_success :: "credentials \<Rightarrow> credential_lease \<Rightarrow> credentials" where
  "credentials_record_success c l = c\<lparr>health := health_record_success (health c) (lease_health_key l)\<rparr>"

definition credentials_record_failure :: "credentials \<Rightarrow> credential_lease \<Rightarrow> instant \<Rightarrow> credentials" where
  "credentials_record_failure c l now =
     c\<lparr>health := health_record_failure_at (health c) (lease_health_key l) now\<rparr>"

section \<open>Status\<close>

definition add_pool ::
  "credentials \<Rightarrow> instant \<Rightarrow> string \<Rightarrow> string \<Rightarrow> pool \<Rightarrow> string \<Rightarrow> bool \<Rightarrow> credential_status list" where
  "add_pool c now owner pr p source hide_default_id =
     map (\<lambda>e. \<lparr>status_namespace = owner, status_provider = pr,
                status_credential_id = (if hide_default_id then entry_status_id e else Some (entry_id e)),
                status_source = source, status_state = state_at (health c) (entry_health_key e) now\<rparr>)
       (entries p)"

definition source_name :: "credentials \<Rightarrow> string \<Rightarrow> string" where
  "source_name c ns = (if ns = platform_ns c then ''platform'' else ''byok'')"

definition status_rows :: "credentials \<Rightarrow> config \<Rightarrow> credential_status_view \<Rightarrow> instant \<Rightarrow> credential_status list" where
  "status_rows c config view now =
     (case view of
        AllView \<Rightarrow>
          concat (map (\<lambda>((ns, pr), p). add_pool c now ns pr p (source_name c ns) False) (pools c))
      | NamespaceView ns \<Rightarrow>
          concat (map (\<lambda>((owner, pr), p).
             if owner = ns then add_pool c now owner pr p (source_name c owner) False else []) (pools c))
          @ (if allow_platform_fallback c config ns
             then concat (map (\<lambda>((owner, pr), p).
               if owner = platform_ns c \<and> map_of (pools c) (ns, pr) = None
               then add_pool c now owner pr p ''platform'' True else []) (pools c))
             else []))"

definition status_order :: "credential_status \<Rightarrow> string \<times> string \<times> string option" where
  "status_order s = (status_namespace s, status_provider s, status_credential_id s)"

definition status_at :: "credentials \<Rightarrow> config \<Rightarrow> credential_status_view \<Rightarrow> instant \<Rightarrow> credential_status list" where
  "status_at c config view now = sort_key status_order (status_rows c config view now)"

end
