(* ===== verification/Credential_Laws.thy ===== *)
theory Credential_Laws
  imports Credentials
begin

text \<open>
  What the credential pools promise: probes of a parked credential are spaced by its cooldown (the
  second interpretation of the probe contract) and consecutive failures park it, a plan is the pool's
  rotation with probes first and parked credentials left out, a plan never leaves the pool its
  namespace may use, resolution refuses exactly the credentials whose variable is missing, and the
  status view shows exactly the rows a namespace may see.
\<close>

section \<open>Parking\<close>

definition parked_since :: "string \<Rightarrow> credential_health \<Rightarrow> instant option" where
  "parked_since key h = (case health_circuits h key of None \<Rightarrow> None | Some c \<Rightarrow> parked_at c)"

datatype health_op = ClassifyOp string | HealthSuccessOp string | HealthFailureOp string

fun health_step :: "string \<Rightarrow> credential_health \<Rightarrow> health_op \<Rightarrow> instant \<Rightarrow> credential_health \<times> bool" where
  "health_step k h (ClassifyOp key) now =
     (fst (classify_at h key now), key = k \<and> snd (classify_at h key now) = Probe)"
| "health_step k h (HealthSuccessOp key) now = (health_record_success h key, False)"
| "health_step k h (HealthFailureOp key) now = (health_record_failure_at h key now, False)"

lemmas health_defs = classify_at_def health_record_success_def health_record_failure_at_def

lemma health_step_cooldown: "health_cooldown (fst (health_step k h e now)) = health_cooldown h"
  by (cases e) (auto simp: health_defs Let_def split: option.splits)

interpretation parking: probe_gate "health_step k" "parked_since k" "\<lambda>h. health_cooldown h = d" d
  for k d
proof (unfold_locales, goal_cases)
  case (1 s e now)
  then show ?case by (simp add: health_step_cooldown)
next
  case (2 s e now)
  then show ?case
    by (cases e) (auto simp: health_defs parked_since_def saturating_duration_since_def split: option.splits if_splits)
next
  case (3 s e now)
  then show ?case by (cases e) (auto simp: health_defs parked_since_def split: option.splits if_splits)
next
  case (4 s e now)
  then show ?case
    by (cases e) (auto simp: health_defs parked_since_def Let_def split: option.splits if_splits)
qed

text \<open>The classification a request finds is the state the status view reports.\<close>

lemma classify_state:
  "snd (classify_at h key now) = Healthy \<longleftrightarrow> state_at h key now = HealthyState"
  "snd (classify_at h key now) = Probe \<longleftrightarrow> state_at h key now = ProbeState"
  "snd (classify_at h key now) = Parked \<longleftrightarrow> state_at h key now = ParkedState"
  by (auto simp: classify_at_def state_at_def not_le split: option.splits)

lemma classify_other:
  "key' \<noteq> key \<Longrightarrow> health_circuits (fst (classify_at h key now)) key' = health_circuits h key'"
  "health_cooldown (fst (classify_at h key now)) = health_cooldown h"
  "health_threshold (fst (classify_at h key now)) = health_threshold h"
  by (auto simp: classify_at_def split: option.splits)

lemma state_at_other:
  "key' \<noteq> key \<Longrightarrow> state_at (fst (classify_at h key now)) key' now' = state_at h key' now'"
  by (auto simp: state_at_def classify_other split: option.splits)

lemma failures_below_threshold:
  assumes "unat (case health_circuits h k of None \<Rightarrow> 0 | Some c \<Rightarrow> credential_failures c) = n"
    and "n < unat (health_threshold h)" and "parked_since k h = None"
  shows "parked_since k (health_record_failure_at h k t) =
           (if Suc n < unat (health_threshold h) then None else Some t)"
    and "Suc n < unat (health_threshold h) \<Longrightarrow>
      unat (case health_circuits (health_record_failure_at h k t) k of None \<Rightarrow> 0 | Some c \<Rightarrow> credential_failures c) = Suc n"
    and "health_threshold (health_record_failure_at h k t) = health_threshold h"
proof -
  let ?f = "case health_circuits h k of None \<Rightarrow> 0 | Some c \<Rightarrow> credential_failures c"
  have "unat (health_threshold h) < 2 ^ 32" using unsigned_less [of "health_threshold h"] by simp
  then have n: "unat (saturating_add ?f 1) = Suc n" using assms(1,2) by simp
  show "parked_since k (health_record_failure_at h k t) =
           (if Suc n < unat (health_threshold h) then None else Some t)"
    "Suc n < unat (health_threshold h) \<Longrightarrow>
      unat (case health_circuits (health_record_failure_at h k t) k of None \<Rightarrow> 0 | Some c \<Rightarrow> credential_failures c) = Suc n"
    using n assms(3)
    by (auto simp: health_record_failure_at_def Let_def parked_since_def word_le_nat_alt split: option.splits)
  show "health_threshold (health_record_failure_at h k t) = health_threshold h"
    by (simp add: health_record_failure_at_def Let_def)
qed

lemma failures_park_at_threshold:
  "unat (case health_circuits h k of None \<Rightarrow> 0 | Some c \<Rightarrow> credential_failures c) = n \<Longrightarrow>
   n < unat (health_threshold h) \<Longrightarrow> parked_since k h = None \<Longrightarrow> n + length ts \<le> unat (health_threshold h) \<Longrightarrow>
   parked_since k (fold (\<lambda>t h. health_record_failure_at h k t) ts h) =
     (if n + length ts < unat (health_threshold h) then None else Some (last ts))"
proof (induction ts arbitrary: h n)
  case (Cons t ts)
  note step = failures_below_threshold [OF Cons.prems(1-3), of t]
  show ?case
  proof (cases "ts = []")
    case True
    with step Cons.prems show ?thesis by simp
  next
    case False
    then have "Suc n < unat (health_threshold h)" using Cons.prems(4) by (cases ts) auto
    with step have "parked_since k (health_record_failure_at h k t) = None" by simp
    from Cons.IH [OF step(2) [OF \<open>Suc n < _\<close>] _ this] step(3) Cons.prems(4) \<open>Suc n < _\<close> False
    show ?thesis by simp
  qed
qed simp

text \<open>The consecutive failures of a credential: those since its last success.\<close>

fun count_failure :: "string \<Rightarrow> health_op \<Rightarrow> nat \<Rightarrow> nat" where
  "count_failure k (ClassifyOp key) m = m"
| "count_failure k (HealthSuccessOp key) m = (if key = k then 0 else m)"
| "count_failure k (HealthFailureOp key) m = (if key = k then Suc m else m)"

definition consecutive_failures :: "string \<Rightarrow> (health_op \<times> instant) list \<Rightarrow> nat" where
  "consecutive_failures k ops = fold (count_failure k) (map fst ops) 0"

definition health_after :: "string \<Rightarrow> credential_health \<Rightarrow> (health_op \<times> instant) list \<Rightarrow> credential_health" where
  "health_after k h ops = fold (\<lambda>(op, t) h. fst (health_step k h op t)) ops h"

text \<open>The circuit of \<open>k\<close> accounts for \<open>m\<close> consecutive failures.\<close>

definition counts :: "string \<Rightarrow> nat \<Rightarrow> nat \<Rightarrow> credential_health \<Rightarrow> bool" where
  "counts k limit m h \<longleftrightarrow>
     unat (health_threshold h) = limit
     \<and> unat (case health_circuits h k of None \<Rightarrow> 0 | Some c \<Rightarrow> credential_failures c) = min m (2 ^ 32 - 1)
     \<and> (parked_since k h \<noteq> None \<longleftrightarrow> limit \<le> m)"

lemma counts_step:
  assumes "counts k limit m h" and "0 < limit"
  shows "counts k limit (count_failure k op m) (fst (health_step k h op t))"
proof (cases op)
  case (ClassifyOp key)
  with assms show ?thesis
    by (auto simp: counts_def classify_at_def parked_since_def split: option.splits)
next
  case (HealthSuccessOp key)
  with assms show ?thesis by (auto simp: counts_def health_record_success_def parked_since_def)
next
  case (HealthFailureOp key)
  show ?thesis
  proof (cases "key = k")
    case True
    let ?f = "case health_circuits h k of None \<Rightarrow> 0 | Some c \<Rightarrow> credential_failures c"
    have limit: "unat (health_threshold h) = limit" "limit < 2 ^ 32"
      using assms(1) unsigned_less [of "health_threshold h"] by (auto simp: counts_def)
    have f: "unat ?f = min m (2 ^ 32 - 1)" using assms(1) by (simp add: counts_def)
    then have n: "unat (saturating_add ?f 1) = min (Suc m) (2 ^ 32 - 1)" by simp
    then have le: "health_threshold h \<le> saturating_add ?f 1 \<longleftrightarrow> limit \<le> Suc m"
      unfolding word_le_nat_alt n limit(1) using limit(2) by auto
    have before: "parked_since k h \<noteq> None \<longleftrightarrow> limit \<le> m" using assms(1) by (simp add: counts_def)
    show ?thesis
    proof (cases "health_circuits h k")
      case None
      with n le before True HealthFailureOp limit show ?thesis
        by (auto simp: counts_def health_record_failure_at_def Let_def parked_since_def)
    next
      case (Some c)
      with n le before True HealthFailureOp limit show ?thesis
        by (auto simp: counts_def health_record_failure_at_def Let_def parked_since_def)
    qed
  next
    case False
    with assms HealthFailureOp show ?thesis
      by (auto simp: counts_def health_record_failure_at_def Let_def parked_since_def)
  qed
qed

lemma counts_after:
  "counts k limit m h \<Longrightarrow> 0 < limit \<Longrightarrow>
     counts k limit (fold (count_failure k) (map fst ops) m) (health_after k h ops)"
proof (induction ops arbitrary: m h)
  case (Cons x ops)
  obtain op t where "x = (op, t)" by fastforce
  with Cons.IH [OF counts_step [OF Cons.prems, of op t] Cons.prems(2)] show ?case by (simp add: health_after_def)
qed (simp add: health_after_def)

section \<open>The shape of a plan\<close>

definition entry_state :: "credential_health \<Rightarrow> instant \<Rightarrow> pool_entry \<Rightarrow> credential_state" where
  "entry_state h now e = state_at h (entry_health_key e) now"

lemma plan_loop_shape:
  assumes "distinct (map entry_health_key es)"
  shows "snd (plan_loop now es h tried parked) =
    (map lease (rev (filter (\<lambda>e. entry_state h now e = ProbeState) es)) @ tried
       @ map lease (filter (\<lambda>e. entry_state h now e = HealthyState) es),
     parked @ filter (\<lambda>e. entry_state h now e = ParkedState) es)"
  using assms
proof (induction es arbitrary: h tried parked)
  case (Cons e es)
  obtain h' el where el: "classify_at h (entry_health_key e) now = (h', el)" by fastforce
  have same: "entry_state h' now e' = entry_state h now e'" if "e' \<in> set es" for e'
  proof -
    have "entry_health_key e' \<noteq> entry_health_key e"
      using Cons.prems that by (metis distinct.simps(2) image_eqI list.set_map list.simps(9))
    then show ?thesis unfolding entry_state_def using state_at_other [of _ "entry_health_key e" h now] el by simp
  qed
  have filters: "filter (\<lambda>e. entry_state h' now e = s) es = filter (\<lambda>e. entry_state h now e = s) es" for s
    by (rule filter_cong) (simp_all add: same)
  have "entry_state h now e = (case el of Healthy \<Rightarrow> HealthyState | Probe \<Rightarrow> ProbeState | Parked \<Rightarrow> ParkedState)"
    using el classify_state [of h "entry_health_key e" now] by (cases el) (simp_all add: entry_state_def)
  with el Cons show ?case by (cases el) (simp_all add: filters)
qed simp

lemma plan_loop_health:
  "health_cooldown (fst (plan_loop now es h tried parked)) = health_cooldown h
   \<and> health_threshold (fst (plan_loop now es h tried parked)) = health_threshold h
   \<and> (k \<notin> entry_health_key ` set es \<longrightarrow>
        health_circuits (fst (plan_loop now es h tried parked)) k = health_circuits h k)"
proof (induction es arbitrary: h tried parked)
  case (Cons e es)
  obtain h' el where "classify_at h (entry_health_key e) now = (h', el)" by fastforce
  with Cons classify_other(1) [of k "entry_health_key e" h now] classify_other(2,3) [of h "entry_health_key e" now]
  show ?case by (cases el) auto
qed simp

section \<open>Rotation\<close>

lemma rotation_is_rotate: "0 < n \<Longrightarrow> map (\<lambda>i. (start + i) mod n) [0..<n] = rotate start [0..<n]"
  by (rule nth_equalityI) (simp_all add: nth_rotate)

lemma map_nth_rotate: "map ((!) xs) (rotate k [0..<length xs]) = rotate k xs"
  by (simp flip: rotate_map add: map_nth)

text \<open>The entries in the order of one request: the pool, rotated.\<close>

definition ordered_entries :: "pool \<Rightarrow> selection_strategy \<Rightarrow> pool_entry list" where
  "ordered_entries p s = map ((!) (entries p)) (snd (pool_order p s))"

lemma ordered_entries_rotate:
  "ordered_entries p s = rotate (pool_start p s (cursor p)) (entries p)"
  by (cases "entries p = []")
    (simp_all add: ordered_entries_def pool_order_def Let_def rotation_is_rotate map_nth_rotate)

lemma ordered_entries_sets:
  "set (ordered_entries p s) = set (entries p)" "length (ordered_entries p s) = length (entries p)"
  "distinct (map f (ordered_entries p s)) = distinct (map f (entries p))"
  "ordered_entries p s = [] \<longleftrightarrow> entries p = []"
  by (simp_all add: ordered_entries_rotate flip: rotate_map)

lemma pool_order_fst: "entries (fst (pool_order p s)) = entries p" "total_weight (fst (pool_order p s)) = total_weight p"
  by (simp_all add: pool_order_def Let_def)

section \<open>What a plan is\<close>

definition skip :: "pool_entry \<Rightarrow> credential_skip" where
  "skip e = \<lparr>skip_id = entry_id e, skip_reason = ''parked''\<rparr>"

lemma all_states:
  "filter (\<lambda>e. entry_state h now e = ProbeState) es = [] \<Longrightarrow> filter (\<lambda>e. entry_state h now e = HealthyState) es = [] \<Longrightarrow>
     filter (\<lambda>e. entry_state h now e = ParkedState) es = es"
  by (auto simp: filter_empty_conv filter_id_conv) (metis credential_state.exhaust)

lemma filter_not_head: "distinct (map f (x # xs)) \<Longrightarrow> filter (\<lambda>e. Some (f x) \<noteq> Some (f e)) (x # xs) = xs"
  by (auto simp: filter_id_conv)

lemma plan_at_split:
  assumes "resolve_pool c config ns pr = Some (key, p, source)"
    and "plan_loop now (ordered_entries p (strategy c)) (health c) [] [] = (h', tried, parked)"
  shows "plan_at c config ns pr now =
    ((set_pool c key (fst (pool_order p (strategy c))))\<lparr>health := h'\<rparr>,
     if tried = [] \<and> parked = [] then None
     else Some \<lparr>plan_source = source, plan_attempts = (if tried = [] then [lease (hd parked)] else tried),
       plan_parked = map skip
         (if tried = [] then filter (\<lambda>e. Some (entry_id (hd parked)) \<noteq> Some (entry_id e)) parked else parked)\<rparr>)"
  using assms
  by (cases parked) (auto simp: plan_at_def ordered_entries_def skip_def lease_def Let_def split: prod.splits)

text \<open>The plan of a pool whose labels and health keys are distinct.\<close>

lemma plan_at_pool:
  fixes now :: instant
  assumes pool: "resolve_pool c config ns pr = Some (key, p, source)"
    and "entries p \<noteq> []" and "distinct (map entry_health_key (entries p))" and "distinct (map entry_id (entries p))"
  defines "es \<equiv> ordered_entries p (strategy c)"
  defines "probes \<equiv> filter (\<lambda>e. entry_state (health c) now e = ProbeState) es"
    and "healthies \<equiv> filter (\<lambda>e. entry_state (health c) now e = HealthyState) es"
  shows "snd (plan_at c config ns pr now) = Some
      (if probes @ healthies = []
       then \<lparr>plan_source = source, plan_attempts = [lease (hd es)], plan_parked = map skip (tl es)\<rparr>
       else \<lparr>plan_source = source, plan_attempts = map lease (rev probes @ healthies),
             plan_parked = map skip (filter (\<lambda>e. entry_state (health c) now e = ParkedState) es)\<rparr>)"
proof -
  obtain e es' where es: "es = e # es'" using assms(2) ordered_entries_sets(4) es_def by (metis neq_Nil_conv)
  have ids: "distinct (map entry_id es)" using assms(4) by (simp add: es_def ordered_entries_sets)
  obtain h' where loop: "plan_loop now es (health c) [] [] =
      (h', map lease (rev probes) @ map lease healthies, filter (\<lambda>e. entry_state (health c) now e = ParkedState) es)"
    using plan_loop_shape [of es now "health c" "[]" "[]"] assms(3)
    by (metis append_Nil es_def healthies_def ordered_entries_sets(3) prod.collapse probes_def)
  show ?thesis
  proof (cases "probes @ healthies = []")
    case True
    then have parked: "filter (\<lambda>e. entry_state (health c) now e = ParkedState) es = es"
      by (intro all_states) (simp_all add: probes_def healthies_def)
    with loop True have loop': "plan_loop now es (health c) [] [] = (h', [], e # es')" by (simp add: es)
    have "snd (plan_at c config ns pr now) = Some
        \<lparr>plan_source = source, plan_attempts = [lease e],
         plan_parked = map skip (filter (\<lambda>x. Some (entry_id e) \<noteq> Some (entry_id x)) (e # es'))\<rparr>"
      by (simp add: plan_at_split [OF pool loop' [unfolded es_def]] lease_def)
    with True ids es show ?thesis using filter_not_head [of entry_id e es'] by simp
  next
    case False
    with loop show ?thesis by (auto simp: plan_at_split [OF pool loop [unfolded es_def]] es_def)
  qed
qed

section \<open>Resolution\<close>

definition secret :: "(string \<rightharpoonup> string) \<Rightarrow> credential_config \<Rightarrow> string" where
  "secret env k = (case resolve_material env k of Inr v \<Rightarrow> v | Inl _ \<Rightarrow> [])"

definition pool_entries :: "(string \<rightharpoonup> string) \<Rightarrow> credential_config list \<Rightarrow> string \<times> string \<Rightarrow> pool_entry list" where
  "pool_entries env ks pair = map (\<lambda>k. entry_of k (secret env k)) (filter (\<lambda>k. pool_of k = pair) ks)"

lemma resolve_material_Inr:
  "resolve_material env k = Inr v \<longleftrightarrow> (\<exists>name. cred_env k = Some name \<and> name \<noteq> [] \<and> env name = Some v \<and> v \<noteq> [])"
  by (auto simp: resolve_material_def split: option.splits if_splits)

lemma map_of_push_pool:
  "map_of (push_pool k x acc) j =
     (if j = k then Some ((case map_of acc k of None \<Rightarrow> [] | Some xs \<Rightarrow> xs) @ [x]) else map_of acc j)"
  by (induction k x acc rule: push_pool.induct) auto

lemma keys_push_pool: "distinct (map fst acc) \<Longrightarrow> distinct (map fst (push_pool k x acc)) \<and>
    set (map fst (push_pool k x acc)) = insert k (set (map fst acc))"
  by (induction k x acc rule: push_pool.induct) auto

lemma resolve_pools_keys: "resolve_pools env ks acc = Inr acc' \<Longrightarrow> distinct (map fst acc) \<Longrightarrow> distinct (map fst acc')"
  by (induction env ks acc rule: resolve_pools.induct) (auto simp: keys_push_pool split: sum.splits)

lemma resolve_pools_map:
  "resolve_pools env ks acc = Inr acc' \<Longrightarrow>
     map_of acc' j = (if pool_entries env ks j = [] then map_of acc j
       else Some ((case map_of acc j of None \<Rightarrow> [] | Some xs \<Rightarrow> xs) @ pool_entries env ks j))"
proof (induction env ks acc rule: resolve_pools.induct)
  case (2 env k ks acc)
  then obtain v where v: "resolve_material env k = Inr v" by (auto split: sum.splits)
  then have "secret env k = v" by (simp add: secret_def)
  with 2 v show ?case
    by (auto simp: map_of_push_pool pool_entries_def pool_of_def split: option.splits if_splits)
qed (simp add: pool_entries_def)

lemma resolve_pools_ok: "is_ok (resolve_pools env ks acc) \<longleftrightarrow> (\<forall>k\<in>set ks. is_ok (resolve_material env k))"
  by (induction env ks acc rule: resolve_pools.induct) (auto split: sum.splits)

lemma resolve_pools_Inl:
  "resolve_pools env ks acc = Inl e \<longleftrightarrow>
     (\<exists>k. find (\<lambda>k. \<not> is_ok (resolve_material env k)) ks = Some k \<and> resolve_material env k = Inl e)"
  by (induction env ks acc rule: resolve_pools.induct) (auto split: sum.splits)

lemma resolved_pools:
  assumes "credentials_resolve config env = Inr c"
  shows "map_option entries (map_of (pools c) pair) =
      (let es = pool_entries env (cfg_credential config) pair in if es = [] then None else Some es)"
    and "platform_ns c = default_namespace config"
    and "distinct (map fst (pools c))"
    and "k \<in> set (cfg_credential config) \<Longrightarrow> is_ok (resolve_material env k)"
proof -
  obtain acc where acc: "resolve_pools env (cfg_credential config) [] = Inr acc"
    and c: "pools c = map (\<lambda>(key, es). (key, pool_new es)) acc" "platform_ns c = default_namespace config"
    using assms by (auto simp: credentials_resolve_def split: sum.splits)
  have "map_of (pools c) pair = map_option pool_new (map_of acc pair)"
    unfolding c(1) by (simp add: map_of_map)
  then show "map_option entries (map_of (pools c) pair) =
      (let es = pool_entries env (cfg_credential config) pair in if es = [] then None else Some es)"
    using resolve_pools_map [OF acc, of pair] by (simp add: Let_def option.map_comp o_def pool_new_def)
  show "platform_ns c = default_namespace config" by (rule c(2))
  show "distinct (map fst (pools c))" using resolve_pools_keys [OF acc] c(1) by (simp add: case_prod_unfold o_def)
  show "k \<in> set (cfg_credential config) \<Longrightarrow> is_ok (resolve_material env k)"
    using resolve_pools_ok [of env "cfg_credential config" "[]"] acc by simp
qed

section \<open>Serving\<close>

text \<open>One event at a replica: a plan is made, or an attempt's outcome is recorded.\<close>

inductive credential_step :: "config \<Rightarrow> credentials \<Rightarrow> credentials \<Rightarrow> bool" for config where
  planned: "credential_step config c (fst (plan_at c config ns pr now))"
| succeeded: "credential_step config c (credentials_record_success c l)"
| failed: "credential_step config c (credentials_record_failure c l now)"

definition same_pools :: "credentials \<Rightarrow> credentials \<Rightarrow> bool" where
  "same_pools c0 c \<longleftrightarrow>
     map (map_prod id entries) (pools c) = map (map_prod id entries) (pools c0)
     \<and> platform_ns c = platform_ns c0 \<and> strategy c = strategy c0
     \<and> health_cooldown (health c) = health_cooldown (health c0)
     \<and> health_threshold (health c) = health_threshold (health c0)"

lemma resolve_pool_entry:
  "resolve_pool c config ns pr = Some (key, p, source) \<Longrightarrow> map_of (pools c) key = Some p"
  by (auto simp: resolve_pool_def split: option.splits if_splits)

lemma set_pool_same:
  assumes "map_of (pools c) key = Some p" "distinct (map fst (pools c))" "entries p' = entries p"
  shows "map (map_prod id entries) (pools (set_pool c key p')) = map (map_prod id entries) (pools c)"
  using assms by (auto simp: set_pool_def case_prod_unfold map_prod_def dest: eq_key_imp_eq_value)

lemma planned_same:
  assumes "distinct (map fst (pools c))"
  shows "same_pools c (fst (plan_at c config ns pr now))"
proof (cases "resolve_pool c config ns pr")
  case None
  then show ?thesis by (simp add: plan_at_def same_pools_def)
next
  case (Some r)
  obtain key p source where r: "r = (key, p, source)" by (cases r)
  let ?loop = "plan_loop now (ordered_entries p (strategy c)) (health c) [] []"
  obtain h' tried parked where loop: "?loop = (h', tried, parked)" by (cases ?loop)
  have "health_cooldown h' = health_cooldown (health c) \<and> health_threshold h' = health_threshold (health c)"
    using plan_loop_health [of now "ordered_entries p (strategy c)" "health c" "[]" "[]"] loop by simp
  moreover have "map (map_prod id entries) (pools (set_pool c key (fst (pool_order p (strategy c)))))
      = map (map_prod id entries) (pools c)"
    by (rule set_pool_same [OF resolve_pool_entry assms]) (use Some r in \<open>simp_all add: pool_order_fst\<close>)
  ultimately show ?thesis
    using plan_at_split [OF _ loop] Some r by (simp add: same_pools_def) (simp add: set_pool_def)
qed

lemma recorded_same: "same_pools c (credentials_record_success c l)" "same_pools c (credentials_record_failure c l now)"
  by (simp_all add: credentials_record_success_def credentials_record_failure_def same_pools_def health_defs Let_def)

lemma same_pools_keys: "same_pools c0 c \<Longrightarrow> map fst (pools c) = map fst (pools c0)"
proof -
  assume "same_pools c0 c"
  then have "map fst (map (map_prod id entries) (pools c)) = map fst (map (map_prod id entries) (pools c0))"
    by (simp add: same_pools_def)
  then show ?thesis by (simp add: o_def)
qed

lemma same_pools_trans: "same_pools c0 c \<Longrightarrow> same_pools c d \<Longrightarrow> same_pools c0 d"
  by (simp add: same_pools_def)

interpretation serving: inductive_invariant "credential_step config"
  "\<lambda>c. distinct (map fst (pools c0)) \<longrightarrow> same_pools c0 c" for config c0
proof (unfold_locales, goal_cases)
  case (1 c d)
  show ?case
  proof
    assume keys: "distinct (map fst (pools c0))"
    with 1 have same: "same_pools c0 c" by simp
    with keys have "distinct (map fst (pools c))" by (simp add: same_pools_keys)
    with 1(2) have "same_pools c d"
      by (induction rule: credential_step.induct) (simp_all add: planned_same recorded_same)
    with same show "same_pools c0 d" by (rule same_pools_trans)
  qed
qed

lemma same_pools_lookup:
  assumes "same_pools c0 c"
  shows "map_option entries (map_of (pools c) k) = map_option entries (map_of (pools c0) k)"
proof -
  have "map_of (map (map_prod id entries) ps) k = map_option entries (map_of ps k)" for ps :: "((string \<times> string) \<times> pool) list"
    by (induction ps) auto
  from this [of "pools c"] this [of "pools c0"] assms show ?thesis by (simp add: same_pools_def)
qed

lemma plan_loop_sets:
  "set (fst (snd (plan_loop now es h tried parked))) \<subseteq> set tried \<union> lease ` set es
   \<and> set (snd (snd (plan_loop now es h tried parked))) \<subseteq> set parked \<union> set es
   \<and> length (fst (snd (plan_loop now es h tried parked))) + length (snd (snd (plan_loop now es h tried parked)))
       = length tried + length parked + length es"
proof (induction es arbitrary: h tried parked)
  case (Cons e es)
  obtain h' el where el: "classify_at h (entry_health_key e) now = (h', el)" by fastforce
  note IH = Cons.IH [of h' "tried @ [lease e]" parked] Cons.IH [of h' "lease e # tried" parked]
    Cons.IH [of h' tried "parked @ [e]"]
  show ?case by (cases el) (use IH el in auto)
qed simp

lemma plan_from_pool:
  assumes "resolve_pool c config ns pr = Some (key, p, source)" and "entries p \<noteq> []"
  obtains plan where "snd (plan_at c config ns pr now) = Some plan" "plan_source plan = source"
    "plan_attempts plan \<noteq> []" "set (plan_attempts plan) \<subseteq> lease ` set (entries p)"
proof -
  let ?es = "ordered_entries p (strategy c)"
  obtain h' tried parked where loop: "plan_loop now ?es (health c) [] [] = (h', tried, parked)"
    by (cases "plan_loop now ?es (health c) [] []")
  have sets: "set tried \<subseteq> lease ` set (entries p)" "set parked \<subseteq> set (entries p)" "tried \<noteq> [] \<or> parked \<noteq> []"
    using plan_loop_sets [of now ?es "health c" "[]" "[]"] loop assms(2) by (auto simp: ordered_entries_sets)
  then have "lease (hd parked) \<in> lease ` set (entries p)" if "tried = []"
    using that by (meson hd_in_set imageI subset_iff)
  then show thesis using sets plan_at_split [OF assms(1) loop] by (intro that) (auto split: if_splits)
qed

text \<open>The pool a request may use, in terms of the configuration alone.\<close>

definition may_borrow :: "config \<Rightarrow> string \<Rightarrow> bool" where
  "may_borrow config ns \<longleftrightarrow>
     ns \<noteq> default_namespace config
     \<and> (case config_namespace config ns of Some n \<Rightarrow> ns_allow_platform_fallback n | None \<Rightarrow> True)"

definition configured_for :: "config \<Rightarrow> string \<Rightarrow> string \<Rightarrow> bool" where
  "configured_for config ns pr \<longleftrightarrow> (\<exists>k\<in>set (cfg_credential config). pool_of k = (ns, pr))"

definition owner_for :: "config \<Rightarrow> string \<Rightarrow> string \<Rightarrow> string option" where
  "owner_for config ns pr =
     (if configured_for config ns pr then Some ns
      else if may_borrow config ns \<and> configured_for config (default_namespace config) pr
      then Some (default_namespace config) else None)"

lemma serving_pools:
  assumes "credentials_resolve config env = Inr c0" and "reaches (credential_step config) c0 c"
  shows "map_option entries (map_of (pools c) (ns, pr)) =
      (if configured_for config ns pr then Some (pool_entries env (cfg_credential config) (ns, pr)) else None)"
    and "platform_ns c = default_namespace config"
proof -
  note resolved = resolved_pools [OF assms(1)]
  have same: "same_pools c0 c"
    using serving.reachable_good [OF assms(2), of c0] resolved(3) by (simp add: same_pools_def)
  show "map_option entries (map_of (pools c) (ns, pr)) =
      (if configured_for config ns pr then Some (pool_entries env (cfg_credential config) (ns, pr)) else None)"
    using same_pools_lookup [OF same, of "(ns, pr)"] resolved(1) [of "(ns, pr)"]
    by (auto simp: configured_for_def pool_entries_def filter_empty_conv Let_def)
  show "platform_ns c = default_namespace config" using same resolved(2) by (simp add: same_pools_def)
qed

lemma pool_entries_nonempty: "configured_for config ns pr \<Longrightarrow> pool_entries env (cfg_credential config) (ns, pr) \<noteq> []"
  by (auto simp: configured_for_def pool_entries_def filter_empty_conv)

lemma serving_resolve_pool:
  assumes "credentials_resolve config env = Inr c0" and "reaches (credential_step config) c0 c"
  shows "case owner_for config ns pr of
      None \<Rightarrow> resolve_pool c config ns pr = None
    | Some owner \<Rightarrow> \<exists>p. resolve_pool c config ns pr =
          Some ((owner, pr), p, if owner = default_namespace config then Platform else Byok)
        \<and> entries p = pool_entries env (cfg_credential config) (owner, pr) \<and> entries p \<noteq> []"
proof -
  note ns = serving_pools(2) [OF assms]
  have borrow: "allow_platform_fallback c config ns = may_borrow config ns"
    by (simp add: allow_platform_fallback_def may_borrow_def ns)
  have filled: "\<exists>p. map_of (pools c) (owner, pr) = Some p \<and> entries p = pool_entries env (cfg_credential config) (owner, pr)
      \<and> entries p \<noteq> []" if "configured_for config owner pr" for owner
    using serving_pools(1) [OF assms, of owner pr] pool_entries_nonempty [OF that, of env] that by auto
  have missing: "map_of (pools c) (owner, pr) = None" if "\<not> configured_for config owner pr" for owner
    using serving_pools(1) [OF assms, of owner pr] that by simp
  consider (own) "configured_for config ns pr"
    | (borrowed) "\<not> configured_for config ns pr" "may_borrow config ns" "configured_for config (default_namespace config) pr"
    | (none) "\<not> configured_for config ns pr" "\<not> (may_borrow config ns \<and> configured_for config (default_namespace config) pr)"
    by blast
  then show ?thesis
  proof cases
    case own
    with filled [OF own] show ?thesis by (auto simp: owner_for_def resolve_pool_def ns)
  next
    case borrowed
    with filled [OF borrowed(3)] missing [OF borrowed(1)] show ?thesis
      by (auto simp: owner_for_def resolve_pool_def ns borrow)
  next
    case none
    with missing [OF none(1)] missing [of "default_namespace config"] show ?thesis
      by (auto simp: owner_for_def resolve_pool_def ns borrow)
  qed
qed

lemma resolved_lease:
  assumes "credentials_resolve config env = Inr c0" and "e \<in> set (pool_entries env (cfg_credential config) (owner, pr))"
  shows "\<exists>k\<in>set (cfg_credential config). pool_of k = (owner, pr) \<and> lease_id (lease e) = credential_label k
     \<and> (\<exists>name. cred_env k = Some name \<and> env name = Some (lease_secret (lease e)))"
proof -
  obtain k where k: "k \<in> set (cfg_credential config)" "pool_of k = (owner, pr)" "e = entry_of k (secret env k)"
    using assms(2) by (auto simp: pool_entries_def)
  have "is_ok (resolve_material env k)" using resolved_pools(4) [OF assms(1) k(1)] .
  then obtain v where "resolve_material env k = Inr v" by (cases "resolve_material env k") simp_all
  with k show ?thesis by (auto simp: lease_def entry_of_def secret_def resolve_material_Inr)
qed

lemma plan_of_owner:
  assumes "credentials_resolve config env = Inr c0" and "reaches (credential_step config) c0 c"
    and "snd (plan_at c config ns pr now) = Some plan \<or> plan_pinned c config ns pr = Some plan"
  shows "\<exists>owner. owner_for config ns pr = Some owner
    \<and> (plan_source plan = Platform \<longleftrightarrow> owner = default_namespace config)
    \<and> plan_attempts plan \<noteq> []
    \<and> (\<forall>l\<in>set (plan_attempts plan). \<exists>k\<in>set (cfg_credential config).
         pool_of k = (owner, pr) \<and> lease_id l = credential_label k
         \<and> (\<exists>name. cred_env k = Some name \<and> env name = Some (lease_secret l)))"
proof -
  have "resolve_pool c config ns pr \<noteq> None"
    using assms(3) by (auto simp: plan_at_def plan_pinned_def split: option.splits)
  then obtain owner where owner: "owner_for config ns pr = Some owner"
    using serving_resolve_pool [OF assms(1,2), of ns pr] by (auto split: option.splits)
  let ?pe = "pool_entries env (cfg_credential config) (owner, pr)"
  obtain p where p: "resolve_pool c config ns pr =
      Some ((owner, pr), p, if owner = default_namespace config then Platform else Byok)"
    "entries p = ?pe" "entries p \<noteq> []"
    using serving_resolve_pool [OF assms(1,2), of ns pr] owner by auto
  have "plan_source plan = (if owner = default_namespace config then Platform else Byok)
      \<and> plan_attempts plan \<noteq> [] \<and> set (plan_attempts plan) \<subseteq> lease ` set ?pe"
    using assms(3)
  proof
    assume "snd (plan_at c config ns pr now) = Some plan"
    with plan_from_pool [OF p(1,3), of now] p(2) show ?thesis by (metis option.inject)
  next
    assume "plan_pinned c config ns pr = Some plan"
    with p show ?thesis by (auto simp: plan_pinned_def split: list.splits)
  qed
  then show ?thesis
    using owner resolved_lease [OF assms(1)] by (intro exI [of _ owner]) (auto split: if_splits)
qed

lemma serving_strategy:
  assumes "credentials_resolve config env = Inr c0" and "reaches (credential_step config) c0 c"
  shows "strategy c = pool_strategy (cfg_credential_pool config)"
proof -
  have "same_pools c0 c"
    using serving.reachable_good [OF assms(2), of c0] resolved_pools(3) [OF assms(1)] by (simp add: same_pools_def)
  then show ?thesis using assms(1) by (auto simp: same_pools_def credentials_resolve_def split: sum.splits)
qed

lemma ladder_bound: "ladder offset chosen i es < max (Suc chosen) (i + length es)"
proof (induction es arbitrary: offset i)
  case (Cons e es)
  from Cons.IH [of "offset - ucast (entry_weight e)" "Suc i"] show ?case by (auto simp: Let_def)
qed simp

lemma pool_start_bound: "entries p \<noteq> [] \<Longrightarrow> pool_start p st t < length (entries p)"
  using ladder_bound [of "t mod total_weight p" "length (entries p) - 1" 0 "entries p"]
  by (cases st) (auto simp: pool_start_def Let_def)

text \<open>Planning advances the cursor of the pool it serves, and no other.\<close>

lemma map_of_set_pool:
  "map_of (pools c) key = Some p \<Longrightarrow> map_of (pools (set_pool c key p')) = (map_of (pools c))(key \<mapsto> p')"
proof -
  have "map_of (map (\<lambda>(k, q). (k, if k = key then p' else q)) ps) k
      = (if k = key then map_option (\<lambda>_. p') (map_of ps key) else map_of ps k)" for ps :: "((string \<times> string) \<times> pool) list" and k
    by (induction ps) auto
  then show "map_of (pools c) key = Some p \<Longrightarrow> map_of (pools (set_pool c key p')) = (map_of (pools c))(key \<mapsto> p')"
    by (auto simp: set_pool_def)
qed

lemma planned_cursor:
  assumes "resolve_pool c config ns pr = Some (key, p, source)" and "entries p \<noteq> []"
  shows "map_of (pools (fst (plan_at c config ns pr now))) = (map_of (pools c))(key \<mapsto> p\<lparr>cursor := cursor p + 1\<rparr>)"
proof -
  obtain h' tried parked where loop: "plan_loop now (ordered_entries p (strategy c)) (health c) [] [] = (h', tried, parked)"
    by (cases "plan_loop now (ordered_entries p (strategy c)) (health c) [] []")
  have "fst (pool_order p (strategy c)) = p\<lparr>cursor := cursor p + 1\<rparr>"
    using assms(2) by (simp add: pool_order_def Let_def)
  with map_of_set_pool [OF resolve_pool_entry [OF assms(1)]] show ?thesis
    by (simp add: plan_at_split [OF assms(1) loop])
qed

section \<open>Status\<close>

lemma mset_concat_map: "mset xs = mset ys \<Longrightarrow> mset (concat (map f xs)) = mset (concat (map f ys))"
proof -
  assume same: "mset xs = mset ys"
  have "mset (concat (map f zs)) = sum_mset (image_mset (\<lambda>x. mset (f x)) (mset zs))" for zs
    by (induction zs) simp_all
  from this [of xs] this [of ys] same show ?thesis by simp
qed

section \<open>Properties\<close>

text \<open>
  C37. A credential that keeps failing costs at most one probe per cooldown: in every sequence of
  classifications, successes and failures under a clock that does not go back, two probes of one
  credential are at least the configured cooldown apart.  And after every such sequence, whatever the
  clock, a credential is parked if and only if its failures since its last success have reached the
  threshold; it is parked from the time of the failure that reaches it.
\<close>

theorem credential_probes_spaced:
  "(sorted (map snd ops) \<longrightarrow>
      sorted_wrt (\<lambda>a b. a + d \<le> b) (probe_times (health_step k) (credential_health_new n d) ops))
   \<and> (parked_since k (health_after k (credential_health_new n d) ops) \<noteq> None \<longleftrightarrow>
        unat (max n 1) \<le> consecutive_failures k ops)
   \<and> (length ts \<le> unat (max n 1) \<longrightarrow>
      parked_since k (fold (\<lambda>t h. health_record_failure_at h k t) ts (credential_health_new n d))
        = (if length ts < unat (max n 1) then None else Some (last ts)))"
proof (intro conjI impI)
  assume "sorted (map snd ops)"
  then show "sorted_wrt (\<lambda>a b. a + d \<le> b) (probe_times (health_step k) (credential_health_new n d) ops)"
    by (intro parking.probes_are_spaced) (simp_all add: credential_health_new_def)
next
  have pos: "0 < unat (max n 1)" by (auto simp: max_def word_le_nat_alt unat_gt_0)
  then have "counts k (unat (max n 1)) 0 (credential_health_new n d)"
    by (simp add: counts_def credential_health_new_def parked_since_def)
  from counts_after [OF this pos, of ops]
  show "parked_since k (health_after k (credential_health_new n d) ops) \<noteq> None \<longleftrightarrow>
        unat (max n 1) \<le> consecutive_failures k ops"
    by (simp add: counts_def consecutive_failures_def)
next
  assume len: "length ts \<le> unat (max n 1)"
  have "0 < unat (max n 1)" by (auto simp: max_def word_le_nat_alt unat_gt_0)
  with failures_park_at_threshold [of "credential_health_new n d" k 0 ts] len
  show "parked_since k (fold (\<lambda>t h. health_record_failure_at h k t) ts (credential_health_new n d))
        = (if length ts < unat (max n 1) then None else Some (last ts))"
    by (simp add: credential_health_new_def parked_since_def)
qed

theorem credential_probes_spaced_witness:
  "let ops = [(HealthFailureOp ''k'', 0), (ClassifyOp ''k'', 5), (ClassifyOp ''k'', 10), (ClassifyOp ''k'', 12),
              (HealthFailureOp ''k'', 13), (ClassifyOp ''k'', 21), (ClassifyOp ''k'', 23)];
       mixed = [(HealthFailureOp ''k'', 1), (HealthSuccessOp ''k'', 2), (HealthFailureOp ''k'', 3)] in
   sorted (map snd ops) \<and> probe_times (health_step ''k'') (credential_health_new 1 10) ops = [10, 23]
   \<and> sorted_wrt (\<lambda>a b. a + 10 \<le> b) (probe_times (health_step ''k'') (credential_health_new 1 10) ops)
   \<and> parked_since ''k'' (health_after ''k'' (credential_health_new 2 10) mixed) = None
   \<and> parked_since ''k'' (fold (\<lambda>t h. health_record_failure_at h ''k'' t) [4, 6] (credential_health_new 2 10)) = Some 6"
  using credential_probes_spaced [of "[(HealthFailureOp ''k'', 0), (ClassifyOp ''k'', 5), (ClassifyOp ''k'', 10),
      (ClassifyOp ''k'', 12), (HealthFailureOp ''k'', 13), (ClassifyOp ''k'', 21), (ClassifyOp ''k'', 23)]" 10 "''k''" 1 "[]"]
    credential_probes_spaced [of "[(HealthFailureOp ''k'', 1), (HealthSuccessOp ''k'', 2), (HealthFailureOp ''k'', 3)]"
      10 "''k''" 2 "[4, 6]"]
  by (simp add: health_defs credential_health_new_def saturating_duration_since_def saturating_add_def
      consecutive_failures_def Let_def)

lemma pool_entries_distinct:
  assumes "config_validate api mp config = Inr ()"
  shows "distinct (map entry_id (pool_entries env (cfg_credential config) pair))"
    and "distinct (map entry_health_key (pool_entries env (cfg_credential config) pair))"
proof -
  note labels = check_credentials_distinct [OF graph_parts(10) [OF validated_parts(4) [OF assms]], of pair, simplified]
  then show "distinct (map entry_id (pool_entries env (cfg_credential config) pair))"
    by (simp add: pool_entries_def o_def entry_of_def)
  have "map entry_health_key (pool_entries env (cfg_credential config) pair) =
      map (health_key (fst pair) (snd pair)) (map credential_label (filter (\<lambda>k. pool_of k = pair) (cfg_credential config)))"
    by (auto simp: pool_entries_def entry_of_def pool_of_def)
  with labels show "distinct (map entry_health_key (pool_entries env (cfg_credential config) pair))"
    by (simp add: distinct_map inj_on_def health_key_def)
qed

text \<open>
  C35. A plan is the pool's rotation with the parked credentials left out and a due probe in front:
  from a resolved, validated configuration, however much was served before, the plan of a request
  takes the owner's credentials in file order rotated to the one that the configured strategy chooses
  for the pool's cursor, tries first those whose cooldown has elapsed, then the healthy ones in that
  order, and reports the parked ones; when all are parked it still tries the strategy's choice, and
  only that.  Planning moves the cursor of that pool on by one and of no other.  It succeeds exactly
  when a credential is present, which is when one is configured for the namespace or the namespace
  may borrow the platform's.
\<close>

theorem plan_is_rotation_without_parked:
  assumes "config_validate api mp config = Inr ()" and "credentials_resolve config env = Inr c0"
    and "reaches (credential_step config) c0 c"
  shows "case owner_for config ns pr of
      None \<Rightarrow> snd (plan_at c config ns pr now) = None \<and> \<not> is_present c config ns pr
    | Some owner \<Rightarrow> is_present c config ns pr \<and>
        (\<exists>plan p. snd (plan_at c config ns pr now) = Some plan
          \<and> map_of (pools c) (owner, pr) = Some p
          \<and> entries p = pool_entries env (cfg_credential config) (owner, pr)
          \<and> (let start = pool_start p (pool_strategy (cfg_credential_pool config)) (cursor p);
                 es = rotate start (entries p);
                 found = (\<lambda>st. filter (\<lambda>e. entry_state (health c) now e = st) es)
             in start < length (entries p)
                \<and> (if \<forall>e\<in>set es. entry_state (health c) now e = ParkedState
                   then plan_attempts plan = [lease (entries p ! start)] \<and> plan_parked plan = map skip (tl es)
                   else plan_attempts plan = map lease (rev (found ProbeState) @ found HealthyState)
                        \<and> plan_parked plan = map skip (found ParkedState)))
          \<and> map_of (pools (fst (plan_at c config ns pr now))) =
              (map_of (pools c))((owner, pr) \<mapsto> p\<lparr>cursor := cursor p + 1\<rparr>))"
proof (cases "owner_for config ns pr")
  case None
  with serving_resolve_pool [OF assms(2,3), of ns pr] have "resolve_pool c config ns pr = None" by simp
  then show ?thesis using None
    by (auto simp: plan_at_def is_present_def resolve_pool_def split: option.splits if_splits)
next
  case (Some owner)
  let ?pe = "pool_entries env (cfg_credential config) (owner, pr)"
  obtain p source where p: "resolve_pool c config ns pr = Some ((owner, pr), p, source)" "entries p = ?pe" "?pe \<noteq> []"
    using serving_resolve_pool [OF assms(2,3), of ns pr] Some by auto
  note look = resolve_pool_entry [OF p(1)] and strategy = serving_strategy [OF assms(2,3)]
  note distinct = pool_entries_distinct [OF assms(1), of env "(owner, pr)"]
  let ?es = "ordered_entries p (strategy c)"
  have es: "?es = rotate (pool_start p (strategy c) (cursor p)) ?pe" by (simp add: ordered_entries_rotate p(2))
  have parked: "(\<forall>e\<in>set ?es. entry_state (health c) now e = ParkedState) \<longleftrightarrow>
      filter (\<lambda>e. entry_state (health c) now e = ProbeState) ?es
        @ filter (\<lambda>e. entry_state (health c) now e = HealthyState) ?es = []"
    by (auto simp: filter_empty_conv) (metis credential_state.exhaust)
  have "is_present c config ns pr"
    using p(1) by (auto simp: is_present_def resolve_pool_def split: option.splits if_splits)
  moreover define plan where "plan =
      (if \<forall>e\<in>set ?es. entry_state (health c) now e = ParkedState
       then \<lparr>plan_source = source, plan_attempts = [lease (hd ?es)], plan_parked = map skip (tl ?es)\<rparr>
       else \<lparr>plan_source = source,
             plan_attempts = map lease (rev (filter (\<lambda>e. entry_state (health c) now e = ProbeState) ?es)
               @ filter (\<lambda>e. entry_state (health c) now e = HealthyState) ?es),
             plan_parked = map skip (filter (\<lambda>e. entry_state (health c) now e = ParkedState) ?es)\<rparr>)"
  moreover have "snd (plan_at c config ns pr now) = Some plan"
    unfolding plan_def parked by (rule plan_at_pool [OF p(1)]) (use p(2,3) distinct in simp_all)
  moreover have start: "pool_start p (strategy c) (cursor p) < length (entries p)"
    using p(2,3) by (intro pool_start_bound) simp
  moreover have "hd ?es = entries p ! pool_start p (strategy c) (cursor p)"
    using start p(2,3) unfolding es p(2) by (simp add: hd_rotate_conv_nth)
  moreover have "map_of (pools (fst (plan_at c config ns pr now))) =
      (map_of (pools c))((owner, pr) \<mapsto> p\<lparr>cursor := cursor p + 1\<rparr>)"
    using planned_cursor [OF p(1)] p(2,3) by simp
  ultimately show ?thesis
    unfolding Some option.case Let_def strategy [symmetric] p(2) [symmetric]
    using look es p(2)
    by (intro conjI exI [of _ plan] exI [of _ p]) (simp_all del: set_rotate)
qed

text \<open>
  C8. Bring-your-own-key isolation.  Whatever plans were made and outcomes recorded since the
  credentials were resolved, every attempt of a plan carries the value of the environment variable of a
  credential the configuration declares for the requested provider, and either for the requesting
  namespace itself, or, only if that namespace declares none for the provider and may borrow, for the
  platform namespace; the attributed source says which.
\<close>

theorem byok_isolation:
  assumes "credentials_resolve config env = Inr c0" and "reaches (credential_step config) c0 c"
    and "snd (plan_at c config ns pr now) = Some plan \<or> plan_pinned c config ns pr = Some plan"
  shows "\<exists>owner. owner_for config ns pr = Some owner
    \<and> (owner = ns \<or> owner = default_namespace config \<and> \<not> configured_for config ns pr \<and> may_borrow config ns)
    \<and> (plan_source plan = Platform \<longleftrightarrow> owner = default_namespace config)
    \<and> plan_attempts plan \<noteq> []
    \<and> (\<forall>l\<in>set (plan_attempts plan). \<exists>k\<in>set (cfg_credential config).
         pool_of k = (owner, pr) \<and> lease_id l = credential_label k
         \<and> (\<exists>name. cred_env k = Some name \<and> env name = Some (lease_secret l)))"
  using plan_of_owner [OF assms] by (auto simp: owner_for_def split: if_splits)

lemma non_blank_env: "\<not> blank (cred_env k) \<Longrightarrow> \<exists>name. cred_env k = Some name \<and> name \<noteq> []"
  using trim_graphic [of "[]"] by (auto simp: blank_def split: option.splits)

lemma resolve_material_cases:
  assumes "\<not> blank (cred_env k)"
  shows "(\<exists>name v. cred_env k = Some name \<and> env name = Some v \<and> v \<noteq> [] \<and> resolve_material env k = Inr v)
    \<or> (\<exists>name. cred_env k = Some name \<and> (env name = None \<or> env name = Some [])
        \<and> resolve_material env k = Inl (MissingEnv (cred_namespace k) (cred_provider k) (credential_label k) name))"
  using non_blank_env [OF assms] by (auto simp: resolve_material_def split: option.splits if_splits)

text \<open>
  C38. Boot resolves every credential or names the one that is missing.  With a validated configuration,
  resolution fails exactly when some declared variable is unset or empty, and then with the first such
  credential's namespace, provider, label and variable; it never fails for want of a source.  When it
  succeeds every pool holds its credentials in file order, each with its own value.
\<close>

theorem boot_names_the_missing_variable:
  assumes "config_validate api mp config = Inr ()"
  shows "case credentials_resolve config env of
      Inl e \<Rightarrow> \<exists>before k rest name. cfg_credential config = before @ k # rest
          \<and> cred_env k = Some name \<and> (env name = None \<or> env name = Some [])
          \<and> (\<forall>b\<in>set before. \<exists>n v. cred_env b = Some n \<and> env n = Some v \<and> v \<noteq> [])
          \<and> e = MissingEnv (cred_namespace k) (cred_provider k) (credential_label k) name
    | Inr c \<Rightarrow> (\<forall>k\<in>set (cfg_credential config). \<exists>n v. cred_env k = Some n \<and> env n = Some v \<and> v \<noteq> [])
        \<and> (\<forall>pair. map_option entries (map_of (pools c) pair) =
             (let es = pool_entries env (cfg_credential config) pair in if es = [] then None else Some es))"
proof (cases "credentials_resolve config env")
  case (Inl e)
  then have "resolve_pools env (cfg_credential config) [] = Inl e"
    by (auto simp: credentials_resolve_def split: sum.splits)
  then obtain k where k: "find (\<lambda>k. \<not> is_ok (resolve_material env k)) (cfg_credential config) = Some k"
    "resolve_material env k = Inl e" by (auto simp: resolve_pools_Inl)
  then obtain i where i: "i < length (cfg_credential config)" "k = cfg_credential config ! i"
    "\<forall>j<i. is_ok (resolve_material env (cfg_credential config ! j))" by (auto simp: find_Some_iff)
  let ?before = "take i (cfg_credential config)"
  note fields = check_credentials_fields [OF graph_parts(10) [OF validated_parts(4) [OF assms]]]
  have split: "cfg_credential config = ?before @ k # drop (Suc i) (cfg_credential config)"
    using i(1,2) by (simp add: id_take_nth_drop)
  have "\<forall>b\<in>set ?before. \<exists>n v. cred_env b = Some n \<and> env n = Some v \<and> v \<noteq> []"
  proof
    fix b assume "b \<in> set ?before"
    then have "is_ok (resolve_material env b)" using i(1,3) by (auto simp: in_set_conv_nth)
    then obtain v where "resolve_material env b = Inr v" by (cases "resolve_material env b") simp_all
    then show "\<exists>n v. cred_env b = Some n \<and> env n = Some v \<and> v \<noteq> []" by (auto simp: resolve_material_Inr)
  qed
  moreover have "\<exists>name. cred_env k = Some name \<and> (env name = None \<or> env name = Some [])
      \<and> e = MissingEnv (cred_namespace k) (cred_provider k) (credential_label k) name"
    using resolve_material_cases [of k env] fields [of k] k(2) i(1,2) by auto
  ultimately show ?thesis using Inl split by auto
next
  case (Inr c)
  have "\<exists>n v. cred_env k = Some n \<and> env n = Some v \<and> v \<noteq> []" if "k \<in> set (cfg_credential config)" for k
    using resolved_pools(4) [OF Inr that] by (cases "resolve_material env k") (auto simp: resolve_material_Inr)
  with Inr resolved_pools(1) [OF Inr] show ?thesis by simp
qed

lemma sort_key_eqI:
  assumes "\<And>r. filter (\<lambda>x. f r = f x) xs = filter (\<lambda>x. f r = f x) ys"
  shows "sort_key f xs = sort_key f ys"
proof (rule properties_for_sort_key)
  have "count (mset zs) a = count (mset (filter (\<lambda>x. f a = f x) zs)) a" for zs a by simp
  with assms have "mset xs = mset ys" by (metis multiset_eqI)
  then show "mset (sort_key f ys) = mset xs" by simp
  show "filter (\<lambda>x. f k = f x) (sort_key f ys) = filter (\<lambda>x. f k = f x) xs" for k
    using sort_key_stable [of f "f k" ys] assms [of k] by (simp add: eq_commute)
qed simp

definition row_pair :: "credential_status \<Rightarrow> string \<times> string" where
  "row_pair row = (status_namespace row, status_provider row)"

lemma add_pool_pair: "row \<in> set (add_pool c now ns pr p s h) \<Longrightarrow> row_pair row = (ns, pr)"
  by (auto simp: add_pool_def row_pair_def)

lemma filter_pool_rows:
  assumes "distinct (map fst ps)" and "\<And>k p row. row \<in> set (f (k, p)) \<Longrightarrow> row_pair row = k"
  shows "filter (\<lambda>row. row_pair row = k) (concat (map f ps)) = (case map_of ps k of None \<Rightarrow> [] | Some p \<Rightarrow> f (k, p))"
  using assms(1)
proof (induction ps)
  case (Cons x ps)
  obtain j p where x: "x = (j, p)" by fastforce
  have "filter (\<lambda>row. row_pair row = k) (f (j, p)) = (if j = k then f (j, p) else [])"
    using assms(2) by (auto simp: filter_empty_conv filter_id_conv)
  moreover have "map_of ps k = None" if "j = k"
    using Cons.prems x that by (simp add: map_of_eq_None_iff)
  ultimately show ?case using Cons x by (cases "j = k") simp_all
qed simp

lemma filter_status_rows:
  assumes "distinct (map fst (pools c))" and "distinct (map fst ps)" and "map_of ps = map_of (pools c)"
  shows "filter (\<lambda>row. row_pair row = k) (status_rows (c\<lparr>pools := ps\<rparr>) config view now)
       = filter (\<lambda>row. row_pair row = k) (status_rows c config view now)"
proof -
  have add: "add_pool (c\<lparr>pools := ps\<rparr>) = add_pool c" by (auto simp: add_pool_def fun_eq_iff)
  have fallback: "allow_platform_fallback (c\<lparr>pools := ps\<rparr>) config ns = allow_platform_fallback c config ns" for ns
    by (simp add: allow_platform_fallback_def)
  have source: "source_name (c\<lparr>pools := ps\<rparr>) = source_name c" by (simp add: source_name_def fun_eq_iff)
  note same = add fallback source
  have rows: "filter (\<lambda>row. row_pair row = k) (concat (map (\<lambda>x. if P (fst x) then add_pool c now (fst (fst x)) (snd (fst x)) (snd x) (s x) b else []) ps))
      = filter (\<lambda>row. row_pair row = k) (concat (map (\<lambda>x. if P (fst x) then add_pool c now (fst (fst x)) (snd (fst x)) (snd x) (s x) b else []) (pools c)))"
    for P s b
    by (subst (1 2) filter_pool_rows)
      (use assms in \<open>auto split: if_splits dest: add_pool_pair\<close>)
  show ?thesis
  proof (cases view)
    case (NamespaceView n)
    note own = rows [of "\<lambda>k. fst k = n" "\<lambda>x. source_name c (fst (fst x))" False]
      and borrowed = rows [of "\<lambda>k. fst k = platform_ns c \<and> map_of (pools c) (n, snd k) = None" "\<lambda>_. ''platform''" True]
    show ?thesis
      by (simp only: NamespaceView credential_status_view.case status_rows_def case_prod_unfold same credentials.simps
          filter_append) (simp add: assms(3) own borrowed)
  next
    case AllView
    with rows [of "\<lambda>_. True" "\<lambda>x. source_name c (fst (fst x))" False] show ?thesis
      by (simp add: status_rows_def same case_prod_unfold)
  qed
qed

text \<open>
  The rows a namespace may see of the pool of one owner and provider: its own with their labels, the
  platform's, where it may borrow and has no pool of its own, with the label the operator gave, if any.
\<close>

definition visible_rows ::
  "credentials \<Rightarrow> config \<Rightarrow> string \<Rightarrow> instant \<Rightarrow> string \<Rightarrow> string \<Rightarrow> credential_status list" where
  "visible_rows c config ns now owner pr =
     (case map_of (pools c) (owner, pr) of
        None \<Rightarrow> []
      | Some p \<Rightarrow>
          let row = (\<lambda>label e. \<lparr>status_namespace = owner, status_provider = pr, status_credential_id = label,
                       status_source = (if owner = platform_ns c then ''platform'' else ''byok''),
                       status_state = state_at (health c) (entry_health_key e) now\<rparr>)
          in if owner = ns then map (\<lambda>e. row (Some (entry_id e)) e) (entries p)
             else if owner = platform_ns c \<and> allow_platform_fallback c config ns \<and> map_of (pools c) (ns, pr) = None
             then map (\<lambda>e. row (entry_status_id e) e) (entries p)
             else [])"

lemma status_rows_visible:
  assumes keys: "distinct (map fst (pools c))"
  shows "filter (\<lambda>row. row_pair row = (owner, pr)) (status_rows c config (NamespaceView ns) now)
       = visible_rows c config ns now owner pr"
proof -
  have rows: "filter (\<lambda>row. row_pair row = (owner, pr))
        (concat (map (\<lambda>x. if P (fst x) then add_pool c now (fst (fst x)) (snd (fst x)) (snd x) (s x) b else []) (pools c)))
      = (case map_of (pools c) (owner, pr) of
           None \<Rightarrow> [] | Some p \<Rightarrow> if P (owner, pr) then add_pool c now owner pr p (s ((owner, pr), p)) b else [])"
    for P s b
    by (subst filter_pool_rows [OF keys]) (auto split: if_splits option.splits dest: add_pool_pair)
  have own: "allow_platform_fallback c config ns \<Longrightarrow> ns \<noteq> platform_ns c"
    by (simp add: allow_platform_fallback_def)
  show ?thesis
    using own rows [of "\<lambda>k. fst k = ns" "\<lambda>x. source_name c (fst (fst x))" False]
      rows [of "\<lambda>k. fst k = platform_ns c \<and> map_of (pools c) (ns, snd k) = None" "\<lambda>_. ''platform''" True]
    by (cases "map_of (pools c) (owner, pr)"; cases "allow_platform_fallback c config ns")
      (auto simp: status_rows_def case_prod_unfold visible_rows_def add_pool_def source_name_def Let_def)
qed

text \<open>
  C39. The status view of a namespace has, for every owner and provider, exactly the rows it may see:
  each of its own credentials with its label, source and state; each of the platform's, where it may
  borrow and has no credential of its own for the provider, without the variable name its label
  defaults to; and of any other owner nothing.  And no view depends on the order in which the hash map
  of pools happens to iterate.
\<close>

theorem status_is_scoped_and_stable:
  "distinct (map fst (pools c)) \<longrightarrow>
     mset (filter (\<lambda>row. row_pair row = (owner, pr)) (status_at c config (NamespaceView ns) now))
       = mset (visible_rows c config ns now owner pr)
     \<and> (mset ps = mset (pools c) \<longrightarrow>
          status_at (c\<lparr>pools := ps\<rparr>) config view now = status_at c config view now)"
proof (intro conjI impI)
  assume keys: "distinct (map fst (pools c))"
  have "mset (filter (\<lambda>row. row_pair row = (owner, pr)) (status_at c config (NamespaceView ns) now))
      = mset (filter (\<lambda>row. row_pair row = (owner, pr)) (status_rows c config (NamespaceView ns) now))"
    by (simp add: status_at_def)
  then show "mset (filter (\<lambda>row. row_pair row = (owner, pr)) (status_at c config (NamespaceView ns) now))
       = mset (visible_rows c config ns now owner pr)"
    by (simp add: status_rows_visible [OF keys])
next
  let ?d = "c\<lparr>pools := ps\<rparr>"
  assume same: "distinct (map fst (pools c))" "mset ps = mset (pools c)"
  then have keys: "distinct (map fst ps)" by (metis mset_eq_imp_distinct_iff mset_map)
  have map: "map_of ps = map_of (pools c)"
    using same keys by (metis map_of_eqI map_of_inject_set mset_eq_setD)
  note filters = filter_status_rows [OF same(1) keys map]
  show "status_at ?d config view now = status_at c config view now"
    unfolding status_at_def
  proof (rule sort_key_eqI)
    fix r
    have coarse: "filter (\<lambda>row. status_order r = status_order row) rows =
        filter (\<lambda>row. status_order r = status_order row) (filter (\<lambda>row. row_pair row = row_pair r) rows)" for rows
      by (simp, rule filter_cong) (auto simp: status_order_def row_pair_def)
    show "filter (\<lambda>row. status_order r = status_order row) (status_rows ?d config view now) =
        filter (\<lambda>row. status_order r = status_order row) (status_rows c config view now)"
      by (subst (1 2) coarse) (simp only: filters)
  qed
qed

section \<open>An example\<close>

definition sample_env :: "string \<rightharpoonup> string" where
  "sample_env = [''KEY_A'' \<mapsto> ''sk-a'', ''KEY_B'' \<mapsto> ''sk-b'', ''KEY_C'' \<mapsto> ''sk-c'']"

definition sample_credentials :: credentials where
  "sample_credentials = (case credentials_resolve sample_config sample_env of Inr c \<Rightarrow> c)"

lemma sample_resolved: "credentials_resolve sample_config sample_env = Inr sample_credentials"
proof -
  have "is_ok (resolve_pools sample_env (cfg_credential sample_config) [])"
    unfolding resolve_pools_ok by (simp add: sample_config_def resolve_material_def sample_env_def)
  then have "is_ok (credentials_resolve sample_config sample_env)"
    by (cases "resolve_pools sample_env (cfg_credential sample_config) []") (simp_all add: credentials_resolve_def)
  then show ?thesis by (cases "credentials_resolve sample_config sample_env") (simp_all add: sample_credentials_def)
qed

lemma sample_owners:
  "owner_for sample_config ''acme'' ''openai'' = Some ''acme''"
  "owner_for sample_config ''acme'' ''anthropic'' = None"
  "default_namespace sample_config = ''platform''"
  by (simp_all add: owner_for_def configured_for_def may_borrow_def sample_config_def pool_of_def
      default_namespace_def config_namespace_def)

text \<open>A tenant with its own key, after one failure was recorded against it.\<close>

definition sample_serving :: credentials where
  "sample_serving = credentials_record_failure sample_credentials
     \<lparr>lease_id = ''own'', lease_secret = ''sk-c'', lease_health_key = ''acme/openai/own''\<rparr> 5"

lemma sample_reaches: "reaches (credential_step sample_config) sample_credentials sample_serving"
  unfolding sample_serving_def by (rule reaches_step, rule reaches_refl, rule failed)

theorem plan_is_rotation_without_parked_witness:
  "config_validate no_urls (2 ^ 61 - 1) sample_config = Inr ()
   \<and> snd (plan_at sample_serving sample_config ''acme'' ''anthropic'' 9) = None
   \<and> is_present sample_serving sample_config ''acme'' ''openai''
   \<and> snd (plan_at sample_serving sample_config ''acme'' ''openai'' 9) \<noteq> None"
  using plan_is_rotation_without_parked [OF sample_config_valid sample_resolved sample_reaches, of "''acme''" "''anthropic''" 9]
    plan_is_rotation_without_parked [OF sample_config_valid sample_resolved sample_reaches, of "''acme''" "''openai''" 9]
    sample_config_valid
  by (auto simp: sample_owners)

theorem byok_isolation_witness:
  "\<exists>plan. snd (plan_at sample_serving sample_config ''acme'' ''openai'' 9) = Some plan
     \<and> plan_source plan = Byok \<and> plan_attempts plan \<noteq> []
     \<and> (\<forall>l\<in>set (plan_attempts plan). lease_secret l = ''sk-c'')"
proof -
  obtain p where "resolve_pool sample_serving sample_config ''acme'' ''openai'' = Some ((''acme'', ''openai''), p, Byok)"
    "entries p \<noteq> []"
    using serving_resolve_pool [OF sample_resolved sample_reaches, of "''acme''" "''openai''"]
    by (auto simp: sample_owners)
  from plan_from_pool [OF this, of 9] obtain plan
    where plan: "snd (plan_at sample_serving sample_config ''acme'' ''openai'' 9) = Some plan" "plan_source plan = Byok"
    by blast
  with byok_isolation [OF sample_resolved sample_reaches, of "''acme''" "''openai''" 9 plan]
  have "plan_attempts plan \<noteq> [] \<and> (\<forall>l\<in>set (plan_attempts plan). \<exists>k\<in>set (cfg_credential sample_config).
      pool_of k = (''acme'', ''openai'') \<and> (\<exists>name. cred_env k = Some name \<and> sample_env name = Some (lease_secret l)))"
    by (simp add: sample_owners) blast
  then have "plan_attempts plan \<noteq> [] \<and> (\<forall>l\<in>set (plan_attempts plan). lease_secret l = ''sk-c'')"
    by (auto simp: sample_config_def pool_of_def sample_env_def)
  with plan show ?thesis by blast
qed

theorem boot_names_the_missing_variable_witness:
  "config_validate no_urls (2 ^ 61 - 1) sample_config = Inr ()
   \<and> credentials_resolve sample_config (sample_env(''KEY_B'' := None)) =
       Inl (MissingEnv ''platform'' ''openai'' ''KEY_B'' ''KEY_B'')"
proof -
  let ?env = "sample_env(''KEY_B'' := None)"
  have "\<not> is_ok (resolve_pools ?env (cfg_credential sample_config) [])"
    unfolding resolve_pools_ok by (simp add: sample_config_def resolve_material_def sample_env_def)
  then obtain e where e: "credentials_resolve sample_config ?env = Inl e"
    by (cases "resolve_pools ?env (cfg_credential sample_config) []") (simp_all add: credentials_resolve_def)
  with boot_names_the_missing_variable [OF sample_config_valid, of ?env]
  obtain before k rest name where k: "cfg_credential sample_config = before @ k # rest"
    "cred_env k = Some name" "?env name = None \<or> ?env name = Some []"
    "e = MissingEnv (cred_namespace k) (cred_provider k) (credential_label k) name"
    by auto
  then have "k \<in> set (cfg_credential sample_config)" by simp
  with k(2-4) have "e = MissingEnv ''platform'' ''openai'' ''KEY_B'' ''KEY_B''"
    by (auto simp: sample_config_def sample_env_def credential_label_def split: if_splits)
  with e sample_config_valid show ?thesis by simp
qed

definition sample_pools :: "((string \<times> string) \<times> pool) list" where
  "sample_pools =
     (let p = pool_new [\<lparr>entry_id = ''KEY'', entry_status_id = None, entry_material = ''s'', entry_weight = 1,
                         entry_health_key = ''k''\<rparr>]
      in [((''platform'', ''x''), p), ((''acme'', ''y''), p)])"

definition sample_table :: credentials where
  "sample_table =
     \<lparr>pools = sample_pools, platform_ns = ''platform'', strategy = RoundRobin, health = credential_health_new 1 10\<rparr>"

theorem status_is_scoped_and_stable_witness:
  "status_at (sample_table\<lparr>pools := rev sample_pools\<rparr>) sample_config AllView 0 = status_at sample_table sample_config AllView 0
   \<and> mset (filter (\<lambda>row. row_pair row = (''acme'', ''y'')) (status_at sample_table sample_config (NamespaceView ''acme'') 0))
       = {#\<lparr>status_namespace = ''acme'', status_provider = ''y'', status_credential_id = Some ''KEY'',
            status_source = ''byok'', status_state = HealthyState\<rparr>#}"
proof -
  have "distinct (map fst (pools sample_table))" "mset (rev sample_pools) = mset (pools sample_table)"
    by (simp_all add: sample_table_def sample_pools_def Let_def)
  moreover have "visible_rows sample_table sample_config ''acme'' 0 ''acme'' ''y'' =
      [\<lparr>status_namespace = ''acme'', status_provider = ''y'', status_credential_id = Some ''KEY'',
        status_source = ''byok'', status_state = HealthyState\<rparr>]"
    by (simp add: visible_rows_def sample_table_def sample_pools_def pool_new_def state_at_def credential_health_new_def Let_def)
  ultimately show ?thesis
    using status_is_scoped_and_stable [where view = AllView and now = 0 and config = sample_config and ns = "''acme''"
        and owner = "''acme''" and pr = "''y''" and c = sample_table and ps = "rev sample_pools"]
    by simp
qed

text \<open>
  The key of the health table joins its three parts with slashes, which none of them is checked not to
  contain: two credentials of different providers, or of different namespaces, can share a circuit, and
  the failures of one then park the other.
\<close>

lemma health_keys_collide:
  "health_key ''a'' ''b/c'' ''d'' = health_key ''a'' ''b'' ''c/d''"
  "health_key ''a/b'' ''c'' ''d'' = health_key ''a'' ''b/c'' ''d''"
  by (simp_all add: health_key_def)

end
