(* ===== verification/Rotation.thy ===== *)
theory Rotation
  imports Credential_Laws
begin

text \<open>
  Fairness of a credential pool's rotation, \<open>Pool::order\<close> of \<open>credentials.rs\<close>: over consecutive
  requests each credential comes first as often as its weight says.
\<close>

section \<open>The ladder\<close>

fun nladder :: "nat \<Rightarrow> nat \<Rightarrow> nat \<Rightarrow> nat list \<Rightarrow> nat" where
  "nladder offset chosen i [] = chosen"
| "nladder offset chosen i (w # ws) = (if offset < w then i else nladder (offset - w) chosen (Suc i) ws)"

definition weights :: "pool_entry list \<Rightarrow> nat list" where
  "weights es = map (\<lambda>e. unat (entry_weight e)) es"

lemma unat_ucast_u32_u64: "unat (ucast (x :: u32) :: u64) = unat x"
proof -
  have "unat x < 2 ^ 32" using unsigned_less [of x] by simp
  then show ?thesis by (simp add: unsigned_ucast_eq take_bit_nat_eq_self)
qed

lemma ladder_nladder: "ladder offset chosen i es = nladder (unat offset) chosen i (weights es)"
  by (induction offset chosen i es rule: ladder.induct)
    (simp_all add: weights_def Let_def word_less_nat_alt unat_ucast_u32_u64 unat_sub word_le_nat_alt not_less)

lemma nladder_range: "x < sum_list ws \<Longrightarrow> i \<le> nladder x ch i ws \<and> nladder x ch i ws < i + length ws"
  by (induction x ch i ws rule: nladder.induct) (force simp: not_less less_diff_conv2 add.commute)+

lemma upt_split: "[0..<(m :: nat) + n] = [0..<m] @ map (\<lambda>x. x + m) [0..<n]"
  by (simp add: map_add_upt upt_add_eq_append [of 0 m n, simplified] add.commute)

lemma nladder_share:
  "j < length ws \<Longrightarrow> length (filter (\<lambda>x. nladder x ch i ws = i + j) [0..<sum_list ws]) = ws ! j"
proof (induction ws arbitrary: i j)
  case (Cons w ws)
  have first: "filter (\<lambda>x. nladder x ch i (w # ws) = i + j) [0..<w] = (if j = 0 then [0..<w] else [])"
    by (auto simp: filter_empty_conv filter_id_conv)
  have "filter (\<lambda>x. nladder (x + w) ch i (w # ws) = i + j) [0..<sum_list ws]
      = filter (\<lambda>x. nladder x ch (Suc i) ws = i + j) [0..<sum_list ws]"
    by (rule filter_cong) simp_all
  moreover have "filter (\<lambda>x. nladder x ch (Suc i) ws = i + j) [0..<sum_list ws] = []" if "j = 0"
    using nladder_range [of _ ws "Suc i" ch] that by (fastforce simp: filter_empty_conv)
  moreover have "length (filter (\<lambda>x. nladder x ch (Suc i) ws = i + j) [0..<sum_list ws]) = ws ! (j - 1)" if "j \<noteq> 0"
    using Cons.IH [of "j - 1" "Suc i"] Cons.prems that by simp
  ultimately show ?case
    using first by (cases "j = 0") (simp_all add: upt_split filter_map o_def)
qed simp

section \<open>Consecutive requests\<close>

fun pool_orders :: "pool \<Rightarrow> selection_strategy \<Rightarrow> nat \<Rightarrow> nat list list" where
  "pool_orders p s 0 = []"
| "pool_orders p s (Suc n) = snd (pool_order p s) # pool_orders (fst (pool_order p s)) s n"

lemma filter_rotate: "length (filter P (rotate k xs)) = length (filter P xs)"
proof -
  have "length (filter P (drop n xs @ take n xs)) = length (filter P xs)" for n
    by (metis add.commute append_take_drop_id filter_append length_append)
  then show ?thesis by (simp add: rotate_drop_take)
qed

lemma pool_start_cursor: "pool_start (p\<lparr>cursor := c\<rparr>) s t = pool_start p s t"
  by (cases s) (simp_all add: pool_start_def)

lemma pool_orders_rotate:
  assumes "entries p \<noteq> []"
  shows "pool_orders p s m =
    map (\<lambda>k. rotate (pool_start p s (cursor p + of_nat k)) [0..<length (entries p)]) [0..<m]"
  using assms
proof (induction m arbitrary: p)
  case (Suc m)
  let ?p = "fst (pool_order p s)"
  have p: "?p = p\<lparr>cursor := cursor p + 1\<rparr>" using Suc.prems by (simp add: pool_order_def Let_def)
  have "snd (pool_order p s) = rotate (pool_start p s (cursor p)) [0..<length (entries p)]"
    using Suc.prems by (simp add: pool_order_def Let_def rotation_is_rotate)
  moreover have "pool_orders ?p s m = map (\<lambda>k. rotate (pool_start p s (cursor p + of_nat (Suc k))) [0..<length (entries p)]) [0..<m]"
    using Suc.IH [of ?p] Suc.prems p by (simp add: pool_start_cursor add.assoc)
  ultimately show ?case by (simp add: upt_conv_Cons map_Suc_upt [symmetric] del: upt_Suc)
qed simp

lemma hd_rotate_upt: "k < n \<Longrightarrow> hd (rotate k [0..<n]) = k"
  by (simp add: hd_rotate_conv_nth)

lemma nladder_chosen: "nladder x ch i ws < i + length ws \<or> nladder x ch i ws = ch"
  by (induction x ch i ws rule: nladder.induct) auto

lemma pool_start_range: "entries p \<noteq> [] \<Longrightarrow> pool_start p s t < length (entries p)"
  using nladder_chosen [of "unat (t mod total_weight p)" "length (entries p) - 1" 0 "weights (entries p)"]
  by (cases s) (auto simp: pool_start_def Let_def ladder_nladder weights_def)

lemma starts_of_orders:
  assumes "entries p \<noteq> []"
  shows "map hd (pool_orders p s m) = map (\<lambda>k. pool_start p s (cursor p + of_nat k)) [0..<m]"
  using pool_start_range [OF assms] by (simp add: pool_orders_rotate [OF assms] hd_rotate_upt)

lemma window_is_rotation:
  assumes "unat (c :: u64) + m \<le> 2 ^ 64" and "0 < m"
  shows "map (\<lambda>k. unat (c + of_nat k) mod m) [0..<m] = rotate (unat c) [0..<m]"
proof (rule nth_equalityI)
  fix k assume k: "k < length (map (\<lambda>k. unat (c + of_nat k) mod m) [0..<m])"
  have "unat (c + of_nat k) = unat c + k"
    using assms k by (simp add: unat_word_ariths unat_of_nat take_bit_nat_eq_self_iff)
  with k assms show "map (\<lambda>k. unat (c + of_nat k) mod m) [0..<m] ! k = rotate (unat c) [0..<m] ! k"
    by (simp add: nth_rotate)
qed simp

lemma count_starts:
  "length (filter (\<lambda>o'. hd o' = i) os) = length (filter (\<lambda>x. x = i) (map hd os))"
  by (simp add: filter_map o_def)

lemma total_weight_new:
  assumes "es \<noteq> []" "\<forall>e\<in>set es. entry_weight e \<noteq> 0" "length es < 2 ^ 32"
  shows "unat (total_weight (pool_new es)) = sum_list (weights es)" "0 < sum_list (weights es)"
proof -
  have bound: "unat (sum_list (map (\<lambda>e. ucast (entry_weight e)) xs) :: u64) = sum_list (weights xs)
      \<and> sum_list (weights xs) \<le> length xs * (2 ^ 32 - 1)" if "length xs < 2 ^ 32" for xs
    using that
  proof (induction xs)
    case (Cons x xs)
    have "unat (entry_weight x) < 2 ^ 32" using unsigned_less [of "entry_weight x"] by simp
    with Cons show ?case by (simp add: weights_def unat_word_ariths unat_ucast_u32_u64)
  qed (simp add: weights_def)
  show pos: "0 < sum_list (weights es)"
    using assms(1,2) by (cases es) (auto simp: weights_def unat_gt_0)
  with bound [OF assms(3)] show "unat (total_weight (pool_new es)) = sum_list (weights es)"
    by (simp add: pool_new_def max_def word_le_nat_alt Suc_le_eq)
qed

text \<open>
  C36. Rotation is fair.  Every order of a pool is a rotation of the whole pool, so no credential is
  left out or met twice; in a round-robin pool every window of as many requests as there are
  credentials starts once with each, and in a weighted pool every window of as many requests as the
  weights sum to starts with each credential exactly as often as its weight, wherever in its range
  the 64-bit cursor stands as long as the window does not cross the wrap-around.
\<close>

theorem rotation_is_fair:
  fixes p :: pool
  assumes "entries p \<noteq> []" and "\<forall>e\<in>set (entries p). entry_weight e \<noteq> 0" and "length (entries p) < 2 ^ 32"
    and "total_weight p = total_weight (pool_new (entries p))" and "i < length (entries p)"
  shows "(\<forall>ord\<in>set (pool_orders p s m). \<exists>k. ord = rotate k [0..<length (entries p)])
    \<and> (unat (cursor p) + length (entries p) \<le> 2 ^ 64 \<longrightarrow>
         length (filter (\<lambda>ord. hd ord = i) (pool_orders p RoundRobin (length (entries p)))) = 1)
    \<and> (let w = sum_list (weights (entries p)) in unat (cursor p) + w \<le> 2 ^ 64 \<longrightarrow>
         length (filter (\<lambda>ord. hd ord = i) (pool_orders p Weighted w)) = unat (entry_weight (entries p ! i)))"
proof (unfold Let_def, intro conjI impI)
  show "\<forall>ord\<in>set (pool_orders p s m). \<exists>k. ord = rotate k [0..<length (entries p)]"
    by (auto simp: pool_orders_rotate [OF assms(1)])
next
  let ?n = "length (entries p)"
  assume window: "unat (cursor p) + ?n \<le> 2 ^ 64"
  have "map hd (pool_orders p RoundRobin ?n) = rotate (unat (cursor p)) [0..<?n]"
    using window_is_rotation [OF window] assms(1)
    by (simp add: starts_of_orders [OF assms(1)] pool_start_def)
  moreover have "length (filter (\<lambda>x. x = i) [0..<?n]) = 1"
    using assms(5) by (simp add: distinct_length_filter)
  ultimately show "length (filter (\<lambda>ord. hd ord = i) (pool_orders p RoundRobin ?n)) = 1"
    by (simp add: count_starts filter_rotate)
next
  let ?w = "sum_list (weights (entries p))"
  assume window: "unat (cursor p) + ?w \<le> 2 ^ 64"
  note total = total_weight_new [OF assms(1-3)]
  let ?f = "\<lambda>x. nladder x (length (entries p) - 1) 0 (weights (entries p))"
  have "map hd (pool_orders p Weighted ?w) = map ?f (map (\<lambda>k. unat (cursor p + of_nat k) mod ?w) [0..<?w])"
    using total(1) assms(4)
    by (simp add: starts_of_orders [OF assms(1)] pool_start_def ladder_nladder unat_mod Let_def)
  also have "\<dots> = map ?f (rotate (unat (cursor p)) [0..<?w])"
    using window_is_rotation [OF window] total(2) by simp
  finally have "length (filter (\<lambda>ord. hd ord = i) (pool_orders p Weighted ?w))
      = length (filter (\<lambda>x. ?f x = 0 + i) [0..<?w])"
    by (simp add: count_starts filter_map o_def filter_rotate)
  also have "\<dots> = unat (entry_weight (entries p ! i))"
    using nladder_share [of i "weights (entries p)" "length (entries p) - 1" 0] assms(5) by (simp add: weights_def)
  finally show "length (filter (\<lambda>ord. hd ord = i) (pool_orders p Weighted ?w)) = unat (entry_weight (entries p ! i))" .
qed

definition sample_entry :: "string \<Rightarrow> u32 \<Rightarrow> pool_entry" where
  "sample_entry i w = \<lparr>entry_id = i, entry_status_id = None, entry_material = ''s'', entry_weight = w, entry_health_key = i\<rparr>"

definition sample_pool :: pool where
  "sample_pool = (pool_new [sample_entry ''a'' 1, sample_entry ''b'' 3])\<lparr>cursor := 7\<rparr>"

theorem rotation_is_fair_witness:
  "sum_list (weights (entries sample_pool)) = 4 \<and> length (entries sample_pool) = 2
   \<and> length (filter (\<lambda>ord. hd ord = 1) (pool_orders sample_pool Weighted 4)) = 3
   \<and> length (filter (\<lambda>ord. hd ord = 1) (pool_orders sample_pool RoundRobin 2)) = 1"
proof -
  have p: "entries sample_pool = [sample_entry ''a'' 1, sample_entry ''b'' 3]" "cursor sample_pool = 7"
    "total_weight sample_pool = total_weight (pool_new (entries sample_pool))"
    by (simp_all add: sample_pool_def pool_new_def)
  have sums: "sum_list (weights (entries sample_pool)) = 4" "length (entries sample_pool) = 2"
    by (simp_all add: p weights_def sample_entry_def)
  have "\<forall>e\<in>set (entries sample_pool). entry_weight e \<noteq> 0" by (simp add: p sample_entry_def)
  moreover have "entries sample_pool \<noteq> []" by (simp add: p)
  ultimately have "length (filter (\<lambda>ord. hd ord = 1) (pool_orders sample_pool Weighted 4)) = unat (entry_weight (entries sample_pool ! 1))
      \<and> length (filter (\<lambda>ord. hd ord = 1) (pool_orders sample_pool RoundRobin 2)) = 1"
    using rotation_is_fair [of sample_pool 1 Weighted 0, OF _ _ _ p(3)] sums p(2)
    by (simp add: Let_def del: pool_orders.simps)
  then show ?thesis using sums by (simp add: p sample_entry_def del: pool_orders.simps)
qed

end
