(* ===== verification/Gateway_Error.thy ===== *)
theory Gateway_Error
  imports Provider_Error Admission
begin

text \<open>
  The errors a caller sees: \<open>crates/gateway/src/error.rs\<close> (\<open>GatewayError\<close>, its status, code, text and
  response), with the transport errors of \<open>crates/gateway-transport/src/lib.rs\<close> and the capabilities
  of \<open>crates/gateway/src/principals.rs\<close> they name.  The texts are the \<open>Display\<close> forms the \<open>error\<close>
  attributes give.
\<close>

section \<open>Texts\<close>

fun decimal :: "nat \<Rightarrow> string" where
  "decimal n = (if n < 10 then [char_of (48 + n)] else decimal (n div 10) @ [char_of (48 + n mod 10)])"

declare decimal.simps [simp del]

definition ticked :: "string \<Rightarrow> string" where
  "ticked s = [CHR 0x60] @ s @ [CHR 0x60]"

fun provider_error_message :: "provider_error \<Rightarrow> string" where
  "provider_error_message (InvalidRequest m) = ''invalid provider request: '' @ m"
| "provider_error_message (ContextWindowExceeded m) = ''context window exceeded: '' @ m"
| "provider_error_message (Unsupported m) = ''surface unsupported by provider: '' @ m"
| "provider_error_message (ModelUnavailable _) = ''upstream model unavailable''"
| "provider_error_message (Dependency _) = ''provider dependency failed''"
| "provider_error_message (InvalidStream m) = ''provider stream was invalid: '' @ m"
| "provider_error_message (RateLimitedStream m) = ''provider stream was rate limited: '' @ m"
| "provider_error_message (AllCircuitsOpen _) = ''all provider circuits are open''"

fun rejection_message :: "admission_rejection \<Rightarrow> string" where
  "rejection_message Tenant = ''tenant concurrency limit exceeded''"
| "rejection_message TenantCapacity = ''admission tenant capacity exhausted''"
| "rejection_message Streams = ''concurrent stream limit exceeded''"
| "rejection_message Global = ''gateway is at its concurrent request limit''"
| "rejection_message QueueFull = ''admission queue is full''"
| "rejection_message QueueTimeout = ''admission queue wait expired''"
| "rejection_message Settlement = ''settlement capacity exhausted''"

section \<open>Transport errors\<close>

datatype timeout_kind = Connect | ResponseHeaders | BufferedBody | StreamIdle | Overall

datatype timeout_bound = PhaseBound | WalkBudget

datatype transport_error =
    ProviderFailure provider_error
  | UpstreamFailure u16 provider_error
  | HttpFailure string
  | Timeout timeout_kind timeout_bound u64
  | BodyTooLarge u64

fun transport_provider_error :: "transport_error \<Rightarrow> provider_error option" where
  "transport_provider_error (ProviderFailure e) = Some e"
| "transport_provider_error (UpstreamFailure _ e) = Some e"
| "transport_provider_error _ = None"

fun timeout_kind_of :: "transport_error \<Rightarrow> timeout_kind option" where
  "timeout_kind_of (Timeout k _ _) = Some k"
| "timeout_kind_of _ = None"

fun timeout_phase :: "timeout_kind \<Rightarrow> string" where
  "timeout_phase Connect = ''connecting to the provider''"
| "timeout_phase ResponseHeaders = ''waiting for provider response headers''"
| "timeout_phase BufferedBody = ''reading the provider response body''"
| "timeout_phase StreamIdle = ''waiting for the next provider stream chunk''"
| "timeout_phase Overall = ''the request'' @ [CHR 0x27] @ ''s failover budget''"

fun timeout_message :: "timeout_kind \<Rightarrow> timeout_bound \<Rightarrow> u64 \<Rightarrow> string" where
  "timeout_message Overall _ _ =
     timeout_phase Overall @ '' was spent before this attempt was dispatched''"
| "timeout_message k WalkBudget ms =
     timeout_phase k @ '' exceeded the '' @ decimal (unat ms) @ ''ms left of '' @ timeout_phase Overall"
| "timeout_message k PhaseBound ms =
     timeout_phase k @ '' exceeded its '' @ decimal (unat ms) @ ''ms bound''"

fun transport_message :: "transport_error \<Rightarrow> string" where
  "transport_message (ProviderFailure e) = provider_error_message e"
| "transport_message (UpstreamFailure _ e) = provider_error_message e"
| "transport_message (HttpFailure m) = ''transport: '' @ m"
| "transport_message (Timeout k b ms) = ''transport: '' @ timeout_message k b ms"
| "transport_message (BodyTooLarge limit) =
     ''transport: provider response body exceeded its '' @ decimal (unat limit) @ ''-byte bound''"

section \<open>Capabilities\<close>

datatype principal_capability =
    ChatCap | MessagesCap | EmbeddingsCap | ResponsesCap | ModelsCap | CredentialsCap | CredentialsAllCap

fun capability_name :: "principal_capability \<Rightarrow> string" where
  "capability_name ChatCap = ''chat''"
| "capability_name MessagesCap = ''messages''"
| "capability_name EmbeddingsCap = ''embeddings''"
| "capability_name ResponsesCap = ''responses''"
| "capability_name ModelsCap = ''models''"
| "capability_name CredentialsCap = ''credentials''"
| "capability_name CredentialsAllCap = ''credentials:all''"

section \<open>Gateway errors\<close>

datatype gateway_error =
    ModelUnprefixed string
  | UnknownProvider string
  | ModelBlocked string
  | UnpricedModel string
  | NoCredential string string
  | BudgetExceeded string
  | RequestCostCeilingExceeded string u64 u64
  | BudgetUnavailable
  | UsageNotDurable string
  | ContinuationAffinityUnavailable string string
  | Overloaded admission_rejection
  | RequestTooLarge
  | UnsupportedMediaType
  | PromptTooLarge u64
  | OutputLimitExceeded u64 u64
  | DrainingError
  | Unauthorized
  | ScopeInsufficient principal_capability
  | InvalidNamespace
  | UnknownNamespace
  | UnknownBudget
  | NamespaceConflict
  | StoreUnavailable
  | NamespaceNotAuthorized
  | GatewayProvider provider_error
  | GatewayTransport transport_error
  | BadRequest string
  | UnsupportedWire string string string

fun provider_status :: "provider_error \<Rightarrow> u16" where
  "provider_status (InvalidRequest _) = 400"
| "provider_status (ContextWindowExceeded _) = 400"
| "provider_status (Unsupported _) = 501"
| "provider_status (ModelUnavailable _) = 502"
| "provider_status (Dependency _) = 502"
| "provider_status (InvalidStream _) = 502"
| "provider_status (RateLimitedStream _) = 502"
| "provider_status (AllCircuitsOpen _) = 503"

fun error_status :: "gateway_error \<Rightarrow> u16" where
  "error_status (ModelUnprefixed _) = 400"
| "error_status (UnknownProvider _) = 400"
| "error_status (ModelBlocked _) = 400"
| "error_status (UnpricedModel _) = 400"
| "error_status (NoCredential _ _) = 502"
| "error_status (BudgetExceeded _) = 429"
| "error_status (RequestCostCeilingExceeded _ _ _) = 403"
| "error_status BudgetUnavailable = 503"
| "error_status (UsageNotDurable _) = 503"
| "error_status (ContinuationAffinityUnavailable _ _) = 503"
| "error_status (Overloaded r) = (if is_caller_limit r then 429 else 503)"
| "error_status RequestTooLarge = 413"
| "error_status UnsupportedMediaType = 415"
| "error_status (PromptTooLarge _) = 413"
| "error_status (OutputLimitExceeded _ _) = 400"
| "error_status DrainingError = 503"
| "error_status Unauthorized = 401"
| "error_status (ScopeInsufficient _) = 403"
| "error_status InvalidNamespace = 400"
| "error_status UnknownNamespace = 404"
| "error_status UnknownBudget = 404"
| "error_status NamespaceConflict = 409"
| "error_status StoreUnavailable = 503"
| "error_status NamespaceNotAuthorized = 403"
| "error_status (GatewayProvider e) = provider_status e"
| "error_status (GatewayTransport (UpstreamFailure s e)) = (if s = 401 \<or> s = 403 then 502 else provider_status e)"
| "error_status (GatewayTransport (ProviderFailure e)) = provider_status e"
| "error_status (GatewayTransport (HttpFailure _)) = 502"
| "error_status (GatewayTransport (Timeout _ _ _)) = 504"
| "error_status (GatewayTransport (BodyTooLarge _)) = 502"
| "error_status (BadRequest _) = 400"
| "error_status (UnsupportedWire _ _ _) = 400"

fun error_code :: "gateway_error \<Rightarrow> string" where
  "error_code (ModelUnprefixed _) = ''model_unprefixed''"
| "error_code (UnknownProvider _) = ''unknown_provider''"
| "error_code (ModelBlocked _) = ''model_blocked''"
| "error_code (UnpricedModel _) = ''unpriced_model''"
| "error_code (NoCredential _ _) = ''no_credential''"
| "error_code (BudgetExceeded _) = ''budget_exceeded''"
| "error_code (RequestCostCeilingExceeded _ _ _) = ''request_cost_ceiling_exceeded''"
| "error_code BudgetUnavailable = ''budget_unavailable''"
| "error_code (UsageNotDurable _) = ''usage_not_durable''"
| "error_code (ContinuationAffinityUnavailable _ _) = ''continuation_affinity_unavailable''"
| "error_code (Overloaded r) = rejection_code r"
| "error_code RequestTooLarge = ''request_too_large''"
| "error_code UnsupportedMediaType = ''unsupported_media_type''"
| "error_code (PromptTooLarge _) = ''prompt_too_large''"
| "error_code (OutputLimitExceeded _ _) = ''output_limit_exceeded''"
| "error_code DrainingError = ''draining''"
| "error_code Unauthorized = ''unauthorized''"
| "error_code (ScopeInsufficient _) = ''token_scope_insufficient''"
| "error_code InvalidNamespace = ''invalid_namespace''"
| "error_code UnknownNamespace = ''unknown_namespace''"
| "error_code UnknownBudget = ''unknown_budget''"
| "error_code NamespaceConflict = ''namespace_conflict''"
| "error_code StoreUnavailable = ''store_unavailable''"
| "error_code NamespaceNotAuthorized = ''namespace_not_authorized''"
| "error_code (GatewayProvider e) = provider_error_code e"
| "error_code (GatewayTransport (ProviderFailure e)) = provider_error_code e"
| "error_code (GatewayTransport (UpstreamFailure _ e)) = provider_error_code e"
| "error_code (GatewayTransport (HttpFailure _)) = ''upstream_transport''"
| "error_code (GatewayTransport (Timeout _ _ _)) = ''upstream_timeout''"
| "error_code (GatewayTransport (BodyTooLarge _)) = ''upstream_body_too_large''"
| "error_code (BadRequest _) = ''bad_request''"
| "error_code (UnsupportedWire _ _ _) = ''unsupported_wire''"

fun error_message :: "gateway_error \<Rightarrow> string" where
  "error_message (ModelUnprefixed a) =
     ''model '' @ ticked a @ '' is not prefixed as '' @ ticked ''provider-id/model-id''"
| "error_message (UnknownProvider a) =
     ''unknown provider '' @ ticked a"
| "error_message (ModelBlocked a) =
     ''model '' @ ticked a @ '' is blocked''"
| "error_message (UnpricedModel a) =
     ''model '' @ ticked a @ '' has no price''"
| "error_message (NoCredential a b) =
     ''no credential for provider '' @ ticked b @ '' in namespace '' @ ticked a"
| "error_message (BudgetExceeded a) =
     ''budget exceeded for model '' @ ticked a"
| "error_message (RequestCostCeilingExceeded a b c) =
     ''request cost ceiling exceeded for model '' @ ticked a @ '': estimated '' @ decimal (unat b)
       @ '' microdollars exceeds the per-request ceiling of '' @ decimal (unat c) @ '' microdollars''"
| "error_message BudgetUnavailable =
     ''budget store is unavailable''"
| "error_message (UsageNotDurable a) =
     ''usage could not be recorded durably: '' @ a"
| "error_message (ContinuationAffinityUnavailable a b) =
     ''continuation affinity unavailable for Responses target '' @ ticked (a @ ''/'' @ b)"
| "error_message (Overloaded a) =
     rejection_message a"
| "error_message RequestTooLarge =
     ''request body exceeds the configured inbound limit''"
| "error_message UnsupportedMediaType =
     ''expected a '' @ ticked ''content-type: application/json'' @ '' request''"
| "error_message (PromptTooLarge a) =
     ''prompt exceeds the configured limit of '' @ decimal (unat a) @ '' tokens''"
| "error_message (OutputLimitExceeded a b) =
     ''requested output of '' @ decimal (unat a) @ '' tokens exceeds the configured limit of ''
       @ decimal (unat b) @ '' tokens''"
| "error_message DrainingError =
     ''the gateway is shutting down and is no longer accepting requests''"
| "error_message Unauthorized =
     ''unauthorized''"
| "error_message (ScopeInsufficient a) =
     ''token scope does not authorize '' @ ticked (capability_name a)"
| "error_message InvalidNamespace =
     ''namespace identifier is invalid''"
| "error_message UnknownNamespace =
     ''unknown namespace''"
| "error_message UnknownBudget =
     ''unknown budget''"
| "error_message NamespaceConflict =
     ''namespace already exists''"
| "error_message StoreUnavailable =
     ''store is unavailable''"
| "error_message NamespaceNotAuthorized =
     ''the authenticated grant does not authorize the selected namespace''"
| "error_message (GatewayProvider a) =
     provider_error_message a"
| "error_message (GatewayTransport a) =
     transport_message a"
| "error_message (BadRequest a) =
     ''bad request: '' @ a"
| "error_message (UnsupportedWire a b c) =
     ''model '' @ ticked b @ '' cannot serve '' @ a @ '': provider '' @ ticked c @ '' does not speak that wire''"

fun transport_caller_message :: "transport_error \<Rightarrow> string" where
  "transport_caller_message (HttpFailure _) = ''upstream transport failure''"
| "transport_caller_message e = transport_message e"

fun error_retry_after :: "gateway_error \<Rightarrow> string option" where
  "error_retry_after (Overloaded r) = map_option decimal (retry_after_seconds r)"
| "error_retry_after DrainingError = Some ''0''"
| "error_retry_after _ = None"

record error_response =
  response_status :: u16
  response_type :: string
  response_message :: string
  response_retry_after :: "string option"

definition into_response :: "gateway_error \<Rightarrow> error_response" where
  "into_response e =
     \<lparr>response_status = error_status e, response_type = error_code e,
      response_message = (case e of GatewayTransport t \<Rightarrow> transport_caller_message t | _ \<Rightarrow> error_message e),
      response_retry_after = error_retry_after e\<rparr>"

end
