(* ===== verification/Dispatch.thy ===== *)
theory Dispatch
  imports Circuit Gateway_Error Credential_Laws
begin

text \<open>
  The request walk, \<open>crates/gateway/src/routes/dispatch.rs\<close>: the targets of a model in order, each
  gated by its circuit, each tried over the credential plan of the caller, with the attempt and time
  bounds of the failover policy.  The upstream call, the clock and the operations on the JSON body
  are the argument \<open>api\<close>; a call suspends the request, so it also returns the circuits and the
  credentials as other requests have left them meanwhile.  Spans and metrics only observe.
  \<open>tried\<close> is a ghost: the attempts made, in order, with their results.  The routes are those of
  \<open>routes/mod.rs\<close>.
\<close>

section \<open>Reading a transport error\<close>

text \<open>\<open>as_provider_error\<close>: the text of a timeout or an oversized body is its \<open>Display\<close>.\<close>

fun as_provider_error :: "transport_error \<Rightarrow> provider_error" where
  "as_provider_error (ProviderFailure e) = e"
| "as_provider_error (UpstreamFailure _ e) = e"
| "as_provider_error (HttpFailure m) = transport ''upstream'' m"
| "as_provider_error (Timeout k b ms) = transport ''upstream'' (transport_message (Timeout k b ms))"
| "as_provider_error (BodyTooLarge limit) = transport ''upstream'' (transport_message (BodyTooLarge limit))"

definition is_credential_exhausted :: "transport_error \<Rightarrow> bool" where
  "is_credential_exhausted e \<longleftrightarrow>
     (case transport_provider_error e of None \<Rightarrow> False | Some pe \<Rightarrow> is_credential_rate_limited pe)"

definition was_never_dispatched :: "transport_error \<Rightarrow> bool" where
  "was_never_dispatched e \<longleftrightarrow> timeout_kind_of e = Some Overall"

section \<open>Routes\<close>

datatype route = ChatCompletions | NativeMessages | Embeddings | Responses

definition pins_affinity :: "route \<Rightarrow> bool" where
  "pins_affinity r \<longleftrightarrow> r = Responses"

definition route_max_attempts :: "route \<Rightarrow> nat \<Rightarrow> nat" where
  "route_max_attempts r n = (if pins_affinity r then 1 else n)"

fun route_wire :: "route \<Rightarrow> provider_wire" where
  "route_wire NativeMessages = AnthropicWire"
| "route_wire _ = OpenaiWire"

definition route_serves :: "route \<Rightarrow> provider_kind \<Rightarrow> bool" where
  "route_serves r k \<longleftrightarrow> route_wire r = kind_wire k"

record target =
  target_provider :: string
  target_model :: string

definition target_key :: "target \<Rightarrow> string" where
  "target_key t = qualified_model \<lparr>ft_provider = target_provider t, ft_model = target_model t\<rparr>"

section \<open>The environment of a walk\<close>

record shared =
  shared_circuits :: circuit_breaker
  shared_credentials :: credentials

record ('w, 'b, 'c, 'r) upstream_api =
  api_clock :: "'w \<Rightarrow> instant \<times> 'w"
  api_with_model :: "'b \<Rightarrow> string \<Rightarrow> 'b"
  api_previous_response_id :: "'b \<Rightarrow> string option"
  api_encode :: "provider_config \<Rightarrow> string \<Rightarrow> 'b \<Rightarrow> (provider_error, 'c) result"
  api_native :: "route \<Rightarrow> provider_config \<Rightarrow> 'b \<Rightarrow> 'c"
  api_send :: "provider_config \<Rightarrow> string \<Rightarrow> 'c \<Rightarrow> instant \<Rightarrow> shared \<Rightarrow> 'w \<Rightarrow>
                 (transport_error, 'r) result \<times> shared \<times> 'w"

definition is_continuation :: "('w, 'b, 'c, 'r) upstream_api \<Rightarrow> route \<Rightarrow> 'b \<Rightarrow> bool" where
  "is_continuation api r body \<longleftrightarrow>
     pins_affinity r
     \<and> (case api_previous_response_id api body of Some i \<Rightarrow> i \<noteq> [] | None \<Rightarrow> False)"

record trial =
  trial_index :: nat
  trial_target :: target
  trial_lease :: credential_lease
  trial_error :: "transport_error option"

record 'w walk_state =
  ws_shared :: shared
  ws_world :: 'w
  ws_tried :: "trial list"

definition read_clock :: "('w, 'b, 'c, 'r) upstream_api \<Rightarrow> 'w walk_state \<Rightarrow> instant \<times> 'w walk_state" where
  "read_clock api st = (let (now, w) = api_clock api (ws_world st) in (now, st\<lparr>ws_world := w\<rparr>))"

definition note_trial :: "nat \<Rightarrow> target \<Rightarrow> credential_lease \<Rightarrow> transport_error option \<Rightarrow> 'w walk_state \<Rightarrow> 'w walk_state" where
  "note_trial i t l e st =
     st\<lparr>ws_tried := ws_tried st @ [\<lparr>trial_index = i, trial_target = t, trial_lease = l, trial_error = e\<rparr>]\<rparr>"

definition on_circuits :: "(circuit_breaker \<Rightarrow> circuit_breaker) \<Rightarrow> 'w walk_state \<Rightarrow> 'w walk_state" where
  "on_circuits f st = st\<lparr>ws_shared := (ws_shared st)\<lparr>shared_circuits := f (shared_circuits (ws_shared st))\<rparr>\<rparr>"

definition on_credentials :: "(credentials \<Rightarrow> credentials) \<Rightarrow> 'w walk_state \<Rightarrow> 'w walk_state" where
  "on_credentials f st =
     st\<lparr>ws_shared := (ws_shared st)\<lparr>shared_credentials := f (shared_credentials (ws_shared st))\<rparr>\<rparr>"

section \<open>One target: the credential pool\<close>

record 'r pooled_attempt =
  pooled_result :: "(transport_error, 'r) result"
  pooled_credential_id :: string

definition prepare_pool_call ::
  "('w, 'b, 'c, 'r) upstream_api \<Rightarrow> route \<Rightarrow> provider_config \<Rightarrow> string \<Rightarrow> 'b \<Rightarrow> (transport_error, 'c) result" where
  "prepare_pool_call api r pr m body =
     (if r = ChatCompletions
      then (case api_encode api pr m body of Inl e \<Rightarrow> Inl (ProviderFailure e) | Inr c \<Rightarrow> Inr c)
      else Inr (api_native api r pr body))"

fun pool_walk ::
  "('w, 'b, 'c, 'r) upstream_api \<Rightarrow> nat \<Rightarrow> target \<Rightarrow> provider_config \<Rightarrow> 'c \<Rightarrow> instant \<Rightarrow> credential_lease list \<Rightarrow>
     'r pooled_attempt option \<Rightarrow> 'w walk_state \<Rightarrow> 'r pooled_attempt \<times> 'w walk_state" where
  "pool_walk api i t pr call until [] exhausted st =
     (case exhausted of
        Some att \<Rightarrow> att
      | None \<Rightarrow> \<lparr>pooled_result = Inl (ProviderFailure (InvalidRequest ''empty credential pool'')),
                  pooled_credential_id = []\<rparr>, st)"
| "pool_walk api i t pr call until (l # ls) exhausted st =
     (let (r, sh, w) = api_send api pr (lease_secret l) call until (ws_shared st) (ws_world st);
          st1 = st\<lparr>ws_shared := sh, ws_world := w\<rparr>
      in case r of
           Inr response \<Rightarrow>
             (\<lparr>pooled_result = Inr response, pooled_credential_id = lease_id l\<rparr>,
              on_credentials (\<lambda>c. credentials_record_success c l) (note_trial i t l None st1))
         | Inl err \<Rightarrow>
             (let st2 = note_trial i t l (Some err) st1;
                  att = \<lparr>pooled_result = Inl err, pooled_credential_id = lease_id l\<rparr>
              in if is_credential_exhausted err
                 then (let (now, st3) = read_clock api st2
                       in pool_walk api i t pr call until ls (Some att)
                            (on_credentials (\<lambda>c. credentials_record_failure c l now) st3))
                 else (att, st2)))"

definition dispatch_over_pool ::
  "('w, 'b, 'c, 'r) upstream_api \<Rightarrow> route \<Rightarrow> nat \<Rightarrow> target \<Rightarrow> provider_config \<Rightarrow> credential_plan \<Rightarrow> 'b \<Rightarrow> instant \<Rightarrow>
     'w walk_state \<Rightarrow> 'r pooled_attempt \<times> 'w walk_state" where
  "dispatch_over_pool api r i t pr plan body until st =
     (case plan_attempts plan of
        [] \<Rightarrow> (\<lparr>pooled_result = Inl (ProviderFailure (InvalidRequest ''empty credential pool'')),
                pooled_credential_id = []\<rparr>, st)
      | l # _ \<Rightarrow>
          (case prepare_pool_call api r pr (target_model t) body of
             Inl err \<Rightarrow> (\<lparr>pooled_result = Inl err, pooled_credential_id = lease_id l\<rparr>, note_trial i t l (Some err) st)
           | Inr call \<Rightarrow> pool_walk api i t pr call until (plan_attempts plan) None st))"

section \<open>The walk over the targets\<close>

record served_target =
  served_provider :: string
  served_model :: string
  served_source :: credential_source
  served_credential_id :: string

record 'r failover_outcome =
  outcome_result :: "(transport_error, 'r) result"
  outcome_served :: served_target
  outcome_attempts :: nat
  outcome_latency_ms :: nat
  outcome_ttft_ms :: "nat option"

record failover_walk =
  walk_attempts :: nat
  skipped_open :: "string list"
  no_credential :: "gateway_error option"
  walk_last :: "(transport_error \<times> served_target \<times> nat \<times> nat option) option"

definition failover_walk_new :: failover_walk where
  "failover_walk_new = \<lparr>walk_attempts = 0, skipped_open = [], no_credential = None, walk_last = None\<rparr>"

definition note_missing_credential :: "string \<Rightarrow> string \<Rightarrow> 'z failover_walk_scheme \<Rightarrow> 'z failover_walk_scheme" where
  "note_missing_credential ns pr walk =
     walk\<lparr>no_credential := (case no_credential walk of Some e \<Rightarrow> Some e | None \<Rightarrow> Some (NoCredential ns pr))\<rparr>"

definition walk_into_error :: "'z failover_walk_scheme \<Rightarrow> gateway_error" where
  "walk_into_error walk =
     (if skipped_open walk \<noteq> [] then GatewayProvider (AllCircuitsOpen (skipped_open walk))
      else case no_credential walk of
             Some e \<Rightarrow> e
           | None \<Rightarrow> GatewayProvider (InvalidRequest ''no attemptable target''))"

definition record_target_success :: "string \<Rightarrow> 'w walk_state \<Rightarrow> 'w walk_state" where
  "record_target_success key st = on_circuits (\<lambda>b. record_success b key) st"

definition record_target_failure ::
  "('w, 'b, 'c, 'r) upstream_api \<Rightarrow> string \<Rightarrow> transport_error \<Rightarrow> 'w walk_state \<Rightarrow> 'w walk_state" where
  "record_target_failure api key err st =
     (if affects_provider_health (as_provider_error err) \<and> \<not> is_credential_exhausted err
         \<and> \<not> was_never_dispatched err
      then (let (now, st1) = read_clock api st in on_circuits (\<lambda>b. record_failure_at b key now) st1)
      else st)"

text \<open>\<open>target_circuits.allow\<close> and \<open>credentials.plan\<close> or \<open>plan_pinned\<close>.\<close>

definition allow_target :: "('w, 'b, 'c, 'r) upstream_api \<Rightarrow> string \<Rightarrow> 'w walk_state \<Rightarrow> circuit_decision \<times> 'w walk_state" where
  "allow_target api key st =
     (let (now, st1) = read_clock api st;
          (b, decision) = allow_at (shared_circuits (ws_shared st1)) key now
      in (decision, on_circuits (\<lambda>_. b) st1))"

definition plan_target ::
  "('w, 'b, 'c, 'r) upstream_api \<Rightarrow> config \<Rightarrow> bool \<Rightarrow> string \<Rightarrow> string \<Rightarrow> 'w walk_state \<Rightarrow>
     credential_plan option \<times> 'w walk_state" where
  "plan_target api config pinned ns pr st =
     (if pinned then (plan_pinned (shared_credentials (ws_shared st)) config ns pr, st)
      else (let (now, st1) = read_clock api st;
                (c, plan) = plan_at (shared_credentials (ws_shared st1)) config ns pr now
            in (plan, on_credentials (\<lambda>_. c) st1)))"

text \<open>\<open>walk.attempts >= max_attempts || Instant::now() >= deadline\<close>, and its negation in \<open>has_next\<close>.\<close>

definition bounds_reached ::
  "('w, 'b, 'c, 'r) upstream_api \<Rightarrow> nat \<Rightarrow> nat \<Rightarrow> instant \<Rightarrow> 'w walk_state \<Rightarrow> bool \<times> 'w walk_state" where
  "bounds_reached api made most until st =
     (if most \<le> made then (True, st)
      else (let (now, st1) = read_clock api st in (until \<le> now, st1)))"

record 'b walk_request =
  wr_config :: config
  wr_namespace :: string
  wr_route :: route
  wr_body :: 'b
  wr_deadline :: instant
  wr_total :: nat

text \<open>
  One target that is allowed and has a plan: the attempt, its bookkeeping, and whether the walk goes
  on (\<open>Inr\<close> of the walk) or ends (\<open>Inl\<close> of the outcome).
\<close>

definition attempt_target ::
  "('w, 'b, 'c, 'r) upstream_api \<Rightarrow> 'b walk_request \<Rightarrow> nat \<Rightarrow> target \<Rightarrow> provider_config \<Rightarrow> credential_plan \<Rightarrow>
     failover_walk \<Rightarrow> 'w walk_state \<Rightarrow> ('r failover_outcome, failover_walk) result \<times> 'w walk_state" where
  "attempt_target api rq i t pr plan walk st =
     (let most = route_max_attempts (wr_route rq) (max_attempts (cfg_failover (wr_config rq)));
          body = api_with_model api (wr_body rq) (target_model t);
          (started, st1) = read_clock api st;
          (att, st2) = dispatch_over_pool api (wr_route rq) i t pr plan body (wr_deadline rq) st1;
          (ended, st3) = read_clock api st2;
          latency = (ended - started) div 10 ^ 6;
          ttft = (if is_ok (pooled_result att) then Some latency else None);
          made = Suc (walk_attempts walk);
          served = \<lparr>served_provider = target_provider t, served_model = target_model t,
                    served_source = plan_source plan, served_credential_id = pooled_credential_id att\<rparr>
      in case pooled_result att of
           Inr response \<Rightarrow>
             (Inl \<lparr>outcome_result = Inr response, outcome_served = served, outcome_attempts = made,
                   outcome_latency_ms = latency, outcome_ttft_ms = ttft\<rparr>,
              record_target_success (target_key t) st3)
         | Inl err \<Rightarrow>
             (let st4 = record_target_failure api (target_key t) err st3;
                  (reached, st5) = (if Suc i < wr_total rq then bounds_reached api made most (wr_deadline rq) st4
                                    else (True, st4))
              in case decide (as_provider_error err) (\<not> reached) of
                   Return \<Rightarrow>
                     (Inl \<lparr>outcome_result = Inl err, outcome_served = served, outcome_attempts = made,
                           outcome_latency_ms = latency, outcome_ttft_ms = ttft\<rparr>, st5)
                 | TryNext \<Rightarrow>
                     (Inr (walk\<lparr>walk_attempts := made, walk_last := Some (err, served, latency, ttft)\<rparr>), st5)))"

definition walk_end :: "failover_walk \<Rightarrow> 'w walk_state \<Rightarrow> (gateway_error, 'r failover_outcome) result \<times> 'w walk_state" where
  "walk_end walk st =
     (case walk_last walk of
        Some (err, served, latency, ttft) \<Rightarrow>
          (Inr \<lparr>outcome_result = Inl err, outcome_served = served, outcome_attempts = walk_attempts walk,
                outcome_latency_ms = latency, outcome_ttft_ms = ttft\<rparr>, st)
      | None \<Rightarrow> (Inl (walk_into_error walk), st))"

fun target_loop ::
  "('w, 'b, 'c, 'r) upstream_api \<Rightarrow> 'b walk_request \<Rightarrow> nat \<Rightarrow> target list \<Rightarrow> failover_walk \<Rightarrow> 'w walk_state \<Rightarrow>
     (gateway_error, 'r failover_outcome) result \<times> 'w walk_state" where
  "target_loop api rq i [] walk st = walk_end walk st"
| "target_loop api rq i (t # ts) walk st =
     (let pinned = pins_affinity (wr_route rq);
          continuation = is_continuation api (wr_route rq) (wr_body rq);
          unavailable = ContinuationAffinityUnavailable (target_provider t) (target_model t);
          most = route_max_attempts (wr_route rq) (max_attempts (cfg_failover (wr_config rq)));
          (reached, st1) = bounds_reached api (walk_attempts walk) most (wr_deadline rq) st
      in if pinned \<and> 0 < i then walk_end walk st
         else if reached then walk_end walk st1
         else (case config_provider (wr_config rq) (target_provider t) of
             None \<Rightarrow>
               (if continuation then (Inl unavailable, st1) else target_loop api rq (Suc i) ts walk st1)
           | Some pr \<Rightarrow>
               (case allow_target api (target_key t) st1 of
                  (Skip, st2) \<Rightarrow>
                    (if continuation then (Inl unavailable, st2)
                     else target_loop api rq (Suc i) ts
                            (walk\<lparr>skipped_open := skipped_open walk @ [target_key t]\<rparr>) st2)
                | (Allow _, st2) \<Rightarrow>
                    (case plan_target api (wr_config rq) pinned (wr_namespace rq) (provider_id pr) st2 of
                       (None, st3) \<Rightarrow>
                         (if continuation then (Inl unavailable, st3)
                          else target_loop api rq (Suc i) ts
                                 (note_missing_credential (wr_namespace rq) (provider_id pr) walk) st3)
                     | (Some plan, st3) \<Rightarrow>
                         (case attempt_target api rq i t pr plan walk st3 of
                            (Inl outcome, st4) \<Rightarrow> (Inr outcome, st4)
                          | (Inr walk', st4) \<Rightarrow> target_loop api rq (Suc i) ts walk' st4)))))"

definition dispatch_with_failover ::
  "('w, 'b, 'c, 'r) upstream_api \<Rightarrow> config \<Rightarrow> string \<Rightarrow> route \<Rightarrow> target list \<Rightarrow> 'b \<Rightarrow> 'w walk_state \<Rightarrow>
     (gateway_error, 'r failover_outcome) result \<times> 'w walk_state" where
  "dispatch_with_failover api config ns r targets body st =
     (let (now, st1) = read_clock api st
      in target_loop api
           \<lparr>wr_config = config, wr_namespace = ns, wr_route = r, wr_body = body,
            wr_deadline = now + from_millis (overall_timeout_ms (cfg_failover config)),
            wr_total = length targets\<rparr>
           0 targets failover_walk_new st1)"

end
