(* ===== verification/Dispatch_Laws.thy ===== *)
theory Dispatch_Laws
  imports Dispatch "HOL-Library.Sublist"
begin

text \<open>
  What the request walk guarantees, stated over the log of its attempts: the order in which it moves
  on, what ends it, whose credentials it sends, and which error a walk that sent nothing returns.
\<close>

section \<open>The state a walk threads\<close>

lemma read_clock_sel [simp]:
  "ws_shared (snd (read_clock api st)) = ws_shared st" "ws_tried (snd (read_clock api st)) = ws_tried st"
  by (simp_all add: read_clock_def split: prod.splits)

lemma read_clock_eq:
  assumes "read_clock api st = (now, st1)"
  shows "ws_shared st1 = ws_shared st" "ws_tried st1 = ws_tried st"
  using read_clock_sel [of api st] assms by simp_all

lemma on_sel [simp]:
  "ws_tried (on_circuits f st) = ws_tried st" "ws_tried (on_credentials g st) = ws_tried st"
  "shared_credentials (ws_shared (on_circuits f st)) = shared_credentials (ws_shared st)"
  "shared_credentials (ws_shared (on_credentials g st)) = g (shared_credentials (ws_shared st))"
  by (simp_all add: on_circuits_def on_credentials_def)

lemma note_trial_sel [simp]:
  "ws_shared (note_trial i t l e st) = ws_shared st"
  "ws_tried (note_trial i t l e st) =
     ws_tried st @ [\<lparr>trial_index = i, trial_target = t, trial_lease = l, trial_error = e\<rparr>]"
  by (simp_all add: note_trial_def)

lemma allow_target_sel:
  assumes "allow_target api key st = (d, st1)"
  shows "ws_tried st1 = ws_tried st" "shared_credentials (ws_shared st1) = shared_credentials (ws_shared st)"
  using assms by (auto simp: allow_target_def read_clock_eq split: prod.splits)

lemma bounds_reached_sel:
  assumes "bounds_reached api made most until st = (b, st1)"
  shows "ws_tried st1 = ws_tried st" "shared_credentials (ws_shared st1) = shared_credentials (ws_shared st)"
    "\<not> b \<Longrightarrow> made < most"
  using assms by (auto simp: bounds_reached_def read_clock_eq split: prod.splits if_splits)

lemma record_target_sel [simp]:
  "ws_tried (record_target_success key st) = ws_tried st"
  "shared_credentials (ws_shared (record_target_success key st)) = shared_credentials (ws_shared st)"
  "ws_tried (record_target_failure api key err st) = ws_tried st"
  "shared_credentials (ws_shared (record_target_failure api key err st)) = shared_credentials (ws_shared st)"
  by (auto simp: record_target_success_def record_target_failure_def read_clock_eq split: prod.splits)

lemma plan_has_attempts:
  "snd (plan_at c config ns pr now) = Some plan \<Longrightarrow> plan_attempts plan \<noteq> []"
  "plan_pinned c config ns pr = Some plan \<Longrightarrow> plan_attempts plan \<noteq> []"
  by (auto simp: plan_at_def plan_pinned_def Let_def split: option.splits prod.splits if_splits list.splits)

lemma plan_target_sel:
  assumes "plan_target api config pinned ns pr st = (p, st1)"
  shows "ws_tried st1 = ws_tried st" "p = Some plan \<Longrightarrow> plan_attempts plan \<noteq> []"
    "p = Some plan \<Longrightarrow> pinned \<Longrightarrow> plan_pinned (shared_credentials (ws_shared st)) config ns pr = Some plan"
    "p = Some plan \<Longrightarrow> \<not> pinned \<Longrightarrow>
       \<exists>now. snd (plan_at (shared_credentials (ws_shared st)) config ns pr now) = Some plan"
    "shared_credentials (ws_shared st1) = shared_credentials (ws_shared st)
     \<or> credential_step config (shared_credentials (ws_shared st)) (shared_credentials (ws_shared st1))"
proof -
  show "ws_tried st1 = ws_tried st"
    using assms by (auto simp: plan_target_def read_clock_eq split: prod.splits if_splits)
  show pinned: "p = Some plan \<Longrightarrow> pinned \<Longrightarrow> plan_pinned (shared_credentials (ws_shared st)) config ns pr = Some plan"
    using assms by (auto simp: plan_target_def split: if_splits)
  show free: "p = Some plan \<Longrightarrow> \<not> pinned \<Longrightarrow>
       \<exists>now. snd (plan_at (shared_credentials (ws_shared st)) config ns pr now) = Some plan"
    using assms by (auto simp: plan_target_def read_clock_eq split: prod.splits if_splits) (metis snd_conv)
  show "p = Some plan \<Longrightarrow> plan_attempts plan \<noteq> []"
    using pinned free plan_has_attempts by (cases pinned) blast+
  show "shared_credentials (ws_shared st1) = shared_credentials (ws_shared st)
     \<or> credential_step config (shared_credentials (ws_shared st)) (shared_credentials (ws_shared st1))"
    using assms credential_step.planned [of config "shared_credentials (ws_shared st)" ns pr]
    by (auto simp: plan_target_def read_clock_eq split: prod.splits if_splits) (metis fst_conv)
qed

section \<open>One target\<close>

text \<open>The trials of one target: a prefix of the plan, all but the last refused for the credential.\<close>

definition pool_log :: "nat \<Rightarrow> target \<Rightarrow> credential_lease list \<Rightarrow> 'r pooled_attempt \<Rightarrow> trial list \<Rightarrow> bool" where
  "pool_log i t ls a trials \<longleftrightarrow>
     trials \<noteq> [] \<and> map trial_lease trials = take (length trials) ls
     \<and> (\<forall>x\<in>set trials. trial_index x = i \<and> trial_target x = t)
     \<and> (\<forall>x\<in>set (butlast trials). \<exists>e. trial_error x = Some e \<and> is_credential_exhausted e)
     \<and> pooled_credential_id a = lease_id (trial_lease (last trials))
     \<and> trial_error (last trials) = (case pooled_result a of Inl e \<Rightarrow> Some e | Inr _ \<Rightarrow> None)"

lemma pool_log_Cons:
  assumes "pool_log i t ls a trials" and "is_credential_exhausted e"
  shows "pool_log i t (l # ls) a
     (\<lparr>trial_index = i, trial_target = t, trial_lease = l, trial_error = Some e\<rparr> # trials)"
  using assms by (auto simp: pool_log_def)

lemma pool_walk_log:
  assumes "pool_walk api i t pr call until ls ex st = (a, st')" and "ls \<noteq> []"
  shows "\<exists>trials. ws_tried st' = ws_tried st @ trials \<and> pool_log i t ls a trials"
  using assms
proof (induction ls arbitrary: ex st)
  case (Cons l ls)
  obtain r sh w where send: "api_send api pr (lease_secret l) call until (ws_shared st) (ws_world st) = (r, sh, w)"
    by (metis prod_cases3)
  let ?st1 = "st\<lparr>ws_shared := sh, ws_world := w\<rparr>"
  show ?case
  proof (cases r)
    case (Inr response)
    then show ?thesis using Cons.prems(1) send by (auto simp: pool_log_def)
  next
    case (Inl err)
    show ?thesis
    proof (cases "is_credential_exhausted err")
      case False
      then show ?thesis using Cons.prems(1) send Inl by (auto simp: pool_log_def)
    next
      case True
      let ?st2 = "note_trial i t l (Some err) ?st1" and ?a = "\<lparr>pooled_result = Inl err, pooled_credential_id = lease_id l\<rparr>"
      obtain now st3 where clock: "read_clock api ?st2 = (now, st3)" by fastforce
      let ?st4 = "on_credentials (\<lambda>c. credentials_record_failure c l now) st3"
      have rest: "pool_walk api i t pr call until ls (Some ?a) ?st4 = (a, st')"
        using Cons.prems(1) send Inl True clock by simp
      have tried: "ws_tried ?st4 = ws_tried st @ [\<lparr>trial_index = i, trial_target = t, trial_lease = l, trial_error = Some err\<rparr>]"
        using read_clock_eq [OF clock] by simp
      show ?thesis
      proof (cases "ls = []")
        case True
        then show ?thesis using rest tried by (auto simp: pool_log_def)
      next
        case False
        with Cons.IH [OF rest]
        obtain trials where "ws_tried st' = ws_tried ?st4 @ trials" "pool_log i t ls a trials" by blast
        with tried pool_log_Cons [OF _ True] show ?thesis by (metis append.assoc append_Cons append_Nil)
      qed
    qed
  qed
qed simp

lemma dispatch_over_pool_log:
  assumes "dispatch_over_pool api r i t pr plan body until st = (a, st')" and "plan_attempts plan \<noteq> []"
  shows "\<exists>trials. ws_tried st' = ws_tried st @ trials \<and> pool_log i t (plan_attempts plan) a trials"
proof (cases "prepare_pool_call api r pr (target_model t) body")
  case (Inl err)
  then show ?thesis using assms
    by (cases "plan_attempts plan") (auto simp: dispatch_over_pool_def pool_log_def)
next
  case (Inr call)
  with assms have "pool_walk api i t pr call until (plan_attempts plan) None st = (a, st')"
    by (cases "plan_attempts plan") (simp_all add: dispatch_over_pool_def)
  then show ?thesis by (rule pool_walk_log [OF _ assms(2)])
qed

section \<open>One attempt\<close>

definition served_of :: "target \<Rightarrow> credential_plan \<Rightarrow> 'r pooled_attempt \<Rightarrow> served_target" where
  "served_of t plan a =
     \<lparr>served_provider = target_provider t, served_model = target_model t,
      served_source = plan_source plan, served_credential_id = pooled_credential_id a\<rparr>"

definition attempts_allowed :: "'b walk_request \<Rightarrow> nat" where
  "attempts_allowed rq = route_max_attempts (wr_route rq) (max_attempts (cfg_failover (wr_config rq)))"

lemma attempt_target_log:
  assumes attempt: "attempt_target api rq i t pr plan walk st = (r, st')" and "plan_attempts plan \<noteq> []"
  obtains trials a where "ws_tried st' = ws_tried st @ trials" "pool_log i t (plan_attempts plan) a trials"
    "case r of
       Inl out \<Rightarrow> outcome_attempts out = Suc (walk_attempts walk) \<and> outcome_result out = pooled_result a
                    \<and> outcome_served out = served_of t plan a
     | Inr walk' \<Rightarrow> \<exists>e latency ttft. pooled_result a = Inl e \<and> is_retryable (as_provider_error e)
                    \<and> walk' = walk\<lparr>walk_attempts := Suc (walk_attempts walk),
                                   walk_last := Some (e, served_of t plan a, latency, ttft)\<rparr>
                    \<and> Suc (walk_attempts walk) < attempts_allowed rq"
proof -
  obtain started st1 where start: "read_clock api st = (started, st1)" by fastforce
  obtain a st2 where pool: "dispatch_over_pool api (wr_route rq) i t pr plan
      (api_with_model api (wr_body rq) (target_model t)) (wr_deadline rq) st1 = (a, st2)" by fastforce
  obtain ended st3 where stop: "read_clock api st2 = (ended, st3)" by fastforce
  obtain trials where trials: "ws_tried st2 = ws_tried st @ trials" "pool_log i t (plan_attempts plan) a trials"
    using dispatch_over_pool_log [OF pool assms(2)] read_clock_eq [OF start] by auto
  note unfolded = attempt [unfolded attempt_target_def Let_def start pool stop prod.case]
  show thesis
  proof (cases "pooled_result a")
    case (Inr response)
    with unfolded trials read_clock_eq [OF stop] show thesis
      by (intro that [of trials a]) (auto simp: served_of_def)
  next
    case (Inl err)
    let ?st4 = "record_target_failure api (target_key t) err st3"
    obtain reached st5 where bounds: "(if Suc i < wr_total rq
        then bounds_reached api (Suc (walk_attempts walk)) (attempts_allowed rq) (wr_deadline rq) ?st4
        else (True, ?st4)) = (reached, st5)" by fastforce
    then have kept: "ws_tried st5 = ws_tried st2" "\<not> reached \<Longrightarrow> Suc (walk_attempts walk) < attempts_allowed rq"
      using read_clock_eq [OF stop] bounds_reached_sel [of api _ _ _ ?st4 reached st5] by (auto split: if_splits)
    note ended = unfolded [unfolded Inl sum.case bounds [unfolded attempts_allowed_def] prod.case]
    show thesis
      using ended kept trials Inl
      by (intro that [of trials a]) (auto simp: served_of_def decide_def split: if_splits, blast)
  qed
qed

section \<open>The walk over the targets\<close>

text \<open>
  Why the walk stops before target \<open>i\<close>: no target is left, an affinity-pinned route has had its one
  target, the attempts are spent, or the clock, last read to reach this state, has passed the deadline.
\<close>

definition walk_stops ::
  "('w, 'b, 'c, 'r) upstream_api \<Rightarrow> 'b walk_request \<Rightarrow> nat \<Rightarrow> nat \<Rightarrow> nat \<Rightarrow> 'w walk_state \<Rightarrow> bool" where
  "walk_stops api rq n i made st \<longleftrightarrow>
     i = n \<or> pins_affinity (wr_route rq) \<and> 0 < i \<or> attempts_allowed rq \<le> made
     \<or> (\<exists>w now. api_clock api w = (now, ws_world st) \<and> wr_deadline rq \<le> now)"

lemma bounds_reached_stops:
  assumes "bounds_reached api made (attempts_allowed rq) (wr_deadline rq) st = (True, st1)"
  shows "walk_stops api rq n i made st1"
proof (cases "attempts_allowed rq \<le> made")
  case False
  obtain now w where "api_clock api (ws_world st) = (now, w)" by fastforce
  with False assms show ?thesis by (auto simp: bounds_reached_def read_clock_def walk_stops_def)
qed (simp add: walk_stops_def)

text \<open>
  The contract of a statement about the walk: \<open>keep\<close> holds at the head of the loop, is kept by each of
  the ways a target can be passed, and gives \<open>finish\<close> at each of the ways the walk can end.
\<close>

locale target_walk =
  fixes api :: "('w, 'b, 'c, 'r) upstream_api" and rq :: "'b walk_request" and targets :: "target list"
    and keep :: "nat \<Rightarrow> failover_walk \<Rightarrow> 'w walk_state \<Rightarrow> bool"
    and finish :: "(gateway_error, 'r failover_outcome) result \<Rightarrow> 'w walk_state \<Rightarrow> bool"
  assumes idle: "keep i walk st \<Longrightarrow> ws_tried st' = ws_tried st \<Longrightarrow>
      shared_credentials (ws_shared st') = shared_credentials (ws_shared st) \<Longrightarrow> keep i walk st'"
    and unknown: "keep i walk st \<Longrightarrow> i < length targets \<Longrightarrow>
      config_provider (wr_config rq) (target_provider (targets ! i)) = None \<Longrightarrow> keep (Suc i) walk st"
    and skipped: "keep i walk st \<Longrightarrow> i < length targets \<Longrightarrow>
      config_provider (wr_config rq) (target_provider (targets ! i)) = Some pr \<Longrightarrow>
      keep (Suc i) (walk\<lparr>skipped_open := skipped_open walk @ [target_key (targets ! i)]\<rparr>) st"
    and bare: "keep i walk st \<Longrightarrow> i < length targets \<Longrightarrow>
      config_provider (wr_config rq) (target_provider (targets ! i)) = Some pr \<Longrightarrow>
      plan_target api (wr_config rq) (pins_affinity (wr_route rq)) (wr_namespace rq) (provider_id pr) st = (None, st') \<Longrightarrow>
      keep (Suc i) (note_missing_credential (wr_namespace rq) (provider_id pr) walk) st'"
    and tried: "keep i walk st \<Longrightarrow> i < length targets \<Longrightarrow> (pins_affinity (wr_route rq) \<Longrightarrow> i = 0) \<Longrightarrow>
      config_provider (wr_config rq) (target_provider (targets ! i)) = Some pr \<Longrightarrow>
      walk_attempts walk < attempts_allowed rq \<Longrightarrow>
      plan_target api (wr_config rq) (pins_affinity (wr_route rq)) (wr_namespace rq) (provider_id pr) st = (Some plan, st1) \<Longrightarrow>
      attempt_target api rq i (targets ! i) pr plan walk st1 = (r, st') \<Longrightarrow>
      (case r of Inl out \<Rightarrow> finish (Inr out) st' | Inr walk' \<Rightarrow> keep (Suc i) walk' st')"
    and refused: "keep 0 walk st \<Longrightarrow> is_continuation api (wr_route rq) (wr_body rq) \<Longrightarrow> targets \<noteq> [] \<Longrightarrow>
      finish (Inl (ContinuationAffinityUnavailable (target_provider (hd targets)) (target_model (hd targets)))) st"
    and ended: "keep i walk st \<Longrightarrow> i \<le> length targets \<Longrightarrow>
      walk_stops api rq (length targets) i (walk_attempts walk) st \<Longrightarrow> finish (fst (walk_end walk st)) st"
begin

lemma walk_end_state:
  "keep i walk st \<Longrightarrow> i \<le> length targets \<Longrightarrow> walk_stops api rq (length targets) i (walk_attempts walk) st \<Longrightarrow>
     walk_end walk st = (r, st') \<Longrightarrow> finish r st'"
  using ended [of i walk st] by (auto simp: walk_end_def split: option.splits prod.splits)

lemma target_loop_finishes:
  "keep i walk st \<Longrightarrow> ts = drop i targets \<Longrightarrow> i \<le> length targets \<Longrightarrow>
     target_loop api rq i ts walk st = (r, st') \<Longrightarrow> finish r st'"
proof (induction ts arbitrary: i walk st)
  case Nil
  then have "i = length targets" by simp
  with Nil show ?case using walk_end_state [OF Nil.prems(1), of r st'] by (simp add: walk_stops_def)
next
  case (Cons t ts)
  have i: "i < length targets" "targets ! i = t" "ts = drop (Suc i) targets"
    using Cons.prems(2,3) by (metis drop_eq_Nil2 list.discI not_le, metis Cons_nth_drop_Suc drop_eq_Nil2 list.discI list.inject not_le,
        metis drop_Suc list.sel(3) tl_drop)
  let ?pinned = "pins_affinity (wr_route rq)" and ?continuation = "is_continuation api (wr_route rq) (wr_body rq)"
  note again = Cons.IH [OF _ i(3) Suc_leI [OF i(1)]]
  obtain reached st1 where bounds: "bounds_reached api (walk_attempts walk) (attempts_allowed rq) (wr_deadline rq) st = (reached, st1)"
    by fastforce
  note loop = Cons.prems(4) [simplified, folded attempts_allowed_def, unfolded bounds Let_def, simplified]
  have keep1: "keep i walk st1" by (rule idle [OF Cons.prems(1) bounds_reached_sel(1,2) [OF bounds]])
  have first: "finish (Inl (ContinuationAffinityUnavailable (target_provider t) (target_model t))) st''"
    if "?continuation" "keep i walk st''" "\<not> (?pinned \<and> 0 < i)" for st''
    using that refused [of walk st''] i by (cases targets) (auto simp: is_continuation_def)
  show ?case
  proof (cases "?pinned \<and> 0 < i \<or> reached")
    case True
    note over = walk_end_state [OF Cons.prems(1,3), of r st'] walk_end_state [OF keep1 Cons.prems(3), of r st']
    have "reached \<Longrightarrow> walk_stops api rq (length targets) i (walk_attempts walk) st1"
      using bounds by (auto intro: bounds_reached_stops)
    moreover have "?pinned \<and> 0 < i \<Longrightarrow> walk_stops api rq (length targets) i (walk_attempts walk) st"
      by (simp add: walk_stops_def)
    ultimately show ?thesis using True loop over by (cases "?pinned \<and> 0 < i") auto
  next
    case False
    then have go: "\<not> (?pinned \<and> 0 < i)" "walk_attempts walk < attempts_allowed rq"
      using bounds_reached_sel(3) [OF bounds] by auto
    show ?thesis
    proof (cases "config_provider (wr_config rq) (target_provider t)")
      case None
      then show ?thesis using loop False first [OF _ keep1 go(1)] again [OF unknown [OF keep1 i(1)]] i(2)
        by (auto split: if_splits)
    next
      case (Some pr)
      note known = Some [folded i(2)]
      obtain d st2 where allow: "allow_target api (target_key t) st1 = (d, st2)" by fastforce
      have keep2: "keep i walk st2" by (rule idle [OF keep1 allow_target_sel [OF allow]])
      show ?thesis
      proof (cases d)
        case Skip
        then show ?thesis using loop False Some allow first [OF _ keep2 go(1)] again [OF skipped [OF keep2 i(1) known]] i(2)
          by (auto split: if_splits)
      next
        case (Allow probe)
        obtain p st3 where plan: "plan_target api (wr_config rq) ?pinned (wr_namespace rq) (provider_id pr) st2 = (p, st3)"
          by fastforce
        show ?thesis
        proof (cases p)
          case None
          have "st3 = st2" if ?continuation using that plan by (simp add: plan_target_def is_continuation_def)
          then show ?thesis
            using loop False Some allow Allow plan None first [OF _ keep2 go(1)] again [OF bare [OF keep2 i(1) known]]
            by (auto split: if_splits)
        next
          case (Some pl)
          obtain res st4 where attempt: "attempt_target api rq i t pr pl walk st3 = (res, st4)" by fastforce
          have "case res of Inl out \<Rightarrow> finish (Inr out) st4 | Inr walk' \<Rightarrow> keep (Suc i) walk' st4"
            by (rule tried [OF keep2 i(1) _ known go(2) plan [unfolded Some] attempt [folded i(2)]]) (use go(1) in simp)
          then show ?thesis
            using loop False known i(2) allow Allow plan Some attempt again by (cases res) (auto split: if_splits)
        qed
      qed
    qed
  qed
qed

end

section \<open>The order of the attempts\<close>

text \<open>When one trial may follow another, and what a served target says of a trial.\<close>

definition may_follow :: "trial \<Rightarrow> trial \<Rightarrow> bool" where
  "may_follow x y \<longleftrightarrow>
     (\<exists>e. trial_error x = Some e
        \<and> (trial_index y = trial_index x \<and> is_credential_exhausted e
           \<or> trial_index x < trial_index y \<and> is_retryable (as_provider_error e)))"

definition served_by :: "served_target \<Rightarrow> trial \<Rightarrow> bool" where
  "served_by served x \<longleftrightarrow>
     served_provider served = target_provider (trial_target x) \<and> served_model served = target_model (trial_target x)
     \<and> served_credential_id served = lease_id (trial_lease x)"

definition orderly :: "target list \<Rightarrow> route \<Rightarrow> trial list \<Rightarrow> bool" where
  "orderly targets r log \<longleftrightarrow>
     successively may_follow log
     \<and> (\<forall>x\<in>set log. trial_index x < length targets \<and> trial_target x = targets ! trial_index x)
     \<and> (pins_affinity r \<longrightarrow> length log \<le> 1 \<and> (\<forall>x\<in>set log. trial_index x = 0))"

definition tried_targets :: "trial list \<Rightarrow> nat" where
  "tried_targets log = card (trial_index ` set log)"

definition log_keeps :: "'b walk_request \<Rightarrow> target list \<Rightarrow> trial list \<Rightarrow> nat \<Rightarrow> failover_walk \<Rightarrow> 'w walk_state \<Rightarrow> bool" where
  "log_keeps rq targets before i walk st \<longleftrightarrow>
     (\<exists>log. ws_tried st = before @ log \<and> orderly targets (wr_route rq) log \<and> (\<forall>x\<in>set log. trial_index x < i)
        \<and> walk_attempts walk = tried_targets log \<and> tried_targets log \<le> attempts_allowed rq
        \<and> (case walk_last walk of
              None \<Rightarrow> log = []
            | Some (e, served, _) \<Rightarrow> log \<noteq> [] \<and> trial_error (last log) = Some e
                \<and> is_retryable (as_provider_error e) \<and> served_by served (last log)))"

definition log_ends :: "'b walk_request \<Rightarrow> target list \<Rightarrow> trial list \<Rightarrow>
    (gateway_error, 'r failover_outcome) result \<Rightarrow> 'w walk_state \<Rightarrow> bool" where
  "log_ends rq targets before res st \<longleftrightarrow>
     (\<exists>log. ws_tried st = before @ log \<and> orderly targets (wr_route rq) log \<and> tried_targets log \<le> attempts_allowed rq
        \<and> (case res of
              Inl _ \<Rightarrow> log = []
            | Inr out \<Rightarrow> log \<noteq> [] \<and> outcome_attempts out = tried_targets log
                \<and> trial_error (last log) = (case outcome_result out of Inl e \<Rightarrow> Some e | Inr _ \<Rightarrow> None)
                \<and> served_by (outcome_served out) (last log)))"

lemma successively_butlast:
  "\<forall>x\<in>set (butlast xs). \<forall>y\<in>set xs. P x y \<Longrightarrow> successively P xs"
  by (induction xs rule: induct_list012) auto

lemma pool_log_orderly: "pool_log i t ls a trials \<Longrightarrow> successively may_follow trials"
  unfolding pool_log_def may_follow_def by (intro successively_butlast ballI) (metis in_set_butlastD)

lemma tried_targets_append:
  assumes "\<forall>x\<in>set log. trial_index x < i" and "pool_log i t ls a trials"
  shows "tried_targets (log @ trials) = Suc (tried_targets log)"
proof -
  have "trial_index ` set trials = {i}" using assms(2) by (auto simp: pool_log_def image_iff neq_Nil_conv)
  then have "trial_index ` set (log @ trials) = insert i (trial_index ` set log)" by auto
  moreover have "i \<notin> trial_index ` set log" using assms(1) by auto
  ultimately show ?thesis by (simp add: tried_targets_def)
qed

lemma plan_pinned_single: "plan_pinned c config ns pr = Some plan \<Longrightarrow> length (plan_attempts plan) = 1"
  by (auto simp: plan_pinned_def Let_def split: option.splits list.splits)

lemma log_extends:
  assumes "log_keeps rq targets before i walk st" and "i < length targets" and "pins_affinity (wr_route rq) \<Longrightarrow> i = 0"
    and "ws_tried st' = ws_tried st @ trials" and pool: "pool_log i (targets ! i) ls a trials"
    and "pins_affinity (wr_route rq) \<Longrightarrow> length ls \<le> 1" and "walk_attempts walk < attempts_allowed rq"
  obtains log where "ws_tried st' = before @ log" "orderly targets (wr_route rq) log" "log \<noteq> []"
    "\<forall>x\<in>set log. trial_index x < Suc i" "tried_targets log = Suc (walk_attempts walk)" "tried_targets log \<le> attempts_allowed rq"
    "last log = last trials"
proof -
  obtain log where log: "ws_tried st = before @ log" "orderly targets (wr_route rq) log" "\<forall>x\<in>set log. trial_index x < i"
    "walk_attempts walk = tried_targets log"
    "log \<noteq> [] \<longrightarrow> (\<exists>e. trial_error (last log) = Some e \<and> is_retryable (as_provider_error e))"
    using assms(1) by (auto simp: log_keeps_def split: option.splits)
  have trials: "trials \<noteq> []" "\<forall>x\<in>set trials. trial_index x = i \<and> trial_target x = targets ! i" "length trials \<le> length ls"
    using pool unfolding pool_log_def by (auto, metis length_map length_take min.cobounded1)
  have "may_follow (last log) (hd trials)" if "log \<noteq> []"
    using log(3,5) trials that by (auto simp: may_follow_def)
  then have "successively may_follow (log @ trials)"
    using log(2) pool_log_orderly [OF pool] by (auto simp: orderly_def successively_append_iff)
  moreover have "log = []" "length trials \<le> 1" if "pins_affinity (wr_route rq)"
    using assms(3,6) that log(3) trials(3) by (cases log, auto)
  ultimately have "orderly targets (wr_route rq) (log @ trials)"
    using log(2) trials(2) assms(2,3) by (auto simp: orderly_def)
  moreover have "tried_targets (log @ trials) = Suc (walk_attempts walk)"
    using tried_targets_append [OF log(3) pool] log(4) by simp
  ultimately show thesis
    using log(1,3) trials assms(4,7) by (intro that [of "log @ trials"]) auto
qed

interpretation ordering: target_walk api rq targets "log_keeps rq targets before" "log_ends rq targets before"
  for api :: "('w, 'b, 'c, 'r) upstream_api" and rq targets before
proof (unfold_locales, goal_cases)
  case (5 i walk st pr plan st1 r st')
  note plan = plan_target_sel [OF 5(6)]
  have ls: "length (plan_attempts plan) \<le> 1" if "pins_affinity (wr_route rq)"
    using plan_pinned_single [OF plan(3) [OF refl that]] by simp
  have "log_keeps rq targets before i walk st1" using 5(1) plan(1) by (simp add: log_keeps_def)
  obtain trials a where a: "ws_tried st' = ws_tried st1 @ trials" "pool_log i (targets ! i) (plan_attempts plan) a trials"
    "case r of
       Inl out \<Rightarrow> outcome_attempts out = Suc (walk_attempts walk) \<and> outcome_result out = pooled_result a
                    \<and> outcome_served out = served_of (targets ! i) plan a
     | Inr walk' \<Rightarrow> \<exists>e latency ttft. pooled_result a = Inl e \<and> is_retryable (as_provider_error e)
                    \<and> walk' = walk\<lparr>walk_attempts := Suc (walk_attempts walk),
                                   walk_last := Some (e, served_of (targets ! i) plan a, latency, ttft)\<rparr>
                    \<and> Suc (walk_attempts walk) < attempts_allowed rq"
    by (rule attempt_target_log [OF 5(7) plan(2) [OF refl]])
  obtain log where log: "ws_tried st' = before @ log" "orderly targets (wr_route rq) log" "log \<noteq> []"
    "\<forall>x\<in>set log. trial_index x < Suc i" "tried_targets log = Suc (walk_attempts walk)" "tried_targets log \<le> attempts_allowed rq"
    "last log = last trials"
    using log_extends [OF \<open>log_keeps rq targets before i walk st1\<close> 5(2,3) a(1,2) ls 5(5)] by blast
  have last: "trial_error (last log) = (case pooled_result a of Inl e \<Rightarrow> Some e | Inr _ \<Rightarrow> None)"
    "served_by (served_of (targets ! i) plan a) (last log)"
    using a(2) log(7) by (auto simp: pool_log_def served_by_def served_of_def)
  show ?case
  proof (cases r)
    case (Inl out)
    with a(3) log last show ?thesis by (auto simp: log_ends_def)
  next
    case (Inr walk')
    with a(3) log last show ?thesis by (auto simp: log_keeps_def)
  qed
qed (auto simp: log_keeps_def log_ends_def walk_end_def note_missing_credential_def less_Suc_eq plan_target_sel
       split: option.splits prod.splits)

section \<open>Whose credentials are sent\<close>






















section \<open>Properties\<close>

definition request_of :: "config \<Rightarrow> string \<Rightarrow> route \<Rightarrow> target list \<Rightarrow> 'b \<Rightarrow> instant \<Rightarrow> 'b walk_request" where
  "request_of config ns r targets body now =
     \<lparr>wr_config = config, wr_namespace = ns, wr_route = r, wr_body = body,
      wr_deadline = now + from_millis (overall_timeout_ms (cfg_failover config)), wr_total = length targets\<rparr>"



lemma dispatch_loop:
  assumes "dispatch_with_failover api config ns r targets body st = (res, st')"
  obtains now st1 where "read_clock api st = (now, st1)"
    "target_loop api (request_of config ns r targets body now) 0 targets failover_walk_new st1 = (res, st')"
  using assms by (auto simp: dispatch_with_failover_def request_of_def split: prod.splits)

text \<open>
  C5. The order of a request's attempts.  Whatever the upstream answers and whatever other requests do
  meanwhile, the attempts of a request visit its targets in the configured order; a second credential
  of a target is tried only after the first was refused for its rate limit, another target only after
  a retryable failure; no more targets are tried than the failover policy allows, and a route that
  pins affinity tries one credential of the first target only.  The request returns an error of its
  own exactly when nothing was tried, and otherwise the result of its last attempt, attributed to the
  target and the credential that made it.
\<close>

theorem attempts_follow_the_failover_policy:
  fixes api :: "('w, 'b, 'c, 'r) upstream_api"
  shows "case dispatch_with_failover api config ns r targets body st of (res, st') \<Rightarrow>
    \<exists>log. ws_tried st' = ws_tried st @ log \<and> orderly targets r log
      \<and> tried_targets log \<le> route_max_attempts r (max_attempts (cfg_failover config))
      \<and> (case res of
            Inl _ \<Rightarrow> log = []
          | Inr out \<Rightarrow> log \<noteq> [] \<and> outcome_attempts out = tried_targets log
              \<and> trial_error (last log) = (case outcome_result out of Inl e \<Rightarrow> Some e | Inr _ \<Rightarrow> None)
              \<and> served_by (outcome_served out) (last log))"
proof -
  obtain res st' where run: "dispatch_with_failover api config ns r targets body st = (res, st')" by fastforce
  obtain now st1 where walk: "read_clock api st = (now, st1)"
    "target_loop api (request_of config ns r targets body now) 0 targets failover_walk_new st1 = (res, st')"
    using dispatch_loop [OF run] by blast
  have "log_keeps (request_of config ns r targets body now) targets (ws_tried st) 0 failover_walk_new st1"
    using read_clock_eq [OF walk(1)]
    by (simp add: log_keeps_def failover_walk_new_def orderly_def tried_targets_def)
  from ordering.target_loop_finishes [OF this _ _ walk(2)]
  have "log_ends (request_of config ns r targets body now) targets (ws_tried st) res st'" by simp
  then show ?thesis
    unfolding run prod.case by (simp add: log_ends_def attempts_allowed_def request_of_def)
qed


text \<open>
  C40. What a caller is told.  A 429 means a budget or the caller's own concurrency, nothing else; retry
  advice comes with a drain or a full replica, except when only another tenant can free the capacity;
  the text of a transport failure, which may name an upstream host, never reaches the caller; a
  provider that refuses the operator's credentials is a gateway failure; and a failure that the walk
  would have passed on to another credential or target is never reported as the caller's.
\<close>

theorem error_responses_tell_whose_fault:
  "(response_status (into_response e) = 429 \<longleftrightarrow> (\<exists>m. e = BudgetExceeded m) \<or> e = Overloaded Tenant)
   \<and> (response_retry_after (into_response e) \<noteq> None \<longleftrightarrow>
        e = DrainingError \<or> (\<exists>r. e = Overloaded r \<and> r \<noteq> TenantCapacity))
   \<and> into_response (GatewayTransport (HttpFailure m)) = into_response (GatewayTransport (HttpFailure m'))
   \<and> (s = 401 \<or> s = 403 \<longrightarrow> response_status (into_response (GatewayTransport (UpstreamFailure s pe))) = 502)
   \<and> (is_retryable (as_provider_error t) \<or> is_credential_exhausted t \<longrightarrow>
        500 \<le> response_status (into_response (GatewayTransport t)))"
proof (intro conjI)
  show "response_status (into_response e) = 429 \<longleftrightarrow> (\<exists>m. e = BudgetExceeded m) \<or> e = Overloaded Tenant"
    by (cases e rule: error_status.cases)
      (auto simp: into_response_def is_caller_limit_def split: if_splits elim: provider_status.elims)
  show "response_retry_after (into_response e) \<noteq> None \<longleftrightarrow> e = DrainingError \<or> (\<exists>r. e = Overloaded r \<and> r \<noteq> TenantCapacity)"
    by (cases e; simp add: into_response_def) (metis retry_after_seconds.simps admission_rejection.exhaust option.distinct(1))
  show "into_response (GatewayTransport (HttpFailure m)) = into_response (GatewayTransport (HttpFailure m'))"
    "s = 401 \<or> s = 403 \<longrightarrow> response_status (into_response (GatewayTransport (UpstreamFailure s pe))) = 502"
    by (simp_all add: into_response_def)
  show "is_retryable (as_provider_error t) \<or> is_credential_exhausted t \<longrightarrow>
        500 \<le> response_status (into_response (GatewayTransport t))"
    by (cases t) (auto simp: into_response_def is_credential_exhausted_def
        elim!: is_retryable.elims(2) is_credential_rate_limited.elims(2))
qed

section \<open>Examples\<close>









theorem error_responses_tell_whose_fault_witness:
  "response_status (into_response (GatewayTransport (UpstreamFailure 403 (InvalidRequest ''no'')))) = 502
   \<and> is_credential_exhausted (ProviderFailure (RateLimitedStream ''busy''))
   \<and> 500 \<le> response_status (into_response (GatewayTransport (ProviderFailure (RateLimitedStream ''busy''))))"
  using error_responses_tell_whose_fault [of DrainingError "[]" "[]" 403 "InvalidRequest ''no''" "ProviderFailure (RateLimitedStream ''busy'')"]
  by (simp add: is_credential_exhausted_def)

end
