(* ===== verification/Stream_Dispatch.thy ===== *)
theory Stream_Dispatch
  imports Dispatch_Laws
begin

text \<open>
  The walk of a streamed request, \<open>stream_with_failover\<close> of \<open>crates/gateway/src/routes/dispatch.rs\<close>:
  the same targets, circuits and plans, but each credential only opens a stream, and the request's
  accounting is disposed of at the end: handed to the relay with an opened stream, settled as an
  upstream error, or released.  Opening a stream and its decoder are the argument \<open>op\<close>.
\<close>

section \<open>Opening a stream\<close>

record ('w, 'b, 'd, 's) opener =
  op_decoder :: "provider_config \<Rightarrow> route \<Rightarrow> (provider_error, 'd) result"
  op_open :: "provider_config \<Rightarrow> string \<Rightarrow> route \<Rightarrow> string \<Rightarrow> 'b \<Rightarrow> instant \<Rightarrow> shared \<Rightarrow> 'w \<Rightarrow>
                (transport_error, 's) result \<times> shared \<times> 'w"

text \<open>
  \<open>open_stream_lease\<close>: the chat and responses routes ask the adapter for a decoder, which it may not
  have; the native route has its own.
\<close>

definition open_stream_lease ::
  "('w, 'b, 'c, 'r) upstream_api \<Rightarrow> ('w, 'b, 'd, 's) opener \<Rightarrow> 'b walk_request \<Rightarrow> target \<Rightarrow> provider_config \<Rightarrow>
     credential_lease \<Rightarrow> 'w walk_state \<Rightarrow> (transport_error, 'd \<times> 's) result \<times> 'w walk_state" where
  "open_stream_lease api op rq t pr l st =
     (case op_decoder op pr (wr_route rq) of
        Inl e \<Rightarrow> (Inl (ProviderFailure e), st)
      | Inr d \<Rightarrow>
          (let (r, sh, w) = op_open op pr (lease_secret l) (wr_route rq) (target_model t)
                              (api_with_model api (wr_body rq) (target_model t)) (wr_deadline rq)
                              (ws_shared st) (ws_world st);
               st1 = st\<lparr>ws_shared := sh, ws_world := w\<rparr>
           in case r of Inl e \<Rightarrow> (Inl e, st1) | Inr bytes \<Rightarrow> (Inr (d, bytes), st1)))"

section \<open>The walk\<close>

record 'p stream_context =
  sc_namespace :: string
  sc_served :: served_target
  sc_attempts :: nat
  sc_permit :: "'p option"

record 'p stream_walk = failover_walk +
  last_error :: "transport_error option"
  last_ctx :: "('p stream_context \<times> instant) option"

definition stream_walk_new :: "'p stream_walk" where
  "stream_walk_new =
     \<lparr>walk_attempts = 0, skipped_open = [], no_credential = None, walk_last = None, last_error = None, last_ctx = None\<rparr>"

text \<open>An opened stream as the relay receives it, with the leases left to rotate to.\<close>

record ('p, 'd, 's) opened_stream =
  os_context :: "'p stream_context"
  os_decoder :: 'd
  os_bytes :: 's
  os_lease :: credential_lease
  os_remaining :: "credential_lease list"
  os_next_lease_index :: nat
  os_started :: instant

datatype ('p, 'd, 's) lease_end =
    LeaseOpened "('p, 'd, 's) opened_stream"
  | NextTarget "'p stream_walk"
  | StopTargets "'p stream_walk"

definition count_attempt :: "'z failover_walk_scheme \<Rightarrow> 'z failover_walk_scheme" where
  "count_attempt walk = walk\<lparr>walk_attempts := Suc (walk_attempts walk)\<rparr>"

text \<open>
  The loop over the leases of one target.  The deadline is checked before every lease; the start of
  the attempt is read once.
\<close>

fun lease_loop ::
  "('w, 'b, 'c, 'r) upstream_api \<Rightarrow> ('w, 'b, 'd, 's) opener \<Rightarrow> 'b walk_request \<Rightarrow> 'p option \<Rightarrow> nat \<Rightarrow> target \<Rightarrow>
     provider_config \<Rightarrow> credential_plan \<Rightarrow> nat \<Rightarrow> credential_lease list \<Rightarrow> 'p stream_walk \<Rightarrow> 'w walk_state \<Rightarrow>
     ('p, 'd, 's) lease_end \<times> 'w walk_state" where
  "lease_loop api op rq permit i t pr plan li [] walk st = (NextTarget (count_attempt walk), st)"
| "lease_loop api op rq permit i t pr plan li (l # ls) walk st =
     (let (now, st1) = read_clock api st
      in if wr_deadline rq \<le> now then (StopTargets (if 0 < li then count_attempt walk else walk), st1)
         else
           (let st2 = (if li = 0 then snd (read_clock api st1) else st1);
                ctx = \<lparr>sc_namespace = wr_namespace rq,
                       sc_served = \<lparr>served_provider = target_provider t, served_model = target_model t,
                                    served_source = plan_source plan, served_credential_id = lease_id l\<rparr>,
                       sc_attempts = Suc (walk_attempts walk), sc_permit = None\<rparr>;
                (started, st3) = read_clock api st2;
                (opened, st4) = open_stream_lease api op rq t pr l st3
            in case opened of
                 Inr (d, bytes) \<Rightarrow>
                   (LeaseOpened \<lparr>os_context = ctx\<lparr>sc_permit := permit\<rparr>, os_decoder = d, os_bytes = bytes,
                      os_lease = l, os_remaining = ls,
                      os_next_lease_index = length (plan_parked plan) + li + 1, os_started = started\<rparr>,
                    record_target_success (target_key t) (note_trial i t l None st4))
               | Inl err \<Rightarrow>
                   (let st5 = note_trial i t l (Some err) st4;
                        walk' = walk\<lparr>last_error := Some err, last_ctx := Some (ctx, started)\<rparr>
                    in if is_credential_exhausted err
                       then (let (now, st6) = read_clock api st5
                             in lease_loop api op rq permit i t pr plan (Suc li) ls walk'
                                  (on_credentials (\<lambda>c. credentials_record_failure c l now) st6))
                       else
                         (let st6 = record_target_failure api (target_key t) err st5;
                              most = route_max_attempts (wr_route rq) (max_attempts (cfg_failover (wr_config rq)));
                              (reached, st7) =
                                (if Suc i < wr_total rq
                                 then bounds_reached api (walk_attempts walk) most (wr_deadline rq) st6
                                 else (True, st6))
                          in case decide (as_provider_error err) (\<not> reached) of
                               Return \<Rightarrow> (StopTargets (count_attempt walk'), st7)
                             | TryNext \<Rightarrow> (NextTarget (count_attempt walk'), st7)))))"

text \<open>
  How the request ends, and what becomes of its accounting and its admission permit: handed to the
  relay, settled as an upstream error, released before the error is returned, or left to the drop of
  the budget hold (a continuation whose target is unavailable).
\<close>

datatype ('p, 'd, 's) stream_end =
    Relayed "('p, 'd, 's) opened_stream"
  | SettledError transport_error "'p stream_context" instant
  | ReleasedError transport_error
  | Refused gateway_error
  | Abandoned gateway_error

definition stream_walk_end :: "'p option \<Rightarrow> 'p stream_walk \<Rightarrow> ('p, 'd, 's) stream_end" where
  "stream_walk_end permit walk =
     (case last_error walk of
        Some err \<Rightarrow>
          (case last_ctx walk of
             Some (ctx, started) \<Rightarrow>
               SettledError err (ctx\<lparr>sc_attempts := walk_attempts walk, sc_permit := permit\<rparr>) started
           | None \<Rightarrow> ReleasedError err)
      | None \<Rightarrow> Refused (walk_into_error walk))"

fun stream_loop ::
  "('w, 'b, 'c, 'r) upstream_api \<Rightarrow> ('w, 'b, 'd, 's) opener \<Rightarrow> 'b walk_request \<Rightarrow> 'p option \<Rightarrow> nat \<Rightarrow> target list \<Rightarrow>
     'p stream_walk \<Rightarrow> 'w walk_state \<Rightarrow> ('p, 'd, 's) stream_end \<times> 'w walk_state" where
  "stream_loop api op rq permit i [] walk st = (stream_walk_end permit walk, st)"
| "stream_loop api op rq permit i (t # ts) walk st =
     (let pinned = pins_affinity (wr_route rq);
          continuation = is_continuation api (wr_route rq) (wr_body rq);
          unavailable = Abandoned (ContinuationAffinityUnavailable (target_provider t) (target_model t));
          most = route_max_attempts (wr_route rq) (max_attempts (cfg_failover (wr_config rq)));
          (reached, st1) = bounds_reached api (walk_attempts walk) most (wr_deadline rq) st
      in if pinned \<and> 0 < i then (stream_walk_end permit walk, st)
         else if reached then (stream_walk_end permit walk, st1)
         else (case config_provider (wr_config rq) (target_provider t) of
             None \<Rightarrow>
               (if continuation then (unavailable, st1) else stream_loop api op rq permit (Suc i) ts walk st1)
           | Some pr \<Rightarrow>
               (case allow_target api (target_key t) st1 of
                  (Skip, st2) \<Rightarrow>
                    (if continuation then (unavailable, st2)
                     else stream_loop api op rq permit (Suc i) ts
                            (walk\<lparr>skipped_open := skipped_open walk @ [target_key t]\<rparr>) st2)
                | (Allow _, st2) \<Rightarrow>
                    (case plan_target api (wr_config rq) pinned (wr_namespace rq) (provider_id pr) st2 of
                       (None, st3) \<Rightarrow>
                         (if continuation then (unavailable, st3)
                          else stream_loop api op rq permit (Suc i) ts
                                 (note_missing_credential (wr_namespace rq) (provider_id pr) walk) st3)
                     | (Some plan, st3) \<Rightarrow>
                         (if plan_attempts plan = []
                          then stream_loop api op rq permit (Suc i) ts
                                 (note_missing_credential (wr_namespace rq) (provider_id pr) walk) st3
                          else case lease_loop api op rq permit i t pr plan 0 (plan_attempts plan) walk st3 of
                            (LeaseOpened os, st4) \<Rightarrow> (Relayed os, st4)
                          | (StopTargets walk', st4) \<Rightarrow> (stream_walk_end permit walk', st4)
                          | (NextTarget walk', st4) \<Rightarrow> stream_loop api op rq permit (Suc i) ts walk' st4)))))"

definition stream_with_failover ::
  "('w, 'b, 'c, 'r) upstream_api \<Rightarrow> ('w, 'b, 'd, 's) opener \<Rightarrow> config \<Rightarrow> string \<Rightarrow> route \<Rightarrow> target list \<Rightarrow> 'b \<Rightarrow> 'p option \<Rightarrow>
     'w walk_state \<Rightarrow> ('p, 'd, 's) stream_end \<times> 'w walk_state" where
  "stream_with_failover api op config ns r targets body permit st =
     (let (now, st1) = read_clock api st
      in stream_loop api op
           \<lparr>wr_config = config, wr_namespace = ns, wr_route = r, wr_body = body,
            wr_deadline = now + from_millis (overall_timeout_ms (cfg_failover config)),
            wr_total = length targets\<rparr>
           permit 0 targets stream_walk_new st1)"

section \<open>The leases of one target\<close>

text \<open>An error after which the walk goes on to the next target.\<close>

definition passes_on :: "transport_error \<Rightarrow> bool" where
  "passes_on e \<longleftrightarrow> is_retryable (as_provider_error e) \<or> is_credential_exhausted e"

lemma open_stream_lease_sel:
  assumes "open_stream_lease api op rq t pr l st = (r, st1)"
  shows "ws_tried st1 = ws_tried st"
  using assms by (auto simp: open_stream_lease_def Let_def split: sum.splits prod.splits)

definition lease_log :: "nat \<Rightarrow> target \<Rightarrow> credential_lease list \<Rightarrow> trial list \<Rightarrow> bool" where
  "lease_log i t ls trials \<longleftrightarrow>
     map trial_lease trials = take (length trials) ls
     \<and> (\<forall>x\<in>set trials. trial_index x = i \<and> trial_target x = t)
     \<and> (\<forall>x\<in>set (butlast trials). \<exists>e. trial_error x = Some e \<and> is_credential_exhausted e)"

text \<open>The error and the context a walk carries are those of the last trial.\<close>

definition carries :: "'p stream_walk \<Rightarrow> trial \<Rightarrow> bool" where
  "carries walk x \<longleftrightarrow>
     (\<exists>e ctx started. last_error walk = Some e \<and> trial_error x = Some e
        \<and> last_ctx walk = Some (ctx, started) \<and> served_by (sc_served ctx) x)"

definition lease_ends ::
  "'p option \<Rightarrow> credential_plan \<Rightarrow> nat \<Rightarrow> credential_lease list \<Rightarrow> 'p stream_walk \<Rightarrow> trial list \<Rightarrow> ('p, 'd, 's) lease_end \<Rightarrow> bool" where
  "lease_ends permit plan li ls walk trials r \<longleftrightarrow>
     (case r of
        LeaseOpened os \<Rightarrow>
          trials \<noteq> [] \<and> trial_error (last trials) = None \<and> served_by (sc_served (os_context os)) (last trials)
          \<and> sc_attempts (os_context os) = Suc (walk_attempts walk) \<and> sc_permit (os_context os) = permit
          \<and> ls = map trial_lease trials @ os_remaining os
          \<and> os_next_lease_index os = length (plan_parked plan) + li + length trials
      | NextTarget walk' \<Rightarrow>
          walk_attempts walk' = Suc (walk_attempts walk) \<and> (ls \<noteq> [] \<longrightarrow> trials \<noteq> [])
          \<and> (if trials = [] then last_error walk' = last_error walk \<and> last_ctx walk' = last_ctx walk
             else carries walk' (last trials)
               \<and> (\<exists>e. trial_error (last trials) = Some e \<and> passes_on e))
      | StopTargets walk' \<Rightarrow>
          walk_attempts walk' = walk_attempts walk + (if trials = [] \<and> li = 0 then 0 else 1)
          \<and> (if trials = [] then last_error walk' = last_error walk \<and> last_ctx walk' = last_ctx walk
             else carries walk' (last trials)))"

lemma lease_log_Cons:
  assumes "lease_log i t ls trials" and "is_credential_exhausted e"
  shows "lease_log i t (l # ls) (\<lparr>trial_index = i, trial_target = t, trial_lease = l, trial_error = Some e\<rparr> # trials)"
  using assms by (auto simp: lease_log_def)

lemma lease_ends_Cons:
  assumes "lease_ends permit plan (Suc li) ls (walk\<lparr>last_error := Some e, last_ctx := Some (ctx, started)\<rparr>) trials r"
    and "is_credential_exhausted e" and "trial_lease x = l" and "trial_error x = Some e" and "served_by (sc_served ctx) x"
  shows "lease_ends permit plan li (l # ls) walk (x # trials) r"
  using assms by (cases r) (auto simp: lease_ends_def carries_def passes_on_def split: if_splits)

lemma lease_loop_log:
  fixes walk :: "'p stream_walk"
  shows "lease_loop api op rq permit i t pr plan li ls walk st = (r, st') \<Longrightarrow>
     \<exists>trials. ws_tried st' = ws_tried st @ trials \<and> lease_log i t ls trials \<and> lease_ends permit plan li ls walk trials r"
proof (induction ls arbitrary: li walk st)
  case Nil
  then show ?case by (auto simp: lease_log_def lease_ends_def count_attempt_def)
next
  case (Cons l ls)
  obtain now st1 where clock: "read_clock api st = (now, st1)" by fastforce
  show ?case
  proof (cases "wr_deadline rq \<le> now")
    case True
    then show ?thesis using Cons.prems clock read_clock_eq [OF clock]
      by (intro exI [of _ "[]"]) (auto simp: lease_log_def lease_ends_def count_attempt_def)
  next
    case False
    define st2 where "st2 = (if li = 0 then snd (read_clock api st1) else st1)"
    define ctx :: "'p stream_context" where "ctx = \<lparr>sc_namespace = wr_namespace rq,
        sc_served = \<lparr>served_provider = target_provider t, served_model = target_model t,
          served_source = plan_source plan, served_credential_id = lease_id l\<rparr>,
        sc_attempts = Suc (walk_attempts walk), sc_permit = None\<rparr>"
    obtain started st3 where start: "read_clock api st2 = (started, st3)" by fastforce
    obtain opened st4 where opened: "open_stream_lease api op rq t pr l st3 = (opened, st4)" by fastforce
    have tried: "ws_tried st4 = ws_tried st"
      using open_stream_lease_sel [OF opened] read_clock_eq [OF start] read_clock_eq [OF clock] by (simp add: st2_def)
    note run = Cons.prems [unfolded lease_loop.simps Let_def clock prod.case, folded st2_def ctx_def,
        unfolded start opened prod.case, simplified False, simplified]
    let ?x = "\<lambda>e. \<lparr>trial_index = i, trial_target = t, trial_lease = l, trial_error = e\<rparr>"
    have served: "served_by (sc_served ctx) (?x e)" for e by (simp add: served_by_def ctx_def)
    have one: "lease_log i t (l # ls) [?x e]" for e by (simp add: lease_log_def)
    show ?thesis
    proof (cases opened)
      case (Inr ds)
      then show ?thesis using run tried served [of None] one
        by (intro exI [of _ "[?x None]"]) (auto simp: lease_ends_def ctx_def split: prod.splits)
    next
      case (Inl err)
      let ?st5 = "note_trial i t l (Some err) st4"
        and ?walk = "walk\<lparr>last_error := Some err, last_ctx := Some (ctx, started)\<rparr>"
      have st5: "ws_tried ?st5 = ws_tried st @ [?x (Some err)]" using tried by simp
      show ?thesis
      proof (cases "is_credential_exhausted err")
        case True
        obtain now' st6 where clock': "read_clock api ?st5 = (now', st6)" by fastforce
        let ?st7 = "on_credentials (\<lambda>c. credentials_record_failure c l now') st6"
        have "lease_loop api op rq permit i t pr plan (Suc li) ls ?walk ?st7 = (r, st')"
          using run Inl True clock' by simp
        from Cons.IH [OF this] obtain trials where trials: "ws_tried st' = ws_tried ?st7 @ trials"
          "lease_log i t ls trials" "lease_ends permit plan (Suc li) ls ?walk trials r" by blast
        moreover have "ws_tried ?st7 = ws_tried st @ [?x (Some err)]"
          using st5 read_clock_eq [OF clock'] by simp
        ultimately show ?thesis
          using lease_log_Cons [OF trials(2) True] lease_ends_Cons [OF trials(3) True _ _ served]
          by (intro exI [of _ "?x (Some err) # trials"]) simp
      next
        case False
        let ?st6 = "record_target_failure api (target_key t) err ?st5"
        obtain reached st7 where bounds: "(if Suc i < wr_total rq
            then bounds_reached api (walk_attempts walk) (attempts_allowed rq) (wr_deadline rq) ?st6
            else (True, ?st6)) = (reached, st7)" by fastforce
        then have "ws_tried st7 = ws_tried st @ [?x (Some err)]"
          using st5 bounds_reached_sel [of api _ _ _ ?st6 reached st7] by (auto split: if_splits)
        moreover have "st' = st7" "r = (case decide (as_provider_error err) (\<not> reached) of
            Return \<Rightarrow> StopTargets (count_attempt ?walk) | TryNext \<Rightarrow> NextTarget (count_attempt ?walk))"
          using run [unfolded Inl sum.case, folded attempts_allowed_def, simplified False if_False bounds prod.case]
          by (auto split: failover_decision.splits)
        ultimately show ?thesis using one served
          by (intro exI [of _ "[?x (Some err)]"])
            (auto simp: lease_ends_def carries_def count_attempt_def decide_def passes_on_def)
      qed
    qed
  qed
qed

section \<open>The walk over the targets\<close>

definition stream_may_follow :: "trial \<Rightarrow> trial \<Rightarrow> bool" where
  "stream_may_follow x y \<longleftrightarrow>
     (\<exists>e. trial_error x = Some e
        \<and> (trial_index y = trial_index x \<and> is_credential_exhausted e
           \<or> trial_index x < trial_index y \<and> passes_on e))"

definition stream_orderly :: "target list \<Rightarrow> route \<Rightarrow> trial list \<Rightarrow> bool" where
  "stream_orderly targets r log \<longleftrightarrow>
     successively stream_may_follow log
     \<and> (\<forall>x\<in>set log. trial_index x < length targets \<and> trial_target x = targets ! trial_index x)
     \<and> (pins_affinity r \<longrightarrow> length log \<le> 1 \<and> (\<forall>x\<in>set log. trial_index x = 0))"

definition stream_keeps :: "'b walk_request \<Rightarrow> target list \<Rightarrow> trial list \<Rightarrow> trial list \<Rightarrow> nat \<Rightarrow> 'p stream_walk \<Rightarrow> 'w walk_state \<Rightarrow> bool" where
  "stream_keeps rq targets before log i walk st \<longleftrightarrow>
     ws_tried st = before @ log \<and> stream_orderly targets (wr_route rq) log \<and> (\<forall>x\<in>set log. trial_index x < i)
     \<and> walk_attempts walk = tried_targets log \<and> tried_targets log \<le> attempts_allowed rq
     \<and> (if log = [] then last_error walk = None
        else carries walk (last log) \<and> (\<exists>e. trial_error (last log) = Some e \<and> passes_on e))"

definition stream_ends :: "'b walk_request \<Rightarrow> target list \<Rightarrow> 'p option \<Rightarrow> trial list \<Rightarrow> ('p, 'd, 's) stream_end \<Rightarrow> bool" where
  "stream_ends rq targets permit log r \<longleftrightarrow>
     stream_orderly targets (wr_route rq) log \<and> tried_targets log \<le> attempts_allowed rq
     \<and> (case r of
           Relayed os \<Rightarrow>
             log \<noteq> [] \<and> trial_error (last log) = None \<and> served_by (sc_served (os_context os)) (last log)
             \<and> sc_attempts (os_context os) = tried_targets log \<and> sc_permit (os_context os) = permit
         | SettledError err ctx _ \<Rightarrow>
             log \<noteq> [] \<and> trial_error (last log) = Some err \<and> served_by (sc_served ctx) (last log)
             \<and> sc_attempts ctx = tried_targets log \<and> sc_permit ctx = permit
         | ReleasedError _ \<Rightarrow> False
         | Refused _ \<Rightarrow> log = []
         | Abandoned _ \<Rightarrow> log = [] \<and> pins_affinity (wr_route rq))"

lemma lease_log_targets:
  assumes "\<forall>x\<in>set log. trial_index x < i" and "lease_log i t ls trials"
  shows "tried_targets (log @ trials) = tried_targets log + (if trials = [] then 0 else 1)"
proof (cases "trials = []")
  case False
  with assms(2) have "trial_index ` set trials = {i}" by (auto simp: lease_log_def image_iff neq_Nil_conv)
  then have "trial_index ` set (log @ trials) = insert i (trial_index ` set log)" by auto
  moreover have "i \<notin> trial_index ` set log" using assms(1) by auto
  ultimately show ?thesis using False by (simp add: tried_targets_def)
qed simp

lemma stream_log_extends:
  assumes keeps: "stream_keeps rq targets before log i walk st" and "i < length targets"
    and "pins_affinity (wr_route rq) \<Longrightarrow> i = 0" and "pins_affinity (wr_route rq) \<Longrightarrow> length ls \<le> 1"
    and leases: "lease_log i (targets ! i) ls trials"
  shows "stream_orderly targets (wr_route rq) (log @ trials)"
proof -
  have inside: "successively stream_may_follow trials"
    using leases unfolding lease_log_def stream_may_follow_def
    by (intro successively_butlast ballI) (metis in_set_butlastD)
  have across: "stream_may_follow (last log) (hd trials)" if "log \<noteq> []" "trials \<noteq> []"
    using keeps leases that by (auto simp: stream_keeps_def lease_log_def stream_may_follow_def)
  have "length trials \<le> length ls"
    using leases unfolding lease_log_def by (metis length_map length_take min.cobounded1)
  then have pinned: "log = []" "length trials \<le> 1" if "pins_affinity (wr_route rq)"
    using keeps assms(3,4) that by (cases log, auto simp: stream_keeps_def)
  have "successively stream_may_follow (log @ trials)"
    using keeps inside across by (auto simp: stream_keeps_def stream_orderly_def successively_append_iff)
  with keeps leases pinned assms(2,3) show ?thesis
    by (auto simp: stream_keeps_def stream_orderly_def lease_log_def)
qed

lemma stream_walk_end_ends:
  assumes "stream_orderly targets (wr_route rq) log" and "tried_targets log \<le> attempts_allowed rq"
    and "walk_attempts walk = tried_targets log"
    and "if log = [] then last_error walk = None else carries walk (last log)"
  shows "stream_ends rq targets permit log (stream_walk_end permit walk)"
  using assms by (auto simp: stream_ends_def stream_walk_end_def carries_def split: if_splits)

lemma stream_keeps_ends:
  "stream_keeps rq targets before log i walk st \<Longrightarrow> stream_ends rq targets permit log (stream_walk_end permit walk)"
  by (rule stream_walk_end_ends) (auto simp: stream_keeps_def split: if_splits)

text \<open>One target that is allowed and has a plan.\<close>

lemma lease_loop_keeps:
  fixes r :: "('p, 'd, 's) lease_end"
  assumes keeps: "stream_keeps rq targets before log i walk st" and "i < length targets"
    and pin: "pins_affinity (wr_route rq) \<Longrightarrow> i = 0" "pins_affinity (wr_route rq) \<Longrightarrow> length (plan_attempts plan) \<le> 1"
    and room: "walk_attempts walk < attempts_allowed rq" and "plan_attempts plan \<noteq> []"
    and run: "lease_loop api op rq permit i (targets ! i) pr plan 0 (plan_attempts plan) walk st = (r, st')"
  shows "\<exists>log'. ws_tried st' = before @ log' \<and>
    (case r of
       LeaseOpened os \<Rightarrow> stream_ends rq targets permit log' (Relayed os)
     | StopTargets walk' \<Rightarrow> stream_ends rq targets permit log' (stream_walk_end permit walk' :: ('p, 'd, 's) stream_end)
     | NextTarget walk' \<Rightarrow> stream_keeps rq targets before log' (Suc i) walk' st')"
proof -
  obtain trials where trials: "ws_tried st' = ws_tried st @ trials" "lease_log i (targets ! i) (plan_attempts plan) trials"
    "lease_ends permit plan 0 (plan_attempts plan) walk trials r"
    using lease_loop_log [OF run] by blast
  note orderly = stream_log_extends [OF keeps assms(2) pin trials(2)]
  have count: "tried_targets (log @ trials) = tried_targets log + (if trials = [] then 0 else 1)"
    using keeps by (intro lease_log_targets [OF _ trials(2)]) (simp add: stream_keeps_def)
  have log: "ws_tried st' = before @ log @ trials" "walk_attempts walk = tried_targets log"
    "\<forall>x\<in>set (log @ trials). trial_index x < Suc i" "tried_targets (log @ trials) \<le> attempts_allowed rq"
    using keeps trials(1,2) room count by (auto simp: stream_keeps_def lease_log_def less_Suc_eq)
  show ?thesis
  proof (cases r)
    case (LeaseOpened os)
    with trials(3) log orderly count show ?thesis
      by (intro exI [of _ "log @ trials"]) (simp add: lease_ends_def stream_ends_def)
  next
    case (NextTarget walk')
    with trials(3) log orderly count assms(6) show ?thesis
      by (intro exI [of _ "log @ trials"]) (auto simp: lease_ends_def stream_keeps_def)
  next
    case (StopTargets walk')
    with trials(3) log orderly count keeps have "stream_ends rq targets permit (log @ trials) (stream_walk_end permit walk' :: ('p, 'd, 's) stream_end)"
      by (intro stream_walk_end_ends) (auto simp: lease_ends_def stream_keeps_def carries_def split: if_splits)
    with StopTargets log(1) show ?thesis by (intro exI [of _ "log @ trials"]) simp
  qed
qed

lemma stream_keeps_idle:
  "stream_keeps rq targets before log i walk st \<Longrightarrow> ws_tried st' = ws_tried st \<Longrightarrow> walk_attempts walk' = walk_attempts walk \<Longrightarrow>
     last_error walk' = last_error walk \<Longrightarrow> last_ctx walk' = last_ctx walk \<Longrightarrow> i \<le> j \<Longrightarrow>
     stream_keeps rq targets before log j walk' st'"
  by (auto simp: stream_keeps_def carries_def)

lemma stream_loop_ends:
  fixes st st' :: "'w walk_state" and r :: "('p, 'd, 's) stream_end"
  shows "stream_keeps rq targets before log i walk st \<Longrightarrow> ts = drop i targets \<Longrightarrow> i \<le> length targets \<Longrightarrow>
     stream_loop api op rq permit i ts walk st = (r, st') \<Longrightarrow>
     \<exists>log'. ws_tried st' = before @ log' \<and> stream_ends rq targets permit log' r"
proof (induction ts arbitrary: log i walk st)
  case Nil
  then show ?case using stream_keeps_ends [OF Nil(1)] by (auto simp: stream_keeps_def)
next
  case (Cons t ts)
  have i: "i < length targets" "targets ! i = t" "ts = drop (Suc i) targets"
    using Cons.prems(2,3) by (metis drop_eq_Nil2 list.discI not_le, metis Cons_nth_drop_Suc drop_eq_Nil2 list.discI list.inject not_le,
        metis drop_Suc list.sel(3) tl_drop)
  let ?pinned = "pins_affinity (wr_route rq)" and ?continuation = "is_continuation api (wr_route rq) (wr_body rq)"
  note again = Cons.IH [OF _ i(3) Suc_leI [OF i(1)]]
  obtain reached st1 where bounds: "bounds_reached api (walk_attempts walk) (attempts_allowed rq) (wr_deadline rq) st = (reached, st1)"
    by fastforce
  note loop = Cons.prems(4) [simplified, folded attempts_allowed_def, unfolded bounds Let_def, simplified]
  have tried: "ws_tried st = before @ log" using Cons.prems(1) by (simp add: stream_keeps_def)
  note tried1 = bounds_reached_sel(1) [OF bounds]
  have ends: "\<exists>log'. ws_tried st'' = before @ log' \<and> stream_ends rq targets permit log' (stream_walk_end permit walk)"
    if "ws_tried st'' = ws_tried st" for st'' :: "'w walk_state"
    using stream_keeps_ends [OF Cons.prems(1)] tried that by (intro exI [of _ log]) simp
  have gone: "\<exists>log'. ws_tried st'' = before @ log' \<and> stream_ends rq targets permit log' (Abandoned e)"
    if "?continuation" "ws_tried st'' = ws_tried st" "\<not> (?pinned \<and> 0 < i)" for st'' :: "'w walk_state" and e
  proof -
    have "?pinned" "log = []" using that Cons.prems(1) by (auto simp: is_continuation_def stream_keeps_def neq_Nil_conv)
    with Cons.prems(1) tried that(2) show ?thesis by (intro exI [of _ "[]"]) (simp add: stream_ends_def stream_keeps_def)
  qed
  have next_target: "\<exists>log'. ws_tried st' = before @ log' \<and> stream_ends rq targets permit log' r"
    if "stream_loop api op rq permit (Suc i) ts walk' st'' = (r, st')" "ws_tried st'' = ws_tried st"
      "walk_attempts walk' = walk_attempts walk" "last_error walk' = last_error walk" "last_ctx walk' = last_ctx walk" for walk' st''
    by (rule again [OF stream_keeps_idle [OF Cons.prems(1) that(2-5)] that(1)]) simp
  show ?case
  proof (cases "?pinned \<and> 0 < i \<or> reached")
    case True
    then show ?thesis using loop ends tried1 by (auto split: if_splits)
  next
    case False
    then have go: "\<not> (?pinned \<and> 0 < i)" "walk_attempts walk < attempts_allowed rq"
      using bounds_reached_sel(3) [OF bounds] by auto
    show ?thesis
    proof (cases "config_provider (wr_config rq) (target_provider t)")
      case None
      with loop False gone [OF _ tried1 go(1)] next_target [OF _ tried1] show ?thesis by (auto split: if_splits)
    next
      case (Some pr)
      obtain d st2 where allow: "allow_target api (target_key t) st1 = (d, st2)" by fastforce
      have tried2: "ws_tried st2 = ws_tried st" using allow_target_sel(1) [OF allow] tried1 by simp
      show ?thesis
      proof (cases d)
        case Skip
        with loop False Some allow gone [OF _ tried2 go(1)] next_target [OF _ tried2] show ?thesis by (auto split: if_splits)
      next
        case (Allow probe)
        obtain p st3 where plan: "plan_target api (wr_config rq) ?pinned (wr_namespace rq) (provider_id pr) st2 = (p, st3)"
          by fastforce
        have tried3: "ws_tried st3 = ws_tried st" using plan_target_sel(1) [OF plan] tried2 by simp
        show ?thesis
        proof (cases p)
          case None
          with loop False Some allow Allow plan gone [OF _ tried3 go(1)] next_target [OF _ tried3]
          show ?thesis by (auto simp: note_missing_credential_def split: if_splits)
        next
          case (Some pl)
          note known = \<open>config_provider (wr_config rq) (target_provider t) = Some pr\<close>
          have keep3: "stream_keeps rq targets before log i walk st3"
            by (rule stream_keeps_idle [OF Cons.prems(1) tried3]) simp_all
          have pl: "plan_attempts pl \<noteq> []" using plan_target_sel(2) [OF plan] Some by simp
          have single: "length (plan_attempts pl) \<le> 1" if ?pinned
            using plan_pinned_single [OF plan_target_sel(3) [OF plan Some that]] by simp
          obtain res st4 where leases: "lease_loop api op rq permit i t pr pl 0 (plan_attempts pl) walk st3 = (res, st4)"
            by fastforce
          have first: "i = 0" if ?pinned using go(1) that by simp
          obtain log' where "ws_tried st4 = before @ log'" "case res of
               LeaseOpened os \<Rightarrow> stream_ends rq targets permit log' (Relayed os)
             | StopTargets walk' \<Rightarrow> stream_ends rq targets permit log' (stream_walk_end permit walk' :: ('p, 'd, 's) stream_end)
             | NextTarget walk' \<Rightarrow> stream_keeps rq targets before log' (Suc i) walk' st4"
            using lease_loop_keeps [OF keep3 i(1) first single go(2) pl leases [folded i(2)]] by blast
          with loop False known allow Allow plan Some leases pl again show ?thesis
            by (cases res) (auto split: if_splits)
        qed
      qed
    qed
  qed
qed

section \<open>Property\<close>

text \<open>
  C7. The walk of a streamed request.  Its attempts follow the targets in order, another credential of
  a target only after a rate limit, another target only after a failure that passes on, within the
  attempts the policy allows.  Its accounting is disposed of exactly once and as the attempts require:
  an opened stream is handed to the relay with the admission permit; a request that tried and opened
  nothing is settled as the error of its last attempt, with that attempt's attribution and the permit;
  only a request that tried nothing has its hold released, before it is refused or by the drop of the
  hold.
\<close>

theorem stream_attempts_and_accounting:
  "case stream_with_failover api op config ns r targets body permit st of (e, st') \<Rightarrow>
    \<exists>log. ws_tried st' = ws_tried st @ log \<and> stream_orderly targets r log
      \<and> tried_targets log \<le> route_max_attempts r (max_attempts (cfg_failover config))
      \<and> (case e of
            Relayed os \<Rightarrow>
              log \<noteq> [] \<and> trial_error (last log) = None \<and> served_by (sc_served (os_context os)) (last log)
              \<and> sc_attempts (os_context os) = tried_targets log \<and> sc_permit (os_context os) = permit
          | SettledError err ctx _ \<Rightarrow>
              log \<noteq> [] \<and> trial_error (last log) = Some err \<and> served_by (sc_served ctx) (last log)
              \<and> sc_attempts ctx = tried_targets log \<and> sc_permit ctx = permit
          | ReleasedError _ \<Rightarrow> False
          | Refused _ \<Rightarrow> log = []
          | Abandoned _ \<Rightarrow> log = [] \<and> pins_affinity r)"
proof -
  obtain now st1 where clock: "read_clock api st = (now, st1)" by fastforce
  let ?rq = "request_of config ns r targets body now"
  obtain e st' where run: "stream_with_failover api op config ns r targets body permit st = (e, st')" by fastforce
  then have loop: "stream_loop api op ?rq permit 0 targets stream_walk_new st1 = (e, st')"
    by (simp add: stream_with_failover_def clock request_of_def)
  have "stream_keeps ?rq targets (ws_tried st) [] 0 stream_walk_new st1"
    using read_clock_eq [OF clock]
    by (simp add: stream_keeps_def stream_walk_new_def stream_orderly_def tried_targets_def)
  from stream_loop_ends [OF this _ _ loop]
  obtain log where "ws_tried st' = ws_tried st @ log" "stream_ends ?rq targets permit log e" by auto
  then show ?thesis unfolding run prod.case
    by (intro exI [of _ log]) (cases e; auto simp: stream_ends_def attempts_allowed_def request_of_def)
qed

end
