(* ===== verification/Spec2Isabelle.thy ===== *)
theory Spec2Isabelle
  imports Circuit Provider_Error Price Sse Backoff Lifecycle Admission Uuid Worker Canonical Rotation Stream_Dispatch
begin

text \<open>
  \<^bold>\<open>Axond, an inference gateway: a verification development.\<close>

  The program (workspace \<open>crates/\<close>) accepts requests for language models, admits them under ceilings,
  walks the configured targets of a model with a credential of the requesting namespace or of the
  platform, relays the answer, prices it, and records what was used in a journal from which a worker
  delivers usage events to destinations.  \<open>gateway-core\<close> holds the provider-independent logic,
  \<open>gateway-transport\<close> the HTTP client, \<open>gateway\<close> the process.  The parts meet as follows: \<open>Config\<close> is
  validated once at boot and read by every other part; \<open>AdmissionControl\<close> and \<open>Lifecycle\<close> stand in front
  of a request; \<open>routes::dispatch\<close> asks the circuit breaker for each target and the credential pools for
  a plan, and tells both what came of it; the journal takes the usage events, the worker claims,
  writes, and acknowledges, relinquishes or quarantines them.

  \<^bold>\<open>Theories and sources.\<close>  Paths are under \<open>src/crates/\<close>.

  \<^item> \<open>Gateway_Prelude\<close>, \<open>Rust_String\<close>, \<open>Json_Api\<close>: machine integers, time, results, reachability and the
    contract of an invariant; the string operations of the standard library; \<open>serde_json\<close> as an
    argument.
  \<^item> \<open>Probe_Gate\<close>, \<open>Circuit\<close> (\<open>gateway-core/src/circuit.rs\<close>), \<open>Provider_Error\<close> (\<open>error.rs\<close> and \<open>failover.rs\<close>
    there), \<open>Sse\<close> (\<open>stream.rs\<close>), \<open>Price\<close> (\<open>catalog.rs\<close>, with \<open>pricing.rs\<close> and \<open>backends/catalog_price.rs\<close> of
    \<open>gateway\<close>).
  \<^item> \<open>Backoff\<close> (\<open>gateway/src/backoff.rs\<close>), \<open>Lifecycle\<close> (\<open>shutdown.rs\<close>), \<open>Admission\<close> (\<open>admission.rs\<close>), \<open>Uuid\<close>
    (\<open>desired_state/ids.rs\<close>, \<open>usage/identity.rs\<close>), \<open>Canonical\<close> (\<open>desired_state/canonical.rs\<close>), \<open>Aliases\<close>
    (\<open>aliases.rs\<close>).
  \<^item> \<open>Journal\<close> and \<open>Journal_Laws\<close> (\<open>usage/journal.rs\<close>, \<open>usage/journal/oracle.rs\<close>), \<open>Bisection\<close> and \<open>Worker\<close>
    (\<open>usage/journal/worker.rs\<close>).
  \<^item> \<open>Config\<close>, \<open>Config_Validation\<close> and \<open>Config_Laws\<close> (\<open>config.rs\<close>, with the checks of \<open>usage/postgres.rs\<close> and
    \<open>backends/models_dev.rs\<close> it calls), \<open>Credentials\<close>, \<open>Credential_Laws\<close> and \<open>Rotation\<close> (\<open>credentials.rs\<close>).
  \<^item> \<open>Gateway_Error\<close> (\<open>error.rs\<close>, and the error type of \<open>gateway-transport\<close>), \<open>Dispatch\<close>, \<open>Dispatch_Laws\<close> and
    \<open>Stream_Dispatch\<close> (\<open>routes/dispatch.rs\<close>, with the route rules of \<open>routes/mod.rs\<close>).

  \<^bold>\<open>How the code becomes definitions.\<close>  A struct is a record, an enum a datatype, a function or method a
  definition of the same name that returns the new state beside its result.  \<open>Err\<close> is \<open>Inl\<close>; an \<open>expect\<close>
  or \<open>unwrap\<close> that could fire is an outer \<open>None\<close>, and the properties show it does not.  Integers are words
  where the source wraps, saturates or checks.  A method that runs under one lock is one step; where
  the source uses several atomics or awaits (\<open>shutdown.rs\<close>, \<open>admission.rs\<close>), every access is a step of
  its own and an inductive relation interleaves them for any number of requests.  Loops over data are
  structural recursions, and the others have a termination proof (the SSE scan, the canonical decoder,
  trimming); the level loop of the bisection is a \<open>partial_function\<close> whose return is proved (C11).  No
  model runs on fuel.  The clock, the environment, \<open>serde_json\<close>, \<open>reqwest::Url\<close>,
  the tokio semaphore, the destinations and the upstream call are arguments; the laws assumed of them
  are named predicates (\<open>semaphore_laws\<close>, \<open>sends_by_steps\<close>) with an instance that has them.

  \<^bold>\<open>Contracts.\<close>
  \<^item> \<open>inductive_invariant\<close>: a property kept by every step holds in every reachable state; interpreted for
    the lifecycle, the admission gate, the credential table and the journal (twice).
  \<^item> \<open>probe_gate\<close>: what spaces the probes of a tripped unit; interpreted for the circuit breaker and for
    the credential health table.
  \<^item> \<open>journal_contract\<close>: what the delivery worker relies on in a journal, as the standing of each event
    with each consumer; interpreted for the in-memory journal, the definition of the contract.
  \<^item> \<open>target_walk\<close>: an invariant of the walk over targets and what it gives at each of its ends;
    interpreted for the order of the attempts and for whose credentials are sent.

  \<^bold>\<open>What is shown.\<close>
  \<^item> Journal (C1--C3, C20, C21, C27): in every reachable journal the footprint is bounded, the index and
    the verdicts are consistent, and one event per key is in flight, the oldest; a claim delivers in
    order within the attempt budget; what an append gives up was delivered or is a counted drop; a
    retried append is recognised while the event is held; an acknowledgement stays final in every
    later state; the statistics account for every event.
  \<^item> Worker (C4, C9, C11, C28): a pass settles every claimed event by its outcome; a destination outage
    of any length changes no event's standing; the bisection ends, attributes every refusal, and
    isolates the poison event.
  \<^item> Dispatch (C5--C7, C40): the order, number and attribution of attempts, buffered and streamed; whose
    credentials are sent; which error a request that sent nothing returns; what an error response says.
  \<^item> Credentials (C8, C35--C39): isolation of tenants' keys, the exact plan from the pool's cursor and
    health, fair rotation, spaced probes and parking by consecutive failures, resolution at boot, and
    exactly what the status view shows.
  \<^item> Admission and lifecycle (C10, C12, C16, C22): no ceiling is exceeded and all capacity comes back
    under any interleaving of the individual accesses; no drain waiter is lost; the phase never goes
    back.
  \<^item> Configuration (C31--C34): a validated configuration is coherent, its ceilings fit together and fit a
    semaphore, its names are safe in SQL text, and its prices and blocks are globs.
  \<^item> Core (C13--C15, C17--C19, C23--C26, C29, C30): chunk boundaries are invisible to the SSE decoder; costs
    are exact up to the final clamp; breaker threshold and probe spacing; identities increase and
    their text is canonical; bounded diagnostics; what an upstream status becomes; exact imported
    rates; the canonical encoding is injective and order-independent.

  \<^bold>\<open>Simplifications.\<close>  Journal positions, attempt numbers and the drop counter (\<open>u64\<close>, \<open>u32\<close>) and points in
  time are unbounded, so their overflow (and the panic of adding a lease or a deadline past the end of
  time) is not modelled; a position would have to be issued \<open>2 ^ 64\<close> times.  During a request's walk
  other requests change the shared tables while its upstream call is under way, not between two of
  its accesses to them.  An attempt whose body cannot be encoded appears in the log of attempts although
  nothing is sent; the log is not part of the program's state.  How a streamed request is accounted for
  is the constructor of its end (\<open>stream_end\<close>), not a state of the budget.  A \<open>HashMap\<close> is the list of its
  entries in an unspecified order.  Metrics, spans and log lines only observe and are left out.

  \<^bold>\<open>Not modelled.\<close>  The SQL of the Postgres journal and of the stores, the HTTP client, telemetry, and
  signal handling are input and output; TOML and environment reading is \<open>figment\<close> and \<open>serde\<close>; the axum
  handlers, the streaming relay, the provider adapters, the catalogue import, budgets and settlement
  are outside the parts chosen here.
\<close>

end
